(* ===== verification/Prelude.thy ===== *)
theory Prelude
  imports Main "HOL-Library.Word" "HOL-Library.Sublist" "HOL-Library.AList"
    "HOL-Library.Char_ord" "HOL-Library.List_Lexorder"
begin

text \<open>
  Shared vocabulary of the development: the fact collections, the Go-level types every
  component uses (bytes, 64-bit unsigned integers, Go maps) and the generic list, option and map
  lemmas.

  A Go \<open>string\<close> is a sequence of bytes, so it is Isabelle's \<open>string\<close> (a list of \<open>char\<close>, each
  \<open>char\<close> one byte). A Go \<open>uint64\<close> is a \<open>64 word\<close>, which wraps around. Go \<open>int\<close> values that come
  from the caller (caps, exact counts, line numbers) are \<open>int\<close>; counters that only ever grow by
  one per call are \<open>nat\<close>.

  A Go \<open>map\<close> whose size or iteration is observed is an association list with distinct keys
  (\<open>gomap\<close>); its iteration order is the list order, and every result that Go makes
  order-independent by sorting is shown to depend on the contents only.
\<close>

section \<open>Fact collections\<close>

named_theorems model_defs \<open>definitions of the model, unfolded to run it on a concrete input\<close>
named_theorems frame_rules \<open>what an operation leaves unchanged\<close>
named_theorems kind_rules \<open>facts on statement kinds\<close>

section \<open>Bytes and machine integers\<close>

type_synonym u64 = "64 word"

abbreviation byte :: "char \<Rightarrow> nat" where
  "byte c \<equiv> of_char c"

lemma byte_less_256 [simp]: "byte c < 256"
  using range_nat_of_char by auto

section \<open>Go maps\<close>

type_synonym ('k, 'v) gomap = "('k \<times> 'v) list"

definition gm_wf :: "('k, 'v) gomap \<Rightarrow> bool" where
  "gm_wf m \<longleftrightarrow> distinct (map fst m)"

abbreviation gm_get :: "('k, 'v) gomap \<Rightarrow> 'k \<Rightarrow> 'v option" where
  "gm_get m k \<equiv> map_of m k"

abbreviation gm_put :: "'k \<Rightarrow> 'v \<Rightarrow> ('k, 'v) gomap \<Rightarrow> ('k, 'v) gomap" where
  "gm_put k v m \<equiv> AList.update k v m"

lemma gm_wf_Nil [simp]: "gm_wf []"
  by (simp add: gm_wf_def)

lemma gm_wf_put [simp]: "gm_wf m \<Longrightarrow> gm_wf (gm_put k v m)"
  by (simp add: gm_wf_def distinct_update)

lemma gm_get_put: "gm_get (gm_put k v m) j = (if j = k then Some v else gm_get m j)"
  by (simp add: update_conv fun_upd_def)

lemma gm_get_iff: "gm_wf m \<Longrightarrow> gm_get m k = Some v \<longleftrightarrow> (k, v) \<in> set m"
  by (auto simp: gm_wf_def)

lemma gm_keys_put: "fst ` set (gm_put k v m) = insert k (fst ` set m)"
  using dom_update [of k v m] by (simp add: dom_map_of_conv_image_fst)

lemma gm_get_None_iff: "gm_get m k = None \<longleftrightarrow> k \<notin> fst ` set m"
  by (rule map_of_eq_None_iff)

lemma gm_get_Some_key: "gm_get m k = Some v \<Longrightarrow> k \<in> fst ` set m"
  by (force dest: map_of_SomeD)

lemma length_gm_put:
  "length (gm_put k v m) = (if k \<in> fst ` set m then length m else Suc (length m))"
  by (induction m) auto

section \<open>Lists and options\<close>

text \<open>Keys in order of first appearance.\<close>

fun firstAppearance :: "'a list \<Rightarrow> 'a list" where
  "firstAppearance [] = []"
| "firstAppearance (x # xs) = x # filter (\<lambda>y. y \<noteq> x) (firstAppearance xs)"

lemma set_firstAppearance [simp]: "set (firstAppearance xs) = set xs"
  by (induction xs) auto

lemma distinct_firstAppearance [simp]: "distinct (firstAppearance xs)"
  by (induction xs) simp_all

lemma firstAppearance_snoc:
  "firstAppearance (xs @ [x]) = (if x \<in> set xs then firstAppearance xs else firstAppearance xs @ [x])"
  by (induction xs) (auto simp: filter_id_conv)

lemma length_firstAppearance: "length (firstAppearance xs) = card (set xs)"
  using distinct_card [of "firstAppearance xs"] by simp

text \<open>The names of a map that satisfy a test, sorted: Go's \<open>for name, e := range m\<close> followed by
  \<open>sort.Strings\<close>.\<close>

definition sorted_names :: "('v \<Rightarrow> bool) \<Rightarrow> (string, 'v) gomap \<Rightarrow> string list" where
  "sorted_names P m = sort (map fst (filter (\<lambda>(_, v). P v) m))"

lemma set_sorted_names:
  "gm_wf m \<Longrightarrow> set (sorted_names P m) = {k. \<exists>v. gm_get m k = Some v \<and> P v}"
  by (force simp: sorted_names_def gm_get_iff image_iff)

lemma sorted_sorted_names: "sorted (sorted_names P m)"
  by (simp add: sorted_names_def)

lemma distinct_map_fst_filter: "distinct (map fst m) \<Longrightarrow> distinct (map fst (filter P m))"
  by (induction m) auto

lemma distinct_sorted_names: "gm_wf m \<Longrightarrow> distinct (sorted_names P m)"
  by (simp add: sorted_names_def gm_wf_def distinct_map_fst_filter)

lemma sorted_names_eq:
  assumes "gm_wf m"
  shows "sorted_names P m = sorted_list_of_set {k. \<exists>v. gm_get m k = Some v \<and> P v}"
proof -
  have "sorted_list_of_set (set (sorted_names P m)) = sorted_names P m"
    by (rule sorted_list_of_set.idem_if_sorted_distinct)
      (simp_all add: sorted_sorted_names distinct_sorted_names assms)
  then show ?thesis
    by (simp add: set_sorted_names [OF assms])
qed

lemma takeWhile_append_dropWhile: "takeWhile P xs @ dropWhile P xs = xs"
  by simp

lemma dropWhile_hd_not: "dropWhile P xs = x # ys \<Longrightarrow> \<not> P x"
  by (metis hd_dropWhile list.distinct(1) list.sel(1))

lemma length_dropWhile_less_Suc: "length (dropWhile P xs) < Suc (length xs)"
  by (simp add: le_imp_less_Suc length_dropWhile_le)

text \<open>Two labellings of the same index set that agree on which indices are equal have equally many
  labels.\<close>

lemma card_same_kernel:
  assumes "\<And>i j. i \<in> I \<Longrightarrow> j \<in> I \<Longrightarrow> g i = g j \<longleftrightarrow> h i = h j"
  shows "card (g ` I) = card (h ` I)"
proof -
  let ?r = "inv_into I g"
  have r: "?r x \<in> I" "g (?r x) = x" if "x \<in> g ` I" for x
    using that by (simp_all add: inv_into_into f_inv_into_f)
  have "bij_betw (h \<circ> ?r) (g ` I) (h ` I)"
  proof (rule bij_betw_imageI)
    show "inj_on (h \<circ> ?r) (g ` I)"
      by (rule inj_onI) (metis assms comp_apply r)
    show "(h \<circ> ?r) ` g ` I = h ` I"
    proof (intro equalityI subsetI)
      fix y assume "y \<in> h ` I"
      then obtain i where i: "i \<in> I" "y = h i" by auto
      then have "h (?r (g i)) = y" using assms r by (metis imageI)
      then show "y \<in> (h \<circ> ?r) ` g ` I" using i(1) by force
    qed (use r in auto)
  qed
  then show ?thesis by (rule bij_betw_same_card)
qed

lemma append_Cons_eq_first:
  assumes "xs @ q # ys = us @ q # vs" and "q \<notin> set us"
  shows "(xs = us \<and> ys = vs) \<or> (\<exists>zs. xs = us @ q # zs \<and> vs = zs @ q # ys)"
  using assms by (auto simp: append_eq_append_conv2 append_eq_Cons_conv Cons_eq_append_conv)

lemma takeWhile_until: "x \<notin> set xs \<Longrightarrow> takeWhile (\<lambda>y. y \<noteq> x) (xs @ x # ys) = xs"
  by (induction xs) auto

end
