(* ===== verification/GoStrings.thy ===== *)
theory GoStrings
  imports Prelude
begin

text \<open>
  The functions of Go's packages \<open>strings\<close>, \<open>fmt\<close> and \<open>strconv\<close> that the sources use, on byte
  strings: prefix and substring search, trimming, replacement of a single byte, decimal
  rendering. Substring search returns the first index, overlaps included, as \<open>strings.Index\<close> does.
\<close>

section \<open>Searching\<close>

definition hasPrefix :: "string \<Rightarrow> string \<Rightarrow> bool" where
  "hasPrefix s p \<longleftrightarrow> prefix p s"

definition hasSuffix :: "string \<Rightarrow> string \<Rightarrow> bool" where
  "hasSuffix s p \<longleftrightarrow> suffix p s"

fun indexOf :: "string \<Rightarrow> string \<Rightarrow> nat option" where
  "indexOf [] p = (if p = [] then Some 0 else None)"
| "indexOf (c # s) p =
     (if prefix p (c # s) then Some 0 else map_option Suc (indexOf s p))"

definition containsStr :: "string \<Rightarrow> string \<Rightarrow> bool" where
  "containsStr s p \<longleftrightarrow> indexOf s p \<noteq> None"

definition trimLeft :: "string \<Rightarrow> string \<Rightarrow> string" where
  "trimLeft s cutset = dropWhile (\<lambda>c. c \<in> set cutset) s"

lemma indexOf_Some_le: "indexOf s p = Some i \<Longrightarrow> i + length p \<le> length s"
proof (induction s p arbitrary: i rule: indexOf.induct)
  case (1 p)
  then show ?case by (auto split: if_splits)
next
  case (2 c s p)
  then show ?case by (auto split: if_splits dest: prefix_length_le)
qed

lemma indexOf_prefix_drop: "indexOf s p = Some i \<Longrightarrow> prefix p (drop i s)"
  by (induction s p arbitrary: i rule: indexOf.induct) (auto split: if_splits)

lemma containsStr_iff: "containsStr s p \<longleftrightarrow> sublist p s"
  unfolding containsStr_def
  by (induction s p rule: indexOf.induct)
    (auto simp: sublist_Cons_right split: if_splits)

lemma indexOf_append_first:
  assumes "\<not> sublist p (s @ butlast p)" and "p \<noteq> []"
  shows "indexOf (s @ p @ t) p = Some (length s)"
  using assms
proof (induction s)
  case Nil
  have "prefix p (p @ t)" by simp
  with Nil show ?case by (cases "p @ t") auto
next
  case (Cons c s)
  have "\<not> prefix p (c # s @ p @ t)"
  proof
    assume "prefix p (c # s @ p @ t)"
    moreover have "prefix (c # s @ butlast p) (c # s @ p @ t)"
      using Cons.prems(2) by (metis append_Cons append_butlast_last_id append.assoc prefixI)
    moreover have "length p \<le> length (c # s @ butlast p)"
      using Cons.prems(2) by (simp add: Suc_le_eq)
    ultimately have "prefix p (c # s @ butlast p)"
      by (rule prefix_length_prefix)
    then show False
      using Cons.prems(1) by (simp add: prefix_imp_sublist)
  qed
  moreover have "indexOf (s @ p @ t) p = Some (length s)"
    using Cons by (simp add: sublist_Cons_right)
  ultimately show ?case by simp
qed

section \<open>Trimming\<close>

lemma length_trimLeft_le [simp]: "length (trimLeft s cs) \<le> length s"
  by (simp add: trimLeft_def length_dropWhile_le)

lemma trimLeft_idem [simp]: "trimLeft (trimLeft s cs) cs = trimLeft s cs"
  by (simp add: trimLeft_def)

lemma trimLeft_append_cut: "set ws \<subseteq> set cs \<Longrightarrow> trimLeft (ws @ s) cs = trimLeft s cs"
  by (simp add: trimLeft_def dropWhile_append2 subset_iff)

lemma trimLeft_hd: "trimLeft s cs = c # t \<Longrightarrow> c \<notin> set cs"
  unfolding trimLeft_def by (rule dropWhile_hd_not)

lemma trimLeft_Cons_skip: "c \<notin> set cs \<Longrightarrow> trimLeft (c # s) cs = c # s"
  by (simp add: trimLeft_def)

section \<open>Replacement of one byte\<close>

definition replaceChar :: "string \<Rightarrow> char \<Rightarrow> string \<Rightarrow> string" where
  "replaceChar s c r = concat (map (\<lambda>x. if x = c then r else [x]) s)"

lemma replaceChar_simps [simp]:
  "replaceChar [] c r = []"
  "replaceChar (x # s) c r = (if x = c then r @ replaceChar s c r else x # replaceChar s c r)"
  by (simp_all add: replaceChar_def)

lemma replaceChar_absent: "c \<notin> set s \<Longrightarrow> replaceChar s c r = s"
  by (induction s) auto

section \<open>ASCII upper case\<close>

text \<open>\<open>strings.ToUpper\<close> on a token of identifier characters, which is ASCII only.\<close>

definition asciiUpper :: "char \<Rightarrow> char" where
  "asciiUpper c =
     (if byte CHR ''a'' \<le> byte c \<and> byte c \<le> byte CHR ''z''
      then char_of (byte c - (byte CHR ''a'' - byte CHR ''A'')) else c)"

definition isLetter :: "char \<Rightarrow> bool" where
  "isLetter c \<longleftrightarrow>
     byte CHR ''a'' \<le> byte c \<and> byte c \<le> byte CHR ''z'' \<or>
     byte CHR ''A'' \<le> byte c \<and> byte c \<le> byte CHR ''Z''"

lemma byte_asciiUpper:
  "byte (asciiUpper c) = (if 97 \<le> byte c \<and> byte c \<le> 122 then byte c - 32 else byte c)"
  by (auto simp: asciiUpper_def of_char_of)

lemma char_eq_iff_byte: "c = d \<longleftrightarrow> byte c = byte d"
  by simp

lemma asciiUpper_idem [simp]: "asciiUpper (asciiUpper c) = asciiUpper c"
  by (simp only: char_eq_iff_byte byte_asciiUpper) auto

lemma asciiUpper_caseless: "\<not> isLetter d \<Longrightarrow> asciiUpper c = d \<longleftrightarrow> c = d"
  by (simp only: char_eq_iff_byte byte_asciiUpper isLetter_def) auto

lemma asciiUpper_comp [simp]: "asciiUpper \<circ> asciiUpper = asciiUpper"
  by (simp add: fun_eq_iff)

lemma prefix_map_asciiUpper:
  "\<forall>d \<in> set p. \<not> isLetter d \<Longrightarrow> prefix p (map asciiUpper s) \<longleftrightarrow> prefix p s"
proof (induction p arbitrary: s)
  case Nil
  then show ?case by simp
next
  case (Cons d p)
  then show ?case
    by (cases s) (auto simp: asciiUpper_caseless eq_commute [of d])
qed

lemma indexOf_map_asciiUpper:
  "\<forall>d \<in> set p. \<not> isLetter d \<Longrightarrow> indexOf (map asciiUpper s) p = indexOf s p"
proof (induction s)
  case Nil
  then show ?case by simp
next
  case (Cons c s)
  then show ?case
    using prefix_map_asciiUpper [of p "c # s"] by simp
qed

section \<open>Decimal rendering\<close>

text \<open>\<open>%d\<close> of \<open>fmt\<close> and \<open>strconv.Itoa\<close>.\<close>

definition digitChar :: "nat \<Rightarrow> char" where
  "digitChar d = char_of (48 + d)"

fun natDecimal :: "nat \<Rightarrow> string" where
  "natDecimal n = (if n < 10 then [digitChar n] else natDecimal (n div 10) @ [digitChar (n mod 10)])"

declare natDecimal.simps [simp del]

definition intDecimal :: "int \<Rightarrow> string" where
  "intDecimal i = (if i < 0 then CHR ''-'' # natDecimal (nat (- i)) else natDecimal (nat i))"

definition isDigit :: "char \<Rightarrow> bool" where
  "isDigit c \<longleftrightarrow> byte CHR ''0'' \<le> byte c \<and> byte c \<le> byte CHR ''9''"

lemma byte_digitChar: "d < 10 \<Longrightarrow> byte (digitChar d) = 48 + d"
  by (simp add: digitChar_def of_char_of)

lemma isDigit_digitChar: "d < 10 \<Longrightarrow> isDigit (digitChar d)"
  by (simp add: isDigit_def byte_digitChar)

lemma digitChar_inj: "d < 10 \<Longrightarrow> e < 10 \<Longrightarrow> digitChar d = digitChar e \<longleftrightarrow> d = e"
  by (metis add_left_cancel byte_digitChar)

lemma natDecimal_digits: "\<forall>c \<in> set (natDecimal n). isDigit c"
proof (induction n rule: natDecimal.induct)
  case (1 n)
  then show ?case
    by (subst natDecimal.simps) (auto simp: isDigit_digitChar)
qed

lemma natDecimal_not_Nil [simp]: "natDecimal n \<noteq> []"
  by (subst natDecimal.simps) simp

fun decValue :: "nat \<Rightarrow> string \<Rightarrow> nat" where
  "decValue acc [] = acc"
| "decValue acc (c # cs) = decValue (10 * acc + (byte c - 48)) cs"

lemma decValue_append: "decValue acc (s @ t) = decValue (decValue acc s) t"
  by (induction s arbitrary: acc) auto

lemma decValue_natDecimal: "decValue 0 (natDecimal n) = n"
proof (induction n rule: natDecimal.induct)
  case (1 n)
  then show ?case
    by (subst natDecimal.simps) (auto simp: decValue_append byte_digitChar)
qed

lemma natDecimal_inject [simp]: "natDecimal m = natDecimal n \<longleftrightarrow> m = n"
  by (metis decValue_natDecimal)

end
