(* ===== verification/Lexing.thy ===== *)
theory Lexing
  imports GoStrings
begin

text \<open>
  The contract that the two SQL scanners of the repository share: \<open>stripLeading\<close> of
  \<open>classify.go\<close> and \<open>stripLeading\<close> of \<open>mycheck/parse.go\<close> differ only in what opens a line
  comment. The locale states what a stripper does on white space, on a line comment, on a
  block comment and on anything else; its lemmas (the result is a suffix that starts with none of
  these, stripping is idempotent, it commutes with ASCII upper-casing and it skips a prepended
  comment) are proved once and hold for both.
\<close>

abbreviation sqlSpace :: string where
  "sqlSpace \<equiv> [CHR '' '', CHR 0x09, CHR 0x0D, CHR 0x0A]"

abbreviation newline :: char where
  "newline \<equiv> CHR 0x0A"

definition starts_with_space :: "string \<Rightarrow> bool" where
  "starts_with_space q \<longleftrightarrow> (\<exists>c s. q = c # s \<and> c \<in> set sqlSpace)"

lemma starts_with_space_simps [simp]:
  "\<not> starts_with_space []"
  "starts_with_space (c # s) \<longleftrightarrow> c \<in> set sqlSpace"
  by (auto simp: starts_with_space_def)

lemma starts_with_space_upper [simp]:
  "starts_with_space (map asciiUpper q) \<longleftrightarrow> starts_with_space q"
  by (cases q) (auto simp: asciiUpper_caseless isLetter_def)

locale stripper =
  fixes strip :: "string \<Rightarrow> string"
    and line_open :: "string \<Rightarrow> bool"
  assumes strip_space: "c \<in> set sqlSpace \<Longrightarrow> strip (c # q) = strip q"
    and strip_line: "line_open q \<Longrightarrow>
      strip q = (case indexOf q [newline] of None \<Rightarrow> [] | Some i \<Rightarrow> strip (drop (i + 1) q))"
    and strip_block: "hasPrefix q ''/*'' \<Longrightarrow>
      strip q = (case indexOf q ''*/'' of None \<Rightarrow> [] | Some i \<Rightarrow> strip (drop (i + 2) q))"
    and strip_other: "\<not> starts_with_space q \<Longrightarrow> \<not> line_open q \<Longrightarrow> \<not> hasPrefix q ''/*'' \<Longrightarrow>
      strip q = q"
    and line_open_no_space: "line_open q \<Longrightarrow> \<not> starts_with_space q"
    and line_open_Nil: "\<not> line_open []"
    and line_open_upper: "line_open (map asciiUpper q) = line_open q"
begin

lemma strip_Nil: "strip [] = []"
  by (rule strip_other) (simp_all add: line_open_Nil hasPrefix_def)

text \<open>Every call works on a strictly shorter string, so one induction serves all lemmas.\<close>

lemma strip_induct [case_names space line block other]:
  assumes space: "\<And>c q. c \<in> set sqlSpace \<Longrightarrow> P q \<Longrightarrow> P (c # q)"
    and line: "\<And>q. line_open q \<Longrightarrow> (\<And>i. indexOf q [newline] = Some i \<Longrightarrow> P (drop (i + 1) q)) \<Longrightarrow> P q"
    and block: "\<And>q. hasPrefix q ''/*'' \<Longrightarrow> (\<And>i. indexOf q ''*/'' = Some i \<Longrightarrow> P (drop (i + 2) q)) \<Longrightarrow> P q"
    and other: "\<And>q. \<not> starts_with_space q \<Longrightarrow> \<not> line_open q \<Longrightarrow> \<not> hasPrefix q ''/*'' \<Longrightarrow> P q"
  shows "P q"
proof (induction q rule: length_induct)
  case (1 q)
  have shorter: "P (drop (i + n) q)" if "q \<noteq> []" "0 < n" for i n
    using 1 that by simp
  show ?case
  proof (cases "q = []")
    case True
    then show ?thesis by (simp add: other line_open_Nil hasPrefix_def)
  next
    case False
    note short = shorter [OF False]
    consider "starts_with_space q" | "line_open q" | "hasPrefix q ''/*''"
      | "\<not> starts_with_space q" "\<not> line_open q" "\<not> hasPrefix q ''/*''" by blast
    then show ?thesis
    proof cases
      case 1
      then obtain c s where "q = c # s" "c \<in> set sqlSpace"
        by (auto simp only: starts_with_space_def)
      then show ?thesis using short [of 1 0] space [of c s] by simp
    next
      case 2
      then show ?thesis by (rule line) (rule short, simp)
    next
      case 3
      then show ?thesis by (rule block) (rule short, simp)
    next
      case 4
      then show ?thesis by (rule other)
    qed
  qed
qed

definition clean :: "string \<Rightarrow> bool" where
  "clean q \<longleftrightarrow> \<not> starts_with_space q \<and> \<not> line_open q \<and> \<not> hasPrefix q ''/*''"

lemma strip_clean: "clean (strip q)"
proof (induction q rule: strip_induct)
  case (space c q)
  then show ?case by (simp add: strip_space)
next
  case (line q)
  then show ?case
    by (auto simp: strip_line clean_def line_open_Nil hasPrefix_def split: option.split)
next
  case (block q)
  then show ?case
    by (auto simp: strip_block clean_def line_open_Nil hasPrefix_def split: option.split)
next
  case (other q)
  then show ?case by (simp add: strip_other clean_def)
qed

lemma strip_id: "clean q \<Longrightarrow> strip q = q"
  by (simp add: clean_def strip_other)

lemma strip_idem: "strip (strip q) = strip q"
  by (rule strip_id) (rule strip_clean)

lemma strip_suffix: "suffix (strip q) q"
proof (induction q rule: strip_induct)
  case (space c q)
  then show ?case by (simp add: strip_space suffix_ConsI)
next
  case (line q)
  then show ?case
    by (auto simp: strip_line split: option.split intro: suffix_order.trans suffix_drop)
next
  case (block q)
  then show ?case
    by (auto simp: strip_block split: option.split intro: suffix_order.trans suffix_drop)
next
  case (other q)
  then show ?case by (simp add: strip_other)
qed

lemma strip_upper: "strip (map asciiUpper q) = map asciiUpper (strip q)"
proof (induction q rule: strip_induct)
  case (space c q)
  moreover have "asciiUpper c = c"
    using space(1) asciiUpper_caseless [of c c] by (auto simp: isLetter_def)
  ultimately show ?case by (simp add: strip_space)
next
  case (line q)
  then show ?case
    by (auto simp: strip_line line_open_upper indexOf_map_asciiUpper isLetter_def drop_map
        split: option.split)
next
  case (block q)
  moreover have "hasPrefix (map asciiUpper q) ''/*''"
    using block(1) by (simp add: hasPrefix_def prefix_map_asciiUpper isLetter_def)
  ultimately show ?case
    by (auto simp: strip_block indexOf_map_asciiUpper isLetter_def drop_map split: option.split)
next
  case (other q)
  then have "\<not> hasPrefix (map asciiUpper q) ''/*''"
    by (simp add: hasPrefix_def prefix_map_asciiUpper isLetter_def)
  with other show ?case by (simp add: strip_other line_open_upper)
qed

text \<open>A prepended piece of white space or comment is skipped.\<close>

lemma strip_skip_spaces: "set ws \<subseteq> set sqlSpace \<Longrightarrow> strip (ws @ q) = strip q"
  by (induction ws) (simp_all add: strip_space)

lemma strip_skip_line:
  assumes "line_open (s @ newline # q)" and "newline \<notin> set s"
  shows "strip (s @ newline # q) = strip q"
proof -
  have "indexOf (s @ [newline] @ q) [newline] = Some (length s)"
    using assms(2) by (intro indexOf_append_first) (auto simp: sublist_def)
  with assms(1) show ?thesis by (simp add: strip_line)
qed

lemma strip_skip_block:
  assumes "\<not> sublist ''*/'' (''/*'' @ s @ ''*'')"
  shows "strip (''/*'' @ s @ ''*/'' @ q) = strip q"
proof -
  have "indexOf ((''/*'' @ s) @ ''*/'' @ q) ''*/'' = Some (length (''/*'' @ s))"
    using assms by (intro indexOf_append_first) auto
  then show ?thesis
    by (subst strip_block) (simp_all add: hasPrefix_def)
qed

end

end
