(* ===== verification/Classify.thy ===== *)
theory Classify
  imports Lexing
begin

text \<open>
  \<open>classify.go\<close>: the statement kinds and \<open>DefaultClassifier\<close>, with its comment stripper, its
  tokenizer and the scan for write keywords of data-modifying CTEs. The stack buffer the code
  upper-cases tokens into is an explicit byte list here, reused from token to token as in the code.

  The lemmas show that the buffered scan computes the plain specification (upper-case the
  whole token, compare), that classification ignores letter case and leading comments, and where
  the heuristic departs from SQL.
\<close>

section \<open>Statement kinds\<close>

datatype StatementKind = KindOther | KindRead | KindWrite | KindBegin | KindCommit | KindRollback

text \<open>The constants are declared with \<open>iota\<close>, so they are ordered as they are listed.\<close>

fun kindIota :: "StatementKind \<Rightarrow> nat" where
  "kindIota KindOther = 0"
| "kindIota KindRead = 1"
| "kindIota KindWrite = 2"
| "kindIota KindBegin = 3"
| "kindIota KindCommit = 4"
| "kindIota KindRollback = 5"

lemma kindIota_inject [simp]: "kindIota k = kindIota l \<longleftrightarrow> k = l"
  by (cases k; cases l) simp_all

instantiation StatementKind :: linorder
begin

definition less_eq_StatementKind :: "StatementKind \<Rightarrow> StatementKind \<Rightarrow> bool" where
  "k \<le> l \<longleftrightarrow> kindIota k \<le> kindIota l"

definition less_StatementKind :: "StatementKind \<Rightarrow> StatementKind \<Rightarrow> bool" where
  "k < l \<longleftrightarrow> kindIota k < kindIota l"

instance
  by standard (auto simp: less_eq_StatementKind_def less_StatementKind_def)

end

fun kindString :: "StatementKind \<Rightarrow> string" where
  "kindString KindRead = ''read''"
| "kindString KindWrite = ''write''"
| "kindString KindBegin = ''begin''"
| "kindString KindCommit = ''commit''"
| "kindString KindRollback = ''rollback''"
| "kindString KindOther = ''other''"

lemma kindString_inject: "kindString k = kindString l \<longleftrightarrow> k = l"
  by (cases k; cases l) simp_all

section \<open>Tokens\<close>

definition isIdentChar :: "char \<Rightarrow> bool" where
  "isIdentChar c \<longleftrightarrow>
     byte CHR ''a'' \<le> byte c \<and> byte c \<le> byte CHR ''z'' \<or>
     byte CHR ''A'' \<le> byte c \<and> byte c \<le> byte CHR ''Z'' \<or>
     byte CHR ''0'' \<le> byte c \<and> byte c \<le> byte CHR ''9'' \<or> c = CHR ''_''"

lemma drop_trimLeft_shorter:
  assumes "hasPrefix (trimLeft q cs) p" and "p \<noteq> []" and "0 < n"
  shows "length (drop (i + n) (trimLeft q cs)) < length q"
proof -
  from assms(1,2) have "0 < length (trimLeft q cs)"
    by (auto simp: hasPrefix_def)
  with length_trimLeft_le [of q cs] assms(3) show ?thesis
    by (simp only: length_drop)
qed

text \<open>The loop of \<open>stripLeading\<close> as a recursion: white space, then one comment, then again.\<close>

function stripLeading :: "string \<Rightarrow> string" where
  "stripLeading q0 =
     (let q = trimLeft q0 sqlSpace in
      if hasPrefix q ''--'' then
        (case indexOf q [newline] of None \<Rightarrow> [] | Some idx \<Rightarrow> stripLeading (drop (idx + 1) q))
      else if hasPrefix q ''/*'' then
        (case indexOf q ''*/'' of None \<Rightarrow> [] | Some idx \<Rightarrow> stripLeading (drop (idx + 2) q))
      else q)"
  by pat_completeness auto

termination
  by (relation "measure length") (auto dest: drop_trimLeft_shorter simp flip: length_drop)

declare stripLeading.simps [simp del]

text \<open>The same loop with no reason given why it ends: \<open>for { ... }\<close> with its early returns.\<close>

partial_function (option) stripLoop :: "string \<Rightarrow> string option" where
  "stripLoop q0 =
     (let q = trimLeft q0 sqlSpace in
      if hasPrefix q ''--'' then
        (case indexOf q [newline] of None \<Rightarrow> Some [] | Some idx \<Rightarrow> stripLoop (drop (idx + 1) q))
      else if hasPrefix q ''/*'' then
        (case indexOf q ''*/'' of None \<Rightarrow> Some [] | Some idx \<Rightarrow> stripLoop (drop (idx + 2) q))
      else Some q)"

lemma stripLoop_returns: "stripLoop q = Some (stripLeading q)"
proof (induction q rule: stripLeading.induct)
  case (1 q)
  then show ?case
    by (subst stripLeading.simps, subst stripLoop.simps) (simp add: Let_def split: option.split)
qed

text \<open>The sub-slice returned by the token loop is the longest prefix of identifier characters.\<close>

definition leadingToken :: "string \<Rightarrow> string" where
  "leadingToken q = takeWhile isIdentChar (stripLeading q)"

definition maxKeywordLen :: nat where
  "maxKeywordLen = 8"

text \<open>\<open>upperInto tok i buf\<close> is the copy loop from index \<open>i\<close> on; \<open>asciiUpperToken\<close> returns the
  buffer after the call, the byte count and \<open>ok\<close>.\<close>

fun upperInto :: "string \<Rightarrow> nat \<Rightarrow> string \<Rightarrow> string" where
  "upperInto [] i buf = buf"
| "upperInto (c # tok) i buf = upperInto tok (Suc i) (buf[i := asciiUpper c])"

definition asciiUpperToken :: "string \<Rightarrow> string \<Rightarrow> string \<times> nat \<times> bool" where
  "asciiUpperToken tok buf =
     (if length tok > length buf then (buf, 0, False)
      else (upperInto tok 0 buf, length tok, True))"

definition zeroBuf :: string where
  "zeroBuf = replicate maxKeywordLen (CHR 0x00)"

definition secondTokenIsTo :: "string \<Rightarrow> bool" where
  "secondTokenIsTo q0 =
     (let q = stripLeading q0;
          rest = stripLeading (dropWhile isIdentChar q);
          tok = takeWhile isIdentChar rest
      in length tok = 2 \<and>
         (tok ! 0 = CHR ''T'' \<or> tok ! 0 = CHR ''t'') \<and>
         (tok ! 1 = CHR ''O'' \<or> tok ! 1 = CHR ''o''))"

section \<open>The scan for write keywords\<close>

definition cteWriteKeywords :: "string list" where
  "cteWriteKeywords = [''INSERT'', ''UPDATE'', ''DELETE'', ''MERGE'', ''TRUNCATE'', ''REPLACE'']"

text \<open>
  The loop \<open>for i := 0; i <= len(q); i++\<close> with its variables: the index, \<open>start\<close> (\<open>None\<close> for
  -1) and the shared buffer.
\<close>

function scanWriteToken :: "string \<Rightarrow> nat \<Rightarrow> nat option \<Rightarrow> string \<Rightarrow> bool" where
  "scanWriteToken q i start buf =
     (if i \<le> length q then
        if i < length q \<and> isIdentChar (q ! i) then
          scanWriteToken q (Suc i) (case start of None \<Rightarrow> Some i | Some s \<Rightarrow> Some s) buf
        else
          (case start of
             None \<Rightarrow> scanWriteToken q (Suc i) None buf
           | Some s \<Rightarrow>
               let (buf', n, ok) = asciiUpperToken (take (i - s) (drop s q)) buf in
               if ok \<and> take n buf' \<in> set cteWriteKeywords then True
               else scanWriteToken q (Suc i) None buf')
      else False)"
  by pat_completeness auto
termination
  by (relation "measure (\<lambda>(q, i, start, buf). Suc (length q) - i)") auto

declare scanWriteToken.simps [simp del]

definition containsWriteToken :: "string \<Rightarrow> bool" where
  "containsWriteToken q = scanWriteToken q 0 None zeroBuf"

section \<open>The classifier\<close>

definition readKeywords :: "string list" where
  "readKeywords = [''SELECT'', ''SHOW'', ''EXPLAIN'', ''VALUES'', ''TABLE'', ''FETCH'', ''DECLARE'']"

definition writeKeywords :: "string list" where
  "writeKeywords =
     [''INSERT'', ''UPDATE'', ''DELETE'', ''MERGE'', ''TRUNCATE'', ''REPLACE'', ''UPSERT'',
      ''COPY'', ''IMPORT'', ''CREATE'', ''ALTER'', ''DROP'', ''GRANT'', ''REVOKE'', ''COMMENT'',
      ''REFRESH'', ''CALL'', ''DO'']"

definition DefaultClassifier :: "string \<Rightarrow> StatementKind" where
  "DefaultClassifier query =
     (let (buf, n, ok) = asciiUpperToken (leadingToken query) zeroBuf;
          tok = take n buf
      in if \<not> ok then KindOther
         else if tok \<in> set readKeywords then KindRead
         else if tok \<in> set writeKeywords then KindWrite
         else if tok \<in> {''BEGIN'', ''START''} then KindBegin
         else if tok \<in> {''COMMIT'', ''END''} then KindCommit
         else if tok \<in> {''ROLLBACK'', ''ABORT''} then
           (if secondTokenIsTo query then KindOther else KindRollback)
         else if tok = ''WITH'' then (if containsWriteToken query then KindWrite else KindRead)
         else KindOther)"

section \<open>The stripper meets the shared contract\<close>

lemma trimLeft_no_space: "\<not> starts_with_space q \<Longrightarrow> trimLeft q sqlSpace = q"
  by (cases q) (auto simp: trimLeft_def)

interpretation root: stripper stripLeading "\<lambda>q. hasPrefix q ''--''"
proof unfold_locales
  fix c q
  assume "c \<in> set sqlSpace"
  then show "stripLeading (c # q) = stripLeading q"
    by (subst (1 2) stripLeading.simps) (simp only: trimLeft_def dropWhile.simps if_True)
next
  fix q :: string
  assume "hasPrefix q ''--''"
  moreover from this have "trimLeft q sqlSpace = q"
    by (intro trimLeft_no_space) (auto simp: hasPrefix_def prefix_def)
  ultimately show "stripLeading q = (case indexOf q [newline] of None \<Rightarrow> []
      | Some i \<Rightarrow> stripLeading (drop (i + 1) q))"
    by (subst stripLeading.simps) simp
next
  fix q :: string
  assume "hasPrefix q ''/*''"
  moreover from this have "trimLeft q sqlSpace = q" "\<not> hasPrefix q ''--''"
    by (auto intro!: trimLeft_no_space simp: hasPrefix_def prefix_def)
  ultimately show "stripLeading q = (case indexOf q ''*/'' of None \<Rightarrow> []
      | Some i \<Rightarrow> stripLeading (drop (i + 2) q))"
    by (subst stripLeading.simps) simp
next
  fix q :: string
  assume "\<not> starts_with_space q" "\<not> hasPrefix q ''--''" "\<not> hasPrefix q ''/*''"
  then show "stripLeading q = q"
    by (subst stripLeading.simps) (simp add: trimLeft_no_space)
next
  fix q :: string
  show "hasPrefix q ''--'' \<Longrightarrow> \<not> starts_with_space q"
    by (auto simp: hasPrefix_def prefix_def)
  show "hasPrefix (map asciiUpper q) ''--'' = hasPrefix q ''--''"
    by (simp add: hasPrefix_def prefix_map_asciiUpper isLetter_def)
qed (simp add: hasPrefix_def)

section \<open>The buffered upper-casing\<close>

lemma length_upperInto [simp]: "length (upperInto tok i buf) = length buf"
  by (induction tok i buf rule: upperInto.induct) simp_all

lemma take_upperInto:
  "i + length tok \<le> length buf \<Longrightarrow>
    take (i + length tok) (upperInto tok i buf) = take i buf @ map asciiUpper tok"
proof (induction tok i buf rule: upperInto.induct)
  case (2 c tok i buf)
  then have "take (Suc i + length tok) (upperInto tok (Suc i) (buf[i := asciiUpper c]))
      = take (Suc i) (buf[i := asciiUpper c]) @ map asciiUpper tok"
    by simp
  with 2(2) show ?case by (simp add: take_Suc_conv_app_nth)
qed simp

lemma asciiUpperToken_fits:
  assumes "length tok \<le> length buf"
  obtains buf' where "asciiUpperToken tok buf = (buf', length tok, True)"
    and "length buf' = length buf" and "take (length tok) buf' = map asciiUpper tok"
  using assms take_upperInto [of 0 tok buf] that [of "upperInto tok 0 buf"]
  by (simp add: asciiUpperToken_def)

lemma asciiUpperToken_too_long:
  "length buf < length tok \<Longrightarrow> asciiUpperToken tok buf = (buf, 0, False)"
  by (simp add: asciiUpperToken_def)

text \<open>With a buffer of eight bytes, comparing the buffered token against keywords of at most
  eight bytes is comparing the whole upper-cased token.\<close>

lemma asciiUpperToken_matches:
  assumes "\<forall>k \<in> K. length k \<le> length buf" and "asciiUpperToken tok buf = (buf', n, ok)"
  shows "ok \<and> take n buf' \<in> K \<longleftrightarrow> map asciiUpper tok \<in> K"
    and "length buf' = length buf"
proof -
  show "ok \<and> take n buf' \<in> K \<longleftrightarrow> map asciiUpper tok \<in> K"
    using assms by (cases "length tok \<le> length buf")
      (auto simp: asciiUpperToken_too_long elim!: asciiUpperToken_fits [of tok buf])
  show "length buf' = length buf"
    using assms(2) by (auto simp: asciiUpperToken_def split: if_splits)
qed

section \<open>Standalone tokens\<close>

text \<open>\<open>t\<close> is a standalone token of \<open>q\<close>: a maximal run of identifier characters.\<close>

definition standaloneToken :: "string \<Rightarrow> string \<Rightarrow> bool" where
  "standaloneToken t q \<longleftrightarrow>
     (\<exists>a b. q = a @ t @ b \<and> t \<noteq> [] \<and> list_all isIdentChar t \<and>
            (a = [] \<or> \<not> isIdentChar (last a)) \<and> (b = [] \<or> \<not> isIdentChar (hd b)))"

text \<open>The tokens of \<open>acc @ q\<close>, where \<open>acc\<close> is the run being read.\<close>

fun tokensFrom :: "string \<Rightarrow> string \<Rightarrow> string list" where
  "tokensFrom acc [] = (if acc = [] then [] else [acc])"
| "tokensFrom acc (c # q) =
     (if isIdentChar c then tokensFrom (acc @ [c]) q
      else if acc = [] then tokensFrom [] q else acc # tokensFrom [] q)"

lemma standaloneToken_ident:
  assumes "list_all isIdentChar q"
  shows "standaloneToken t q \<longleftrightarrow> t = q \<and> q \<noteq> []"
proof
  assume "standaloneToken t q"
  then obtain a b where ab: "q = a @ t @ b" "t \<noteq> []"
      "a = [] \<or> \<not> isIdentChar (last a)" "b = [] \<or> \<not> isIdentChar (hd b)"
    by (auto simp: standaloneToken_def)
  with assms have "a = []" "b = []"
    by (metis last_in_set list_all_iff Un_iff set_append,
        metis hd_in_set list_all_iff Un_iff set_append)
  with ab show "t = q \<and> q \<noteq> []" by simp
next
  assume "t = q \<and> q \<noteq> []"
  with assms show "standaloneToken t q"
    by (auto simp: standaloneToken_def intro!: exI [of _ "[]"])
qed

lemma standaloneToken_split:
  assumes "\<not> isIdentChar c"
  shows "standaloneToken t (x @ c # y) \<longleftrightarrow> standaloneToken t x \<or> standaloneToken t y"
proof
  assume "standaloneToken t (x @ c # y)"
  then obtain a b where ab: "x @ c # y = a @ t @ b" "t \<noteq> []" "list_all isIdentChar t"
      "a = [] \<or> \<not> isIdentChar (last a)" "b = [] \<or> \<not> isIdentChar (hd b)"
    by (auto simp: standaloneToken_def)
  from ab(3) assms have "c \<notin> set t" by (auto simp: list_all_iff)
  with ab(1,2) consider a' where "a = x @ c # a'" "y = a' @ t @ b"
    | b' where "x = a @ t @ b'" "b = b' @ c # y"
    by (auto simp: append_eq_append_conv2 append_eq_Cons_conv Cons_eq_append_conv)
  then show "standaloneToken t x \<or> standaloneToken t y"
  proof cases
    case 1
    then have "standaloneToken t y"
      using ab(2-5) unfolding standaloneToken_def by (intro exI [of _ a'] exI [of _ b]) auto
    then show ?thesis ..
  next
    case 2
    then have "standaloneToken t x"
      using ab(2-5) unfolding standaloneToken_def
      by (intro exI [of _ a] exI [of _ b']) (auto simp: hd_append split: if_splits)
    then show ?thesis ..
  qed
next
  assume "standaloneToken t x \<or> standaloneToken t y"
  then show "standaloneToken t (x @ c # y)"
  proof
    assume "standaloneToken t x"
    then obtain a b where "x = a @ t @ b" "t \<noteq> []" "list_all isIdentChar t"
        "a = [] \<or> \<not> isIdentChar (last a)" "b = [] \<or> \<not> isIdentChar (hd b)"
      by (auto simp: standaloneToken_def)
    then show ?thesis
      using assms unfolding standaloneToken_def
      by (intro exI [of _ a] exI [of _ "b @ c # y"]) (auto simp: hd_append)
  next
    assume "standaloneToken t y"
    then obtain a b where "y = a @ t @ b" "t \<noteq> []" "list_all isIdentChar t"
        "a = [] \<or> \<not> isIdentChar (last a)" "b = [] \<or> \<not> isIdentChar (hd b)"
      by (auto simp: standaloneToken_def)
    then show ?thesis
      using assms unfolding standaloneToken_def
      by (intro exI [of _ "x @ c # a"] exI [of _ b]) auto
  qed
qed

lemma set_tokensFrom:
  "list_all isIdentChar acc \<Longrightarrow> t \<in> set (tokensFrom acc q) \<longleftrightarrow> standaloneToken t (acc @ q)"
proof (induction acc q rule: tokensFrom.induct)
  case (1 acc)
  then show ?case using standaloneToken_ident [of acc t] by auto
next
  case (2 acc c q)
  show ?case
  proof (cases "isIdentChar c")
    case True
    with 2 show ?thesis by simp
  next
    case False
    have "standaloneToken t acc \<longleftrightarrow> t = acc \<and> acc \<noteq> []"
      using 2(4) by (rule standaloneToken_ident)
    with standaloneToken_split [OF False, of t acc q] False 2(2,3) show ?thesis
      by (cases "acc = []") auto
  qed
qed

text \<open>The index-and-start loop of the code reads exactly these tokens.\<close>

definition pendingToken :: "string \<Rightarrow> nat \<Rightarrow> nat option \<Rightarrow> string" where
  "pendingToken q i start = (case start of None \<Rightarrow> [] | Some s \<Rightarrow> take (i - s) (drop s q))"

lemma pendingToken_None [simp]: "pendingToken q i None = []"
  by (simp add: pendingToken_def)

lemma pendingToken_step:
  assumes "i < length q" and "\<And>s. start = Some s \<Longrightarrow> s < i"
  shows "pendingToken q (Suc i) (case start of None \<Rightarrow> Some i | Some s \<Rightarrow> Some s)
      = pendingToken q i start @ [q ! i]"
proof (cases start)
  case None
  with assms(1) show ?thesis by (simp add: pendingToken_def Cons_nth_drop_Suc [symmetric])
next
  case (Some s)
  with assms have "Suc i - s = Suc (i - s)" "i - s < length (drop s q)" by auto
  with Some assms show ?thesis
    by (simp add: pendingToken_def take_Suc_conv_app_nth)
qed

lemma cteWriteKeywords_short: "\<forall>k \<in> set cteWriteKeywords. length k \<le> maxKeywordLen"
  by (simp add: cteWriteKeywords_def maxKeywordLen_def)

lemma scanWriteToken_tokens:
  assumes "i \<le> length q" and "\<And>s. start = Some s \<Longrightarrow> s < i" and "length buf = maxKeywordLen"
  shows "scanWriteToken q i start buf \<longleftrightarrow>
    (\<exists>t \<in> set (tokensFrom (pendingToken q i start) (drop i q)).
       map asciiUpper t \<in> set cteWriteKeywords)"
  using assms
proof (induction "length q - i" arbitrary: i start buf rule: less_induct)
  case less
  let ?hit = "\<lambda>ts. \<exists>t \<in> set ts. map asciiUpper t \<in> set cteWriteKeywords"
  have next_None: "scanWriteToken q (Suc i) None b = ?hit (tokensFrom [] (drop (Suc i) q))"
    if "length b = maxKeywordLen" for b
  proof (cases "i < length q")
    case True
    with less(1) [of "Suc i" None b] that show ?thesis by simp
  next
    case False
    then show ?thesis by (subst scanWriteToken.simps) simp
  qed
  show ?case
  proof (cases "i < length q \<and> isIdentChar (q ! i)")
    case True
    let ?start = "case start of None \<Rightarrow> Some i | Some s \<Rightarrow> Some s"
    have "scanWriteToken q (Suc i) ?start buf
        = ?hit (tokensFrom (pendingToken q (Suc i) ?start) (drop (Suc i) q))"
    proof (rule less(1))
      show "s < Suc i" if "?start = Some s" for s
        using that less(3) by (auto split: option.splits simp: less_Suc_eq)
    qed (use True less(4) in auto)
    also have "pendingToken q (Suc i) ?start = pendingToken q i start @ [q ! i]"
      using True less(3) by (intro pendingToken_step) auto
    finally show ?thesis
      using True by (subst scanWriteToken.simps) (simp flip: Cons_nth_drop_Suc)
  next
    case False
    have drop_q: "drop i q = [] \<or> (\<exists>c. \<not> isIdentChar c \<and> drop i q = c # drop (Suc i) q)"
      using False by (auto simp flip: Cons_nth_drop_Suc)
    show ?thesis
    proof (cases start)
      case None
      then show ?thesis
        using False less(2) drop_q next_None [OF less(4)]
        by (subst scanWriteToken.simps) auto
    next
      case (Some s)
      let ?tok = "pendingToken q i start"
      have "?tok \<noteq> []"
        using Some less(2,3) by (auto simp: pendingToken_def)
      obtain buf' n ok where up: "asciiUpperToken ?tok buf = (buf', n, ok)"
        by (cases "asciiUpperToken ?tok buf") auto
      have hit: "ok \<and> take n buf' \<in> set cteWriteKeywords
          \<longleftrightarrow> map asciiUpper ?tok \<in> set cteWriteKeywords"
        and len: "length buf' = maxKeywordLen"
        using asciiUpperToken_matches [OF _ up] cteWriteKeywords_short less(4) by auto
      have "scanWriteToken q i start buf
          \<longleftrightarrow> map asciiUpper ?tok \<in> set cteWriteKeywords \<or> scanWriteToken q (Suc i) None buf'"
        using False less(2) Some up hit
        by (subst scanWriteToken.simps) (auto simp: pendingToken_def)
      with next_None [OF len] drop_q \<open>?tok \<noteq> []\<close> show ?thesis by auto
    qed
  qed
qed

lemma containsWriteToken_standalone:
  "containsWriteToken q \<longleftrightarrow>
     (\<exists>t. standaloneToken t q \<and> map asciiUpper t \<in> set cteWriteKeywords)"
  using scanWriteToken_tokens [of 0 q None zeroBuf] set_tokensFrom [of "[]" _ q]
  by (auto simp: containsWriteToken_def zeroBuf_def)

section \<open>Letter case\<close>

lemma isIdentChar_upper [simp]: "isIdentChar (asciiUpper c) \<longleftrightarrow> isIdentChar c"
proof -
  have "asciiUpper c = CHR ''_'' \<longleftrightarrow> c = CHR ''_''"
    by (rule asciiUpper_caseless) (simp add: isLetter_def)
  then show ?thesis
    by (auto simp: isIdentChar_def byte_asciiUpper)
qed

lemma takeWhile_ident_upper:
  "takeWhile isIdentChar (map asciiUpper q) = map asciiUpper (takeWhile isIdentChar q)"
  by (simp add: takeWhile_map comp_def)

lemma dropWhile_ident_upper:
  "dropWhile isIdentChar (map asciiUpper q) = map asciiUpper (dropWhile isIdentChar q)"
  by (simp add: dropWhile_map comp_def)

lemma leadingToken_upper: "leadingToken (map asciiUpper q) = map asciiUpper (leadingToken q)"
  by (simp add: leadingToken_def root.strip_upper takeWhile_ident_upper)

lemma tokensFrom_upper:
  "tokensFrom (map asciiUpper acc) (map asciiUpper q) = map (map asciiUpper) (tokensFrom acc q)"
proof (induction acc q rule: tokensFrom.induct)
  case (2 acc c q)
  then show ?case by (cases "isIdentChar c"; cases "acc = []") auto
qed simp

lemma containsWriteToken_tokens:
  "containsWriteToken q \<longleftrightarrow> (\<exists>t \<in> set (tokensFrom [] q). map asciiUpper t \<in> set cteWriteKeywords)"
  by (simp add: containsWriteToken_standalone set_tokensFrom [of "[]" _ q, simplified] Bex_def)

lemma containsWriteToken_upper: "containsWriteToken (map asciiUpper q) = containsWriteToken q"
  using tokensFrom_upper [of "[]" q] by (simp add: containsWriteToken_tokens)

section \<open>The plain specification\<close>

text \<open>The token after the leading one.\<close>

definition followingToken :: "string \<Rightarrow> string" where
  "followingToken q = takeWhile isIdentChar (stripLeading (dropWhile isIdentChar (stripLeading q)))"

text \<open>Classification without buffers: upper-case the leading token, whatever its length, compare
  it, and look for standalone write keywords after \<open>WITH\<close>.\<close>

definition classifySpec :: "string \<Rightarrow> StatementKind" where
  "classifySpec q =
     (let tok = map asciiUpper (leadingToken q) in
      if tok \<in> set readKeywords then KindRead
      else if tok \<in> set writeKeywords then KindWrite
      else if tok \<in> {''BEGIN'', ''START''} then KindBegin
      else if tok \<in> {''COMMIT'', ''END''} then KindCommit
      else if tok \<in> {''ROLLBACK'', ''ABORT''} then
        (if map asciiUpper (followingToken q) = ''TO'' then KindOther else KindRollback)
      else if tok = ''WITH'' then
        (if \<exists>t. standaloneToken t q \<and> map asciiUpper t \<in> set cteWriteKeywords
         then KindWrite else KindRead)
      else KindOther)"

lemma asciiUpper_eq_T: "asciiUpper c = CHR ''T'' \<longleftrightarrow> c = CHR ''T'' \<or> c = CHR ''t''"
  and asciiUpper_eq_O: "asciiUpper c = CHR ''O'' \<longleftrightarrow> c = CHR ''O'' \<or> c = CHR ''o''"
  by (simp_all only: char_eq_iff_byte byte_asciiUpper) auto

lemma secondTokenIsTo_iff: "secondTokenIsTo q \<longleftrightarrow> map asciiUpper (followingToken q) = ''TO''"
proof -
  have two: "length tok = 2 \<and> (tok ! 0 = CHR ''T'' \<or> tok ! 0 = CHR ''t'') \<and>
      (tok ! 1 = CHR ''O'' \<or> tok ! 1 = CHR ''o'') \<longleftrightarrow> map asciiUpper tok = ''TO''" for tok
    by (auto simp: length_Suc_conv numeral_2_eq_2 asciiUpper_eq_T asciiUpper_eq_O map_eq_Cons_conv)
  show ?thesis
    unfolding secondTokenIsTo_def followingToken_def Let_def by (rule two)
qed

lemma keywords_short:
  "\<forall>k \<in> set readKeywords \<union> set writeKeywords \<union>
     {''BEGIN'', ''START'', ''COMMIT'', ''END'', ''ROLLBACK'', ''ABORT'', ''WITH''}.
   length k \<le> maxKeywordLen"
  by (simp add: readKeywords_def writeKeywords_def maxKeywordLen_def)

lemma DefaultClassifier_classifySpec: "DefaultClassifier q = classifySpec q"
proof (cases "length (leadingToken q) \<le> maxKeywordLen")
  case True
  then obtain buf where "asciiUpperToken (leadingToken q) zeroBuf
        = (buf, length (leadingToken q), True)"
      and "take (length (leadingToken q)) buf = map asciiUpper (leadingToken q)"
    using asciiUpperToken_fits [of "leadingToken q" zeroBuf] by (auto simp: zeroBuf_def)
  then show ?thesis
    by (simp add: DefaultClassifier_def classifySpec_def Let_def secondTokenIsTo_iff
        containsWriteToken_standalone)
next
  case False
  let ?tok = "map asciiUpper (leadingToken q)"
  have "?tok \<notin> K" if "\<forall>k \<in> K. length k \<le> maxKeywordLen" for K
    using False that by auto
  from this [OF keywords_short] have "classifySpec q = KindOther"
    by (simp add: classifySpec_def Let_def)
  with False show ?thesis
    by (simp add: DefaultClassifier_def asciiUpperToken_too_long zeroBuf_def)
qed

lemma followingToken_upper: "followingToken (map asciiUpper q) = map asciiUpper (followingToken q)"
  by (simp add: followingToken_def root.strip_upper takeWhile_ident_upper dropWhile_ident_upper)

section \<open>Leading white space and comments\<close>

text \<open>One skippable piece: a white-space byte, a line comment with its newline, or a block
  comment that ends at the first \<open>*/\<close> after its opening.\<close>

definition leadingPiece :: "string \<Rightarrow> bool" where
  "leadingPiece p \<longleftrightarrow>
     (\<exists>c. p = [c] \<and> c \<in> set sqlSpace) \<or>
     (\<exists>s. p = ''--'' @ s @ [newline] \<and> newline \<notin> set s) \<or>
     (\<exists>s. p = ''/*'' @ s @ ''*/'' \<and> \<not> sublist ''*/'' (''/*'' @ s @ ''*''))"

lemma stripLeading_piece:
  assumes "leadingPiece p"
  shows "stripLeading (p @ q) = stripLeading q"
  using assms unfolding leadingPiece_def
proof (elim disjE exE conjE)
  fix c
  assume "p = [c]" "c \<in> set sqlSpace"
  then show ?thesis using root.strip_space [of c q] by simp
next
  fix s
  assume "p = ''--'' @ s @ [newline]" "newline \<notin> set s"
  then show ?thesis
    using root.strip_skip_line [of "''--'' @ s" q] by (simp add: hasPrefix_def)
next
  fix s
  assume "p = ''/*'' @ s @ ''*/''" "\<not> sublist ''*/'' (''/*'' @ s @ ''*'')"
  then show ?thesis
    using root.strip_skip_block [of s q] by simp
qed

lemma stripLeading_pieces:
  "list_all leadingPiece ps \<Longrightarrow> stripLeading (concat ps @ q) = stripLeading q"
  by (induction ps) (simp_all add: stripLeading_piece)

section \<open>Properties\<close>

text \<open>C22. The allocation-free classifier (leading token upper-cased into an eight-byte buffer,
  tokens longer than the buffer rejected) returns what the plain specification returns, for
  every query.\<close>

theorem classifier_meets_spec: "DefaultClassifier q = classifySpec q"
  by (rule DefaultClassifier_classifySpec)

text \<open>The scan of a \<open>WITH\<close> statement answers true exactly when some maximal run of identifier
  characters of the query is, up to letter case, one of the six write keywords.\<close>

lemma cte_scan_finds_exactly_write_tokens:
  "containsWriteToken q \<longleftrightarrow>
     (\<exists>t. standaloneToken t q \<and> map asciiUpper t \<in> set cteWriteKeywords)"
  by (rule containsWriteToken_standalone)

text \<open>Classification does not depend on letter case: upper-casing the whole query, comments
  and literals included, never changes the verdict.\<close>

lemma classifier_ignores_letter_case:
  "DefaultClassifier (map asciiUpper q) = DefaultClassifier q"
  by (simp only: DefaultClassifier_classifySpec classifySpec_def leadingToken_upper
      followingToken_upper list.map_comp asciiUpper_comp containsWriteToken_upper
      flip: containsWriteToken_standalone)

text \<open>C38. Leading white space, line comments and block comments are skipped, except that after
  \<open>WITH\<close> the keyword scan reads the comments too: a write keyword in a leading comment turns a
  read-only \<open>WITH\<close> statement into a write.\<close>

theorem classifier_skips_leading_comments:
  assumes "list_all leadingPiece ps"
  shows "DefaultClassifier (concat ps @ q) =
    (if map asciiUpper (leadingToken q) = ''WITH''
     then if containsWriteToken (concat ps @ q) then KindWrite else KindRead
     else DefaultClassifier q)"
proof -
  have "leadingToken (concat ps @ q) = leadingToken q"
    and "followingToken (concat ps @ q) = followingToken q"
    using assms by (simp_all add: leadingToken_def followingToken_def stripLeading_pieces)
  then show ?thesis
    by (simp add: DefaultClassifier_classifySpec classifySpec_def readKeywords_def
        writeKeywords_def Let_def flip: containsWriteToken_standalone)
qed

theorem classifier_skips_leading_comments_witness:
  "DefaultClassifier ''/* insert */ WITH a AS (SELECT 1) SELECT 1'' = KindWrite \<and>
   DefaultClassifier ''WITH a AS (SELECT 1) SELECT 1'' = KindRead"
proof -
  have piece: "list_all leadingPiece [''/* insert */'', '' '']"
    by (auto simp: leadingPiece_def sublist_Cons_right intro!: exI [of _ "'' insert ''"])
  have "map asciiUpper (leadingToken ''WITH a AS (SELECT 1) SELECT 1'') = ''WITH''"
    by code_simp
  moreover have "containsWriteToken ''/* insert */ WITH a AS (SELECT 1) SELECT 1''"
    by code_simp
  moreover have "DefaultClassifier ''WITH a AS (SELECT 1) SELECT 1'' = KindRead"
    by code_simp
  ultimately show ?thesis
    using classifier_skips_leading_comments [OF piece, of "''WITH a AS (SELECT 1) SELECT 1''"]
    by simp
qed

text \<open>\<open>/*/\<close> is taken for a whole comment, because the search for \<open>*/\<close> starts at the comment's
  own \<open>/*\<close>: what follows it is classified although SQL still reads it as comment text.\<close>

lemma slash_star_slash_is_a_whole_comment: "stripLeading (''/*/'' @ q) = stripLeading q"
proof -
  have "indexOf (''/*/'' @ q) ''*/'' = Some 1" by simp
  then show ?thesis
    using root.strip_block [of "''/*/'' @ q"] by (simp add: hasPrefix_def)
qed

text \<open>\<open>ROLLBACK WORK TO SAVEPOINT\<close> (as \<open>ROLLBACK TRANSACTION TO\<close>) is classified as the end
  of the transaction, although it only returns to a savepoint: the test for \<open>TO\<close> looks at the
  second token only.\<close>

lemma rollback_work_to_savepoint_ends_tx:
  "DefaultClassifier (''ROLLBACK WORK TO SAVEPOINT '' @ s) = KindRollback"
proof -
  have "stripLeading (''ROLLBACK WORK TO SAVEPOINT '' @ s) = ''ROLLBACK WORK TO SAVEPOINT '' @ s"
    "stripLeading ('' WORK TO SAVEPOINT '' @ s) = ''WORK TO SAVEPOINT '' @ s"
    by (subst stripLeading.simps, simp add: trimLeft_def hasPrefix_def)+
  then have "leadingToken (''ROLLBACK WORK TO SAVEPOINT '' @ s) = ''ROLLBACK''"
    and "followingToken (''ROLLBACK WORK TO SAVEPOINT '' @ s) = ''WORK''"
    by (simp_all add: leadingToken_def followingToken_def isIdentChar_def)
  then show ?thesis
    by (simp add: DefaultClassifier_classifySpec classifySpec_def readKeywords_def
        writeKeywords_def asciiUpper_def Let_def)
qed

end
