(* ===== verification/GoUnicode.thy ===== *)
theory GoUnicode
  imports GoStrings
begin

text \<open>
  UTF-8 as Go reads it: \<open>utf8.DecodeRuneInString\<close> (an ill-formed byte is the replacement rune of
  size one), \<open>unicode.IsSpace\<close>, \<open>strings.Fields\<close>, \<open>strings.Join\<close> and \<open>strconv.Quote\<close> (the verb
  \<open>%q\<close>). Which runes above ASCII are printable is a Unicode table of the Go release; it is the
  parameter \<open>printable\<close> of \<open>goQuote\<close>.
\<close>

section \<open>Runes\<close>

definition runeError :: nat where
  "runeError = 0xFFFD"

text \<open>Size, and the range of the second byte, by the first byte.\<close>

definition leadInfo :: "nat \<Rightarrow> (nat \<times> nat \<times> nat) option" where
  "leadInfo b =
     (if 0xC2 \<le> b \<and> b \<le> 0xDF then Some (2, 0x80, 0xBF)
      else if b = 0xE0 then Some (3, 0xA0, 0xBF)
      else if b = 0xED then Some (3, 0x80, 0x9F)
      else if 0xE1 \<le> b \<and> b \<le> 0xEF then Some (3, 0x80, 0xBF)
      else if b = 0xF0 then Some (4, 0x90, 0xBF)
      else if 0xF1 \<le> b \<and> b \<le> 0xF3 then Some (4, 0x80, 0xBF)
      else if b = 0xF4 then Some (4, 0x80, 0x8F)
      else None)"

definition continuation :: "char \<Rightarrow> bool" where
  "continuation c \<longleftrightarrow> 0x80 \<le> byte c \<and> byte c \<le> 0xBF"

fun decodeRune :: "string \<Rightarrow> nat \<times> nat" where
  "decodeRune [] = (runeError, 0)"
| "decodeRune (c # s) =
     (if byte c < 0x80 then (byte c, 1)
      else case leadInfo (byte c) of
        None \<Rightarrow> (runeError, 1)
      | Some (sz, lo, hi) \<Rightarrow>
          if length s < sz - 1 then (runeError, 1)
          else if byte (s ! 0) < lo \<or> hi < byte (s ! 0) then (runeError, 1)
          else if sz = 2 then ((byte c mod 32) * 64 + byte (s ! 0) mod 64, 2)
          else if \<not> continuation (s ! 1) then (runeError, 1)
          else if sz = 3 then
            ((byte c mod 16) * 4096 + (byte (s ! 0) mod 64) * 64 + byte (s ! 1) mod 64, 3)
          else if \<not> continuation (s ! 2) then (runeError, 1)
          else ((byte c mod 8) * 262144 + (byte (s ! 0) mod 64) * 4096 +
                (byte (s ! 1) mod 64) * 64 + byte (s ! 2) mod 64, 4))"

lemma leadInfo_cases:
  "leadInfo b = Some (sz, lo, hi) \<Longrightarrow> 0x80 \<le> lo \<and> 0x80 \<le> b \<and> hi \<le> 0xBF \<and>
    (sz = 2 \<and> 0xC2 \<le> b \<and> b \<le> 0xDF \<or>
     sz = 3 \<and> (b = 0xE0 \<and> lo = 0xA0 \<or> 0xE1 \<le> b \<and> b \<le> 0xEF) \<or>
     sz = 4 \<and> (b = 0xF0 \<and> lo = 0x90 \<or> 0xF1 \<le> b \<and> b \<le> 0xF4))"
  by (auto simp: leadInfo_def split: if_splits)

lemma decodeRune_size: "s \<noteq> [] \<Longrightarrow> 1 \<le> snd (decodeRune s) \<and> snd (decodeRune s) \<le> 4"
  by (cases s) (auto split: option.split dest: leadInfo_cases)

lemma decodeRune_ascii: "decodeRune (c # s) = (r, n) \<Longrightarrow> byte c < 0x80 \<Longrightarrow> r = byte c \<and> n = 1"
  by simp

text \<open>The string as a list of runes, each with the bytes it was read from: \<open>for range\<close>.\<close>

function runes :: "string \<Rightarrow> (nat \<times> string) list" where
  "runes s = (if s = [] then []
     else (fst (decodeRune s), take (snd (decodeRune s)) s) # runes (drop (snd (decodeRune s)) s))"
  by pat_completeness auto
termination
proof (relation "measure length")
  fix s :: string
  assume "s \<noteq> []"
  with decodeRune_size [of s] show "(drop (snd (decodeRune s)) s, s) \<in> measure length"
    by simp
qed simp

declare runes.simps [simp del]

lemma runes_Nil [simp]: "runes [] = []"
  by (simp add: runes.simps)

lemma runes_ascii: "list_all (\<lambda>c. byte c < 0x80) s \<Longrightarrow> runes s = map (\<lambda>c. (byte c, [c])) s"
  by (induction s) (simp_all add: runes.simps [of "_ # _"] decodeRune_ascii)

lemma runes_bytes: "concat (map snd (runes s)) = s"
proof (induction s rule: runes.induct)
  case (1 s)
  then show ?case by (cases "s = []") (simp_all add: runes.simps [of s])
qed

text \<open>A rune's bytes are one ASCII byte, or bytes from 0x80 on.\<close>

definition wfRune :: "nat \<times> string \<Rightarrow> bool" where
  "wfRune rb \<longleftrightarrow> snd rb \<noteq> [] \<and>
     ((\<exists>c. snd rb = [c] \<and> byte c < 0x80 \<and> fst rb = byte c) \<or>
      (\<forall>c \<in> set (snd rb). 0x80 \<le> byte c) \<and> 0x80 \<le> fst rb)"

lemma decodeRune_high_bytes:
  assumes "\<not> byte c < 0x80" and "d \<in> set (take (snd (decodeRune (c # t))) (c # t))"
  shows "0x80 \<le> byte d"
proof -
  have "set (take n t) = (!) t ` {0..<n}" if "n \<le> length t" for n
    using that by (simp add: nth_image)
  moreover have "{0..<2::nat} = {0, 1}" "{0..<3::nat} = {0, 1, 2}" by auto
  ultimately have take_t: "t \<noteq> [] \<Longrightarrow> set (take (Suc 0) t) = {t ! 0}"
      "\<not> length t < 2 \<Longrightarrow> set (take 2 t) = {t ! 0, t ! 1}"
      "\<not> length t < 3 \<Longrightarrow> set (take 3 t) = {t ! 0, t ! 1, t ! 2}"
    by (auto simp: Suc_le_eq)
  show ?thesis
    using assms
    by (auto simp: take_t continuation_def split: option.splits if_splits dest!: leadInfo_cases)
qed

lemma mod_window:
  fixes b :: nat
  assumes "k * m \<le> b" and "b < k * m + m"
  shows "b mod m = b - k * m"
proof -
  have "b mod m = ((b - k * m) + k * m) mod m" using assms(1) by simp
  also have "\<dots> = (b - k * m) mod m" by simp
  also have "\<dots> = b - k * m" using assms by simp
  finally show ?thesis .
qed

lemma high_bits:
  fixes b :: nat
  shows "0xC2 \<le> b \<Longrightarrow> b \<le> 0xDF \<Longrightarrow> 2 \<le> b mod 32"
    and "0xE1 \<le> b \<Longrightarrow> b \<le> 0xEF \<Longrightarrow> 1 \<le> b mod 16"
    and "0xF1 \<le> b \<Longrightarrow> b \<le> 0xF4 \<Longrightarrow> 1 \<le> b mod 8"
    and "0xA0 \<le> b \<Longrightarrow> b \<le> 0xBF \<Longrightarrow> 32 \<le> b mod 64"
    and "0x90 \<le> b \<Longrightarrow> b \<le> 0xBF \<Longrightarrow> 16 \<le> b mod 64"
  using mod_window [of 6 32 b] mod_window [of 14 16 b] mod_window [of 30 8 b]
    mod_window [of 2 64 b]
  by simp_all

lemma decodeRune_high_rune:
  assumes "\<not> byte c < 0x80"
  shows "0x80 \<le> fst (decodeRune (c # t))"
proof (cases "leadInfo (byte c)")
  case None
  with assms show ?thesis by (simp add: runeError_def)
next
  case (Some x)
  obtain sz lo hi where info: "leadInfo (byte c) = Some (sz, lo, hi)"
    using Some by (cases x) auto
  let ?b = "byte c" and ?x = "byte (t ! 0)"
  show ?thesis
  proof (cases "lo \<le> ?x \<and> ?x \<le> hi")
    case False
    with assms info show ?thesis by (auto simp: runeError_def)
  next
    case True
    with leadInfo_cases [OF info] consider "sz = 2" "2 \<le> ?b mod 32"
      | "sz = 3" "1 \<le> ?b mod 16 \<or> 32 \<le> ?x mod 64"
      | "sz = 4" "1 \<le> ?b mod 8 \<or> 16 \<le> ?x mod 64"
      using high_bits [of ?b] high_bits(4,5) [of ?x] True by (elim conjE disjE) simp_all
    then show ?thesis
      using assms info by cases (auto simp: runeError_def)
  qed
qed

lemma wfRune_decode:
  assumes "s \<noteq> []"
  shows "wfRune (fst (decodeRune s), take (snd (decodeRune s)) s)"
proof (cases s)
  case (Cons c t)
  then show ?thesis
    using decodeRune_high_bytes [of c _ t] decodeRune_high_rune [of c t] decodeRune_size [of s]
    by (cases "byte c < 0x80") (auto simp add: wfRune_def)
qed (use assms in simp)

lemma runes_wf: "\<forall>rb \<in> set (runes s). wfRune rb"
proof (induction s rule: runes.induct)
  case (1 s)
  then show ?case
    using wfRune_decode [of s] by (cases "s = []") (simp_all add: runes.simps [of s])
qed

section \<open>White space, fields, joining\<close>

definition isSpaceRune :: "nat \<Rightarrow> bool" where
  "isSpaceRune r \<longleftrightarrow>
     9 \<le> r \<and> r \<le> 13 \<or> r = 32 \<or> r = 0x85 \<or> r = 0xA0 \<or> r = 0x1680 \<or>
     0x2000 \<le> r \<and> r \<le> 0x200A \<or> r = 0x2028 \<or> r = 0x2029 \<or> r = 0x202F \<or> r = 0x205F \<or>
     r = 0x3000"

text \<open>\<open>strings.Fields\<close>: the maximal runs of non-space runes; \<open>acc\<close> is the field being read.\<close>

fun fieldsFrom :: "string \<Rightarrow> (nat \<times> string) list \<Rightarrow> string list" where
  "fieldsFrom acc [] = (if acc = [] then [] else [acc])"
| "fieldsFrom acc ((r, b) # rs) =
     (if isSpaceRune r then (if acc = [] then fieldsFrom [] rs else acc # fieldsFrom [] rs)
      else fieldsFrom (acc @ b) rs)"

definition fields :: "string \<Rightarrow> string list" where
  "fields s = fieldsFrom [] (runes s)"

fun joinWith :: "string \<Rightarrow> string list \<Rightarrow> string" where
  "joinWith sep [] = []"
| "joinWith sep [s] = s"
| "joinWith sep (s # t # ss) = s @ sep @ joinWith sep (t # ss)"

text \<open>\<open>strings.Join(strings.Fields(q), " ")\<close>, the one-line form of a query.\<close>

definition oneLine :: "string \<Rightarrow> string" where
  "oneLine q = joinWith '' '' (fields q)"

definition noBreak :: "string \<Rightarrow> bool" where
  "noBreak s \<longleftrightarrow> CHR 0x0A \<notin> set s"

lemma fieldsFrom_noBreak:
  "noBreak acc \<Longrightarrow> \<forall>rb \<in> set rs. wfRune rb \<Longrightarrow> \<forall>f \<in> set (fieldsFrom acc rs). noBreak f"
proof (induction acc rs rule: fieldsFrom.induct)
  case (2 acc r b rs)
  have "noBreak b" if "\<not> isSpaceRune r"
  proof -
    from that have "r \<noteq> 10" by (auto simp: isSpaceRune_def)
    with 2(5) show ?thesis by (auto simp: wfRune_def noBreak_def)
  qed
  with 2 show ?case by (auto simp: noBreak_def)
qed (simp add: noBreak_def)

lemma joinWith_noBreak:
  "noBreak sep \<Longrightarrow> \<forall>f \<in> set fs. noBreak f \<Longrightarrow> noBreak (joinWith sep fs)"
  by (induction sep fs rule: joinWith.induct) (simp_all add: noBreak_def)

lemma oneLine_noBreak: "noBreak (oneLine q)"
  unfolding oneLine_def fields_def
  by (intro joinWith_noBreak fieldsFrom_noBreak runes_wf) (simp_all add: noBreak_def)

section \<open>Quoting\<close>

definition hexDigit :: "nat \<Rightarrow> char" where
  "hexDigit d = (if d < 10 then char_of (48 + d) else char_of (87 + d))"

text \<open>\<open>n\<close> lower-case hexadecimal digits.\<close>

fun hexFixed :: "nat \<Rightarrow> nat \<Rightarrow> string" where
  "hexFixed 0 r = []"
| "hexFixed (Suc n) r = hexFixed n (r div 16) @ [hexDigit (r mod 16)]"

definition backslash :: char where
  "backslash = CHR 0x5C"

definition quoteRune :: "(nat \<Rightarrow> bool) \<Rightarrow> nat \<times> string \<Rightarrow> string" where
  "quoteRune printable rb =
     (let r = fst rb; b = snd rb in
      if length b = 1 \<and> r = runeError then [backslash, CHR ''x''] @ hexFixed 2 (byte (hd b))
      else if r = 34 \<or> r = 92 then backslash # b
      else if (if r < 0x80 then 0x20 \<le> r \<and> r < 0x7F else printable r) then b
      else if r = 7 then [backslash, CHR ''a'']
      else if r = 8 then [backslash, CHR ''b'']
      else if r = 12 then [backslash, CHR ''f'']
      else if r = 10 then [backslash, CHR ''n'']
      else if r = 13 then [backslash, CHR ''r'']
      else if r = 9 then [backslash, CHR ''t'']
      else if r = 11 then [backslash, CHR ''v'']
      else if r < 0x20 \<or> r = 0x7F then [backslash, CHR ''x''] @ hexFixed 2 r
      else if r < 0x10000 then [backslash, CHR ''u''] @ hexFixed 4 r
      else [backslash, CHR ''U''] @ hexFixed 8 r)"

definition goQuote :: "(nat \<Rightarrow> bool) \<Rightarrow> string \<Rightarrow> string" where
  "goQuote printable s = [CHR 0x22] @ concat (map (quoteRune printable) (runes s)) @ [CHR 0x22]"

lemma hexDigit_noBreak: "d < 16 \<Longrightarrow> hexDigit d \<noteq> CHR 0x0A"
  by (simp only: char_eq_iff_byte hexDigit_def) (auto simp: of_char_of)

lemma hexFixed_noBreak: "noBreak (hexFixed n r)"
  using hexDigit_noBreak
  by (induction n r rule: hexFixed.induct) (auto simp: noBreak_def eq_commute [of "CHR 0x0A"])

lemma quoteRune_noBreak:
  assumes "wfRune rb"
  shows "noBreak (quoteRune printable rb)"
proof -
  have "noBreak (snd rb)" if "fst rb \<noteq> 10"
    using assms that by (auto simp: wfRune_def noBreak_def)
  then show ?thesis
    using hexFixed_noBreak
    by (auto simp: quoteRune_def noBreak_def backslash_def Let_def)
qed

lemma goQuote_noBreak: "noBreak (goQuote printable s)"
  using runes_wf [of s] quoteRune_noBreak [of _ printable]
  by (auto simp: goQuote_def noBreak_def)

end
