(* ===== verification/GoContext.thy ===== *)
theory GoContext
  imports Prelude
begin

text \<open>
  \<open>context.Context\<close> as the library uses it: the chain of nodes a context is made of. A live
  \<open>*Boundary\<close> is itself a context node (\<open>detector.go\<close>: \<open>Boundary\<close> implements \<open>context.Context\<close> with
  an immutable \<open>parent\<close>); the node holds the reference of the boundary object, whose mutable
  fields live in the heap of the theory \<open>Detector\<close>. The other nodes are the standard library's
  \<open>Background\<close>, \<open>WithValue\<close>, \<open>WithDeadline\<close> and \<open>WithCancel\<close>.
\<close>

text \<open>A value of Go's type \<open>any\<close>. The library stores such values and never looks inside.\<close>

datatype GoAny = AnyNil | AnyBool bool | AnyInt int | AnyString string

type_synonym BoundaryRef = nat

datatype Ctx =
    Background
  | CtxValue string GoAny Ctx
  | CtxDeadline int Ctx
  | CtxCancel bool Ctx
  | CtxBoundary BoundaryRef Ctx

text \<open>\<open>ctx.Value(boundaryCtxKey{})\<close>: \<open>Boundary.Value\<close> answers with the boundary itself, every other
  node asks its parent.\<close>

fun boundaryOf :: "Ctx \<Rightarrow> BoundaryRef option" where
  "boundaryOf Background = None"
| "boundaryOf (CtxValue k v p) = boundaryOf p"
| "boundaryOf (CtxDeadline t p) = boundaryOf p"
| "boundaryOf (CtxCancel c p) = boundaryOf p"
| "boundaryOf (CtxBoundary b p) = Some b"

text \<open>\<open>ctx.Value\<close> for any other key: a boundary node delegates to its parent.\<close>

fun ctxValue :: "Ctx \<Rightarrow> string \<Rightarrow> GoAny" where
  "ctxValue Background k = AnyNil"
| "ctxValue (CtxValue k' v p) k = (if k' = k then v else ctxValue p k)"
| "ctxValue (CtxDeadline t p) k = ctxValue p k"
| "ctxValue (CtxCancel c p) k = ctxValue p k"
| "ctxValue (CtxBoundary b p) k = ctxValue p k"

text \<open>\<open>Deadline\<close>: the earliest deadline on the chain; a boundary node delegates.\<close>

fun ctxDeadline :: "Ctx \<Rightarrow> int option" where
  "ctxDeadline Background = None"
| "ctxDeadline (CtxValue k v p) = ctxDeadline p"
| "ctxDeadline (CtxDeadline t p) =
     (case ctxDeadline p of None \<Rightarrow> Some t | Some u \<Rightarrow> Some (min t u))"
| "ctxDeadline (CtxCancel c p) = ctxDeadline p"
| "ctxDeadline (CtxBoundary b p) = ctxDeadline p"

text \<open>\<open>Err\<close> (and the closing of \<open>Done\<close>) at time \<open>now\<close>: a node is done when it or an ancestor was
  cancelled or timed out; a boundary node delegates.\<close>

fun ctxDone :: "int \<Rightarrow> Ctx \<Rightarrow> bool" where
  "ctxDone now Background = False"
| "ctxDone now (CtxValue k v p) = ctxDone now p"
| "ctxDone now (CtxDeadline t p) = (t \<le> now \<or> ctxDone now p)"
| "ctxDone now (CtxCancel c p) = (c \<or> ctxDone now p)"
| "ctxDone now (CtxBoundary b p) = ctxDone now p"

text \<open>The references on the chain.\<close>

fun ctxRefs :: "Ctx \<Rightarrow> BoundaryRef set" where
  "ctxRefs Background = {}"
| "ctxRefs (CtxValue k v p) = ctxRefs p"
| "ctxRefs (CtxDeadline t p) = ctxRefs p"
| "ctxRefs (CtxCancel c p) = ctxRefs p"
| "ctxRefs (CtxBoundary b p) = insert b (ctxRefs p)"

lemma boundaryOf_in_ctxRefs: "boundaryOf ctx = Some b \<Longrightarrow> b \<in> ctxRefs ctx"
  by (induction ctx) simp_all

end
