(* ===== verification/Report.thy ===== *)
theory Report
  imports Classify GoUnicode GoContext
begin

text \<open>
  \<open>reporter.go\<close> and \<open>attrs.go\<close>: the data delivered to reporters, the human-readable form of a
  violation, and the two reporters that ship with the library, \<open>CollectingReporter\<close> (state: four
  lists) and \<open>SlogReporter\<close> (output: log records). A reporter is told of a \<open>Report\<close>; which of the four
  interfaces it implements is a \<open>ReporterIface\<close>.

  The lemmas show that a rendered violation has exactly one line per write statement, whatever the
  queries and the boundary name contain, and that the collecting reporter loses nothing.
\<close>

section \<open>Data\<close>

record BoundaryAttr =
  attrKey :: string
  attrValue :: GoAny

definition Attr :: "string \<Rightarrow> GoAny \<Rightarrow> BoundaryAttr" where
  "Attr key val = \<lparr>attrKey = key, attrValue = val\<rparr>"

record StatementRecord =
  srQuery :: string
  srKind :: StatementKind
  srTxID :: u64
  srTime :: int
  srAttrs :: "BoundaryAttr list"

record Violation =
  vBoundary :: string
  vWriteUnits :: int
  vStatements :: "StatementRecord list"
  vTruncatedStatements :: int
  vAllowedWriteUnits :: "int list"
  vAttrs :: "BoundaryAttr list"

record NestedBoundary =
  nbOuter :: string
  nbInner :: string
  nbTime :: int

record StaleAllow =
  saBoundary :: string
  saReason :: string
  saWriteUnits :: int

datatype Report =
    ReportViolation Violation
  | ReportUnboundedWrite StatementRecord
  | ReportStaleAllow StaleAllow
  | ReportNestedBoundary NestedBoundary

text \<open>The optional interfaces a reporter implements; \<open>Report\<close> itself is mandatory.\<close>

record ReporterIface =
  isUnboundedWriteReporter :: bool
  isStaleAllowReporter :: bool
  isNestedBoundaryReporter :: bool

fun implements :: "ReporterIface \<Rightarrow> Report \<Rightarrow> bool" where
  "implements i (ReportViolation v) = True"
| "implements i (ReportUnboundedWrite s) = isUnboundedWriteReporter i"
| "implements i (ReportStaleAllow s) = isStaleAllowReporter i"
| "implements i (ReportNestedBoundary n) = isNestedBoundaryReporter i"

definition allIfaces :: ReporterIface where
  "allIfaces = \<lparr>isUnboundedWriteReporter = True, isStaleAllowReporter = True,
     isNestedBoundaryReporter = True\<rparr>"

text \<open>A \<open>ReporterFunc\<close> implements \<open>Reporter\<close> only.\<close>

definition funcIfaces :: ReporterIface where
  "funcIfaces = \<lparr>isUnboundedWriteReporter = False, isStaleAllowReporter = False,
     isNestedBoundaryReporter = False\<rparr>"

section \<open>The text of a violation\<close>

text \<open>The loop of \<open>formatWriteUnits\<close> from index \<open>i\<close> on, for a slice of \<open>len\<close> counts.\<close>

fun formatUnitsFrom :: "nat \<Rightarrow> nat \<Rightarrow> int list \<Rightarrow> string" where
  "formatUnitsFrom len i [] = []"
| "formatUnitsFrom len i (n # ns) =
     (if i = 0 then [] else if i = len - 1 then '' or '' else '', '') @
     intDecimal n @ formatUnitsFrom len (Suc i) ns"

definition formatWriteUnits :: "int list \<Rightarrow> string" where
  "formatWriteUnits units = formatUnitsFrom (length units) 0 units @ '' write unit(s)''"

definition txLabel :: "u64 \<Rightarrow> string" where
  "txLabel txID = (if txID \<noteq> 0 then ''tx#'' @ natDecimal (unat txID) else ''auto-commit'')"

definition writeEntry :: "StatementRecord \<Rightarrow> string" where
  "writeEntry s = ''['' @ txLabel (srTxID s) @ ''] '' @ oneLine (srQuery s)"

definition isWriteRecord :: "StatementRecord \<Rightarrow> bool" where
  "isWriteRecord s \<longleftrightarrow> srKind s = KindWrite"

definition violationString :: "(nat \<Rightarrow> bool) \<Rightarrow> Violation \<Rightarrow> string" where
  "violationString printable v =
     ''txnproof: boundary '' @ goQuote printable (vBoundary v) @
     '' is not atomic: writes span '' @ intDecimal (vWriteUnits v) @ '' atomic units'' @
     (if vAllowedWriteUnits v \<noteq> [] then
        '' (allowed for exactly '' @ formatWriteUnits (vAllowedWriteUnits v) @
        '', so this execution is not covered)'' else []) @
     '':'' @
     concat (map (\<lambda>s. if \<not> isWriteRecord s then [] else newline # ''  '' @ writeEntry s)
       (vStatements v)) @
     (if vTruncatedStatements v > 0 then
        newline # ''  (+'' @ intDecimal (vTruncatedStatements v) @ '' statements truncated)''
      else [])"

section \<open>CollectingReporter\<close>

record CollectingReporter =
  crViolations :: "Violation list"
  crUnbounded :: "StatementRecord list"
  crStaleAllows :: "StaleAllow list"
  crNested :: "NestedBoundary list"

definition NewCollectingReporter :: CollectingReporter where
  "NewCollectingReporter =
     \<lparr>crViolations = [], crUnbounded = [], crStaleAllows = [], crNested = []\<rparr>"

fun collect :: "Report \<Rightarrow> CollectingReporter \<Rightarrow> CollectingReporter" where
  "collect (ReportViolation v) r = r\<lparr>crViolations := crViolations r @ [v]\<rparr>"
| "collect (ReportUnboundedWrite s) r = r\<lparr>crUnbounded := crUnbounded r @ [s]\<rparr>"
| "collect (ReportStaleAllow s) r = r\<lparr>crStaleAllows := crStaleAllows r @ [s]\<rparr>"
| "collect (ReportNestedBoundary n) r = r\<lparr>crNested := crNested r @ [n]\<rparr>"

definition resetCollecting :: "CollectingReporter \<Rightarrow> CollectingReporter" where
  "resetCollecting r = r\<lparr>crViolations := [], crUnbounded := [], crStaleAllows := [], crNested := []\<rparr>"

text \<open>The test helpers, as the list of messages they pass to \<open>t.Errorf\<close>.\<close>

definition RequireNoViolations :: "(nat \<Rightarrow> bool) \<Rightarrow> CollectingReporter \<Rightarrow> string list" where
  "RequireNoViolations printable r = map (violationString printable) (crViolations r)"

definition RequireNoUnboundedWrites :: "CollectingReporter \<Rightarrow> string list" where
  "RequireNoUnboundedWrites r =
     map (\<lambda>s. ''txnproof: write executed with no boundary in its context: '' @ srQuery s)
       (crUnbounded r)"

definition RequireNoNestedBoundaries :: "(nat \<Rightarrow> bool) \<Rightarrow> CollectingReporter \<Rightarrow> string list" where
  "RequireNoNestedBoundaries printable r =
     map (\<lambda>n. ''txnproof: boundary '' @ goQuote printable (nbInner n) @
         '' started inside boundary '' @ goQuote printable (nbOuter n) @
         ''; statements attribute to the inner one only'') (crNested r)"

definition RequireNoStaleAllows :: "(nat \<Rightarrow> bool) \<Rightarrow> CollectingReporter \<Rightarrow> string list" where
  "RequireNoStaleAllows printable r =
     map (\<lambda>s. ''txnproof: boundary '' @ goQuote printable (saBoundary s) @
         '' is marked AllowNonAtomic ('' @ saReason s @ '') but used only '' @
         intDecimal (saWriteUnits s) @ '' write unit(s); remove the stale allow'') (crStaleAllows r)"

section \<open>SlogReporter\<close>

datatype LogLevel = LevelWarn | LevelError

datatype LogValue =
    LogString string
  | LogInt int
  | LogStrings "string list"
  | LogInts "int list"
  | LogAny GoAny

record LogRecord =
  lrCtx :: Ctx
  lrLevel :: LogLevel
  lrMessage :: string
  lrArgs :: "(string \<times> LogValue) list"

definition SlogAttrs :: "BoundaryAttr list \<Rightarrow> (string \<times> LogValue) list" where
  "SlogAttrs attrs = map (\<lambda>a. (attrKey a, LogAny (attrValue a))) attrs"

fun slogReport :: "Ctx \<Rightarrow> Report \<Rightarrow> LogRecord" where
  "slogReport ctx (ReportViolation v) =
     \<lparr>lrCtx = ctx, lrLevel = LevelError,
      lrMessage = ''txnproof: non-atomic SQL execution detected'',
      lrArgs =
        [(''boundary'', LogString (vBoundary v)), (''write_units'', LogInt (vWriteUnits v)),
         (''writes'', LogStrings (map writeEntry (filter isWriteRecord (vStatements v))))] @
        (if vAllowedWriteUnits v \<noteq> []
         then [(''allowed_write_units'', LogInts (vAllowedWriteUnits v))] else []) @
        SlogAttrs (vAttrs v)\<rparr>"
| "slogReport ctx (ReportUnboundedWrite s) =
     \<lparr>lrCtx = ctx, lrLevel = LevelWarn,
      lrMessage = ''txnproof: write statement executed outside any boundary'',
      lrArgs = (''query'', LogString (oneLine (srQuery s))) # SlogAttrs (srAttrs s)\<rparr>"
| "slogReport ctx (ReportNestedBoundary n) =
     \<lparr>lrCtx = ctx, lrLevel = LevelWarn,
      lrMessage = ''txnproof: boundary started inside another boundary; statements attribute to the inner one only'',
      lrArgs = [(''outer'', LogString (nbOuter n)), (''inner'', LogString (nbInner n))]\<rparr>"
| "slogReport ctx (ReportStaleAllow s) =
     \<lparr>lrCtx = ctx, lrLevel = LevelWarn,
      lrMessage = ''txnproof: boundary is marked AllowNonAtomic but did not violate'',
      lrArgs = [(''boundary'', LogString (saBoundary s)), (''reason'', LogString (saReason s)),
        (''write_units'', LogInt (saWriteUnits s))]\<rparr>"

section \<open>Lines of a rendered violation\<close>

lemma intDecimal_noBreak: "noBreak (intDecimal i)"
proof -
  have "noBreak (natDecimal n)" for n
    using natDecimal_digits [of n] by (auto simp: noBreak_def isDigit_def)
  then show ?thesis by (simp add: intDecimal_def noBreak_def)
qed

lemma noBreak_append [simp]: "noBreak (s @ t) \<longleftrightarrow> noBreak s \<and> noBreak t"
  by (auto simp: noBreak_def)

lemma noBreak_Cons [simp]: "noBreak (c # t) \<longleftrightarrow> c \<noteq> newline \<and> noBreak t"
  by (auto simp: noBreak_def)

lemma noBreak_Nil [simp]: "noBreak []"
  by (simp add: noBreak_def)

lemma formatUnitsFrom_noBreak: "noBreak (formatUnitsFrom len i ns)"
  by (induction len i ns rule: formatUnitsFrom.induct) (simp_all add: intDecimal_noBreak)

lemma writeEntry_noBreak: "noBreak (writeEntry s)"
  using intDecimal_noBreak [of "int (unat (srTxID s))"]
  by (simp add: writeEntry_def txLabel_def oneLine_noBreak intDecimal_def)

lemma collect_fold:
  "crViolations (fold collect rs r) = crViolations r @ [v. ReportViolation v \<leftarrow> rs]"
  "crUnbounded (fold collect rs r) = crUnbounded r @ [s. ReportUnboundedWrite s \<leftarrow> rs]"
  "crStaleAllows (fold collect rs r) = crStaleAllows r @ [s. ReportStaleAllow s \<leftarrow> rs]"
  "crNested (fold collect rs r) = crNested r @ [n. ReportNestedBoundary n \<leftarrow> rs]"
proof (induction rs arbitrary: r)
  case (Cons x rs)
  { case 1 show ?case using Cons(1) by (cases x) simp_all
  next case 2 show ?case using Cons(2) by (cases x) simp_all
  next case 3 show ?case using Cons(3) by (cases x) simp_all
  next case 4 show ?case using Cons(4) by (cases x) simp_all }
qed simp_all

text \<open>The lines a violation is meant to print: a headline, one line per write statement, and a
  trailer when statements were dropped.\<close>

definition violationLines :: "(nat \<Rightarrow> bool) \<Rightarrow> Violation \<Rightarrow> string list" where
  "violationLines printable v =
     (''txnproof: boundary '' @ goQuote printable (vBoundary v) @
      '' is not atomic: writes span '' @ intDecimal (vWriteUnits v) @ '' atomic units'' @
      (if vAllowedWriteUnits v \<noteq> [] then
         '' (allowed for exactly '' @ formatWriteUnits (vAllowedWriteUnits v) @
         '', so this execution is not covered)'' else []) @ '':'') #
     map (\<lambda>s. ''  '' @ writeEntry s) (filter isWriteRecord (vStatements v)) @
     (if vTruncatedStatements v > 0
      then [''  (+'' @ intDecimal (vTruncatedStatements v) @ '' statements truncated)''] else [])"

lemma joinWith_newline_Cons:
  "joinWith [newline] (l # ls) = l @ concat (map (\<lambda>m. newline # m) ls)"
  by (induction ls arbitrary: l) simp_all

lemma violationString_joinWith: "violationString p v = joinWith [newline] (violationLines p v)"
proof -
  have "concat (map (\<lambda>s. if \<not> isWriteRecord s then [] else newline # ''  '' @ writeEntry s) ss)
      = concat (map (\<lambda>m. newline # m) (map (\<lambda>s. ''  '' @ writeEntry s) (filter isWriteRecord ss)))"
    for ss by (induction ss) simp_all
  then show ?thesis
    by (simp add: violationString_def violationLines_def joinWith_newline_Cons)
qed

lemma violationLines_noBreak: "list_all noBreak (violationLines p v)"
  by (auto simp: violationLines_def list_all_iff goQuote_noBreak intDecimal_noBreak
      formatWriteUnits_def formatUnitsFrom_noBreak writeEntry_noBreak)

lemma formatUnitsFrom_tail:
  assumes "ns \<noteq> []" and "i \<noteq> 0" and "len = i + length ns"
  shows "formatUnitsFrom len i ns
    = concat (map (\<lambda>n. '', '' @ intDecimal n) (butlast ns)) @ '' or '' @ intDecimal (last ns)"
  using assms
proof (induction len i ns rule: formatUnitsFrom.induct)
  case (2 len i n ns)
  then show ?case by (cases "ns = []") auto
qed simp

section \<open>Properties\<close>

text \<open>C39. The text of a violation is a headline, then exactly one line for each write statement in
  execution order, then a trailer when statements were dropped. No query, boundary name or count
  can break a line or add one: every piece is free of newlines.\<close>

theorem violation_text_has_one_line_per_write:
  "violationString p v = joinWith [newline] (violationLines p v) \<and>
   list_all noBreak (violationLines p v) \<and>
   length (violationLines p v) =
     1 + length (filter isWriteRecord (vStatements v)) + (if vTruncatedStatements v > 0 then 1 else 0)"
  by (simp add: violationString_joinWith violationLines_noBreak) (simp add: violationLines_def)

text \<open>The collecting reporter keeps every report of every kind in delivery order, and each of
  its test helpers fails the test with exactly one message per collected report of its kind.\<close>

lemma collecting_reporter_is_complete:
  "crViolations (fold collect rs NewCollectingReporter) = [v. ReportViolation v \<leftarrow> rs] \<and>
   crUnbounded (fold collect rs NewCollectingReporter) = [s. ReportUnboundedWrite s \<leftarrow> rs] \<and>
   crStaleAllows (fold collect rs NewCollectingReporter) = [s. ReportStaleAllow s \<leftarrow> rs] \<and>
   crNested (fold collect rs NewCollectingReporter) = [n. ReportNestedBoundary n \<leftarrow> rs] \<and>
   length (RequireNoViolations p (fold collect rs NewCollectingReporter))
     = length [v. ReportViolation v \<leftarrow> rs] \<and>
   length (RequireNoUnboundedWrites (fold collect rs NewCollectingReporter))
     = length [s. ReportUnboundedWrite s \<leftarrow> rs] \<and>
   length (RequireNoStaleAllows p (fold collect rs NewCollectingReporter))
     = length [s. ReportStaleAllow s \<leftarrow> rs] \<and>
   length (RequireNoNestedBoundaries p (fold collect rs NewCollectingReporter))
     = length [n. ReportNestedBoundary n \<leftarrow> rs]"
  by (simp add: collect_fold NewCollectingReporter_def RequireNoViolations_def
      RequireNoUnboundedWrites_def RequireNoStaleAllows_def RequireNoNestedBoundaries_def)

text \<open>A list of two or more allowed counts is rendered as the documentation says: commas between
  all but the last two, then "or".\<close>

lemma format_write_units_shape:
  assumes "ns \<noteq> []"
  shows "formatWriteUnits (n # ns) =
    joinWith '', '' (map intDecimal (butlast (n # ns))) @ '' or '' @ intDecimal (last (n # ns)) @
    '' write unit(s)''"
proof -
  have "joinWith '', '' (map intDecimal (n # ms))
      = intDecimal n @ concat (map (\<lambda>m. '', '' @ intDecimal m) ms)" for ms
    by (induction ms arbitrary: n) simp_all
  with assms formatUnitsFrom_tail [of ns 1] show ?thesis
    by (simp add: formatWriteUnits_def)
qed

lemma format_write_units_shape_witness:
  "formatWriteUnits [2, 3, 5] = ''2, 3 or 5 write unit(s)''"
proof -
  have "joinWith '', '' (map intDecimal (butlast [2, 3, 5])) @ '' or '' @
      intDecimal (last [2, 3, 5]) @ '' write unit(s)'' = ''2, 3 or 5 write unit(s)''"
    by code_simp
  then show ?thesis
    using format_write_units_shape [of "[3, 5]" 2] by simp
qed

end
