(* ===== verification/Allowlist.thy ===== *)
theory Allowlist
  imports GoStrings
begin

text \<open>
  \<open>allowlist.go\<close>, with \<open>coversWriteUnits\<close> of \<open>detector.go\<close>, which both allow mechanisms share. State:
  the map from boundary name to entry (reason, exact counts, used flag).

  The rot discipline (an entry is reported as unused exactly as long as it never suppressed
  anything) is shared with the baseline, so it is stated once as the locale \<open>usage_tracker\<close>: its
  client lemmas speak of any sequence of lookups, and both lists interpret it.
\<close>

section \<open>Usage tracking\<close>

text \<open>\<open>hit\<close> is the lookup that may suppress a report (event \<open>e\<close>); \<open>suppresses s e\<close> is its verdict.\<close>

locale usage_tracker =
  fixes inv :: "'s \<Rightarrow> bool"
    and names :: "'s \<Rightarrow> string set"
    and used :: "'s \<Rightarrow> string set"
    and key :: "'e \<Rightarrow> string"
    and suppresses :: "'s \<Rightarrow> 'e \<Rightarrow> bool"
    and hit :: "'e \<Rightarrow> 's \<Rightarrow> 's"
    and unused :: "'s \<Rightarrow> string list"
  assumes inv_hit: "inv s \<Longrightarrow> inv (hit e s)"
    and names_hit: "inv s \<Longrightarrow> names (hit e s) = names s"
    and used_hit: "inv s \<Longrightarrow>
      used (hit e s) = used s \<union> (if suppresses s e then {key e} else {})"
    and suppresses_hit: "inv s \<Longrightarrow> suppresses (hit e s) e' = suppresses s e'"
    and suppresses_named: "inv s \<Longrightarrow> suppresses s e \<Longrightarrow> key e \<in> names s"
    and unused_eq: "inv s \<Longrightarrow> unused s = sorted_list_of_set (names s - used s)"
    and finite_names: "inv s \<Longrightarrow> finite (names s)"
begin

lemma inv_hits: "inv s \<Longrightarrow> inv (fold hit es s)"
  by (induction es arbitrary: s) (simp_all add: inv_hit)

lemma names_hits: "inv s \<Longrightarrow> names (fold hit es s) = names s"
  by (induction es arbitrary: s) (simp_all add: inv_hit names_hit)

lemma suppresses_hits: "inv s \<Longrightarrow> suppresses (fold hit es s) e = suppresses s e"
  by (induction es arbitrary: s) (simp_all add: inv_hit suppresses_hit)

lemma used_hits:
  "inv s \<Longrightarrow> used (fold hit es s) = used s \<union> key ` {e \<in> set es. suppresses s e}"
proof (induction es arbitrary: s)
  case (Cons e es)
  then have "used (fold hit (e # es) s)
      = used s \<union> (if suppresses s e then {key e} else {}) \<union> key ` {e \<in> set es. suppresses s e}"
    by (simp add: inv_hit used_hit suppresses_hit)
  then show ?case by auto
qed simp

text \<open>After any sequence of lookups, the unused entries are those no lookup of the sequence hit.\<close>

lemma unused_hits:
  assumes "inv s" and "used s = {}"
  shows "unused (fold hit es s)
    = sorted_list_of_set (names s - key ` {e \<in> set es. suppresses s e})"
  using assms by (simp add: unused_eq inv_hits names_hits used_hits)

lemma unused_iff_never_hit:
  assumes "inv s" and "used s = {}" and "n \<in> names s"
  shows "n \<in> set (unused (fold hit es s)) \<longleftrightarrow> (\<forall>e \<in> set es. key e = n \<longrightarrow> \<not> suppresses s e)"
  using assms by (auto simp: unused_hits finite_names)

lemma unused_shrinks: "inv s \<Longrightarrow> set (unused (hit e s)) \<subseteq> set (unused s)"
  by (auto simp: unused_eq inv_hit names_hit used_hit finite_names)

end

section \<open>Exact counts\<close>

fun coversLoop :: "int list \<Rightarrow> int \<Rightarrow> bool" where
  "coversLoop [] units = False"
| "coversLoop (n # ns) units = (if n = units then True else coversLoop ns units)"

definition coversWriteUnits :: "int list \<Rightarrow> int \<Rightarrow> bool" where
  "coversWriteUnits allowed units = (if length allowed = 0 then True else coversLoop allowed units)"

lemma coversWriteUnits_iff: "coversWriteUnits ns u \<longleftrightarrow> ns = [] \<or> u \<in> set ns"
proof -
  have "coversLoop ns u \<longleftrightarrow> u \<in> set ns" by (induction ns) auto
  then show ?thesis by (simp add: coversWriteUnits_def)
qed

section \<open>The allowlist\<close>

record AllowlistEntry =
  aeReason :: string
  aeUnits :: "int list"
  aeUsed :: bool

type_synonym Allowlist = "(string, AllowlistEntry) gomap"

definition NewAllowlist :: Allowlist where
  "NewAllowlist = []"

definition allowlistAdd :: "string \<Rightarrow> string \<Rightarrow> int list \<Rightarrow> Allowlist \<Rightarrow> Allowlist" where
  "allowlistAdd boundary reason exactWriteUnits a =
     gm_put boundary \<lparr>aeReason = reason, aeUnits = exactWriteUnits, aeUsed = False\<rparr> a"

text \<open>\<open>allow\<close> returns the list after the call, \<open>allowed\<close> and the declined counts (\<open>[]\<close> for nil).\<close>

definition allowlistAllow :: "string \<Rightarrow> int \<Rightarrow> Allowlist \<Rightarrow> Allowlist \<times> bool \<times> int list" where
  "allowlistAllow boundary units a =
     (case gm_get a boundary of
        None \<Rightarrow> (a, False, [])
      | Some e \<Rightarrow>
          if \<not> coversWriteUnits (aeUnits e) units then (a, False, aeUnits e)
          else (gm_put boundary (e\<lparr>aeUsed := True\<rparr>) a, True, []))"

definition allowlistUnused :: "Allowlist \<Rightarrow> string list" where
  "allowlistUnused a = sorted_names (\<lambda>e. \<not> aeUsed e) a"

text \<open>The abstract reading of the state.\<close>

definition allowlistNames :: "Allowlist \<Rightarrow> string set" where
  "allowlistNames a = {n. gm_get a n \<noteq> None}"

definition allowlistUsed :: "Allowlist \<Rightarrow> string set" where
  "allowlistUsed a = {n. \<exists>e. gm_get a n = Some e \<and> aeUsed e}"

definition allowlistSuppresses :: "Allowlist \<Rightarrow> string \<times> int \<Rightarrow> bool" where
  "allowlistSuppresses a nu =
     (case gm_get a (fst nu) of None \<Rightarrow> False | Some e \<Rightarrow> coversWriteUnits (aeUnits e) (snd nu))"

definition allowlistHit :: "string \<times> int \<Rightarrow> Allowlist \<Rightarrow> Allowlist" where
  "allowlistHit nu a = fst (allowlistAllow (fst nu) (snd nu) a)"

lemma gm_wf_NewAllowlist [simp]: "gm_wf NewAllowlist"
  by (simp add: NewAllowlist_def)

lemma gm_wf_allowlistAdd [simp]: "gm_wf a \<Longrightarrow> gm_wf (allowlistAdd n r us a)"
  by (simp add: allowlistAdd_def)

lemma gm_wf_allowlistHit [simp]: "gm_wf a \<Longrightarrow> gm_wf (allowlistHit nu a)"
  by (simp add: allowlistHit_def allowlistAllow_def split: option.split)

lemma allowlistAllow_verdict:
  "fst (snd (allowlistAllow n u a)) = allowlistSuppresses a (n, u)"
  by (simp add: allowlistAllow_def allowlistSuppresses_def split: option.split)

lemma allowlistHit_get:
  "gm_get (allowlistHit nu a) n =
    (case gm_get a n of None \<Rightarrow> None
     | Some e \<Rightarrow> Some (if n = fst nu \<and> coversWriteUnits (aeUnits e) (snd nu)
                       then e\<lparr>aeUsed := True\<rparr> else e))"
  by (auto simp: allowlistHit_def allowlistAllow_def gm_get_put split: option.split)

interpretation al: usage_tracker gm_wf allowlistNames allowlistUsed fst allowlistSuppresses
  allowlistHit allowlistUnused
proof unfold_locales
  fix a :: Allowlist and e e' :: "string \<times> int"
  assume wf: "gm_wf a"
  show "gm_wf (allowlistHit e a)" using wf by simp
  show "allowlistNames (allowlistHit e a) = allowlistNames a"
    by (auto simp: allowlistNames_def allowlistHit_get split: option.splits)
  show "allowlistUsed (allowlistHit e a)
      = allowlistUsed a \<union> (if allowlistSuppresses a e then {fst e} else {})"
    by (auto simp: allowlistUsed_def allowlistHit_get allowlistSuppresses_def
        split: option.splits if_splits)
  show "allowlistSuppresses (allowlistHit e a) e' = allowlistSuppresses a e'"
    by (auto simp: allowlistHit_get allowlistSuppresses_def split: option.splits)
  show "fst e \<in> allowlistNames a" if "allowlistSuppresses a e"
    using that by (auto simp: allowlistNames_def allowlistSuppresses_def split: option.splits)
  show "allowlistUnused a = sorted_list_of_set (allowlistNames a - allowlistUsed a)"
    unfolding allowlistUnused_def sorted_names_eq [OF wf]
    by (rule arg_cong [where f = sorted_list_of_set])
      (auto simp: allowlistNames_def allowlistUsed_def)
  show "finite (allowlistNames a)"
    using finite_dom_map_of [of a] by (simp add: allowlistNames_def dom_def)
qed

section \<open>Properties\<close>

text \<open>C35. After any sequence of violations checked against a fresh allowlist, \<open>UnusedEntries\<close> lists,
  sorted and without repetition, exactly the entries that suppressed none of them: an entry with
  exact counts is used only by a violation whose count it covers.\<close>

theorem allowlist_unused_entries:
  assumes "gm_wf a" and "allowlistUsed a = {}"
  shows "allowlistUnused (fold allowlistHit es a)
    = sorted_list_of_set (allowlistNames a - fst ` {e \<in> set es. allowlistSuppresses a e})"
  using assms by (rule al.unused_hits)

theorem allowlist_unused_entries_witness:
  "allowlistUnused (fold allowlistHit [(''Audit'', 3), (''Sync'', 2)]
     (allowlistAdd ''Audit'' ''TICKET-1'' [2] (allowlistAdd ''Sync'' ''TICKET-2'' [] NewAllowlist)))
   = [''Audit'']"
proof -
  let ?a = "allowlistAdd ''Audit'' ''TICKET-1'' [2] (allowlistAdd ''Sync'' ''TICKET-2'' [] NewAllowlist)"
  have names: "allowlistNames ?a = {''Audit'', ''Sync''}"
    by (auto simp: allowlistNames_def allowlistAdd_def NewAllowlist_def)
  have "gm_wf ?a" by simp
  moreover have "allowlistUsed ?a = {}"
    by (auto simp: allowlistUsed_def allowlistAdd_def NewAllowlist_def split: if_splits)
  ultimately have "allowlistUnused (fold allowlistHit [(''Audit'', 3), (''Sync'', 2)] ?a)
      = sorted_list_of_set (allowlistNames ?a -
          fst ` {e \<in> set [(''Audit'', 3), (''Sync'', 2)]. allowlistSuppresses ?a e})"
    by (rule allowlist_unused_entries)
  also have "{e \<in> set [(''Audit'', 3), (''Sync'', 2)]. allowlistSuppresses ?a e} = {(''Sync'', 2)}"
    by (auto simp: allowlistSuppresses_def allowlistAdd_def NewAllowlist_def coversWriteUnits_def)
  also have "allowlistNames ?a - fst ` {(''Sync'', 2)} = {''Audit''}"
    by (auto simp: names)
  finally show ?thesis by simp
qed

end
