(* ===== verification/Boundary.thy ===== *)
theory Boundary
  imports Report Allowlist
begin

text \<open>
  The live boundary of \<open>detector.go\<close>: the record \<open>Boundary\<close>, the tally of write transactions
  (\<open>noteWriteTx\<close>: four inline slots, then an overflow map), the part of \<open>Detector.record\<close> that runs
  under the boundary's lock, and the boundary options.

  The tally is an implementation of a set of transaction identities with its cardinality. The
  locale \<open>tx_counter\<close> states that contract; the interpretation shows that the inline slots with
  overflow meet it.
\<close>

section \<open>The record\<close>

definition inlineWriteTxCap :: nat where
  "inlineWriteTxCap = 4"

definition initialStatementCap :: int where
  "initialStatementCap = 8"

text \<open>\<open>bDet\<close> refers to the detector, \<open>bWriteTxOverflow\<close> is \<open>None\<close> for the nil map.\<close>

record Boundary =
  bDet :: nat
  bParent :: Ctx
  bName :: string
  bAttrs :: "BoundaryAttr list"
  bAllowed :: bool
  bAllowReason :: string
  bAllowUnits :: "int list"
  bStatements :: "StatementRecord list"
  bWriteTxInline :: "u64 list"
  bWriteTxN :: nat
  bWriteTxOverflow :: "u64 set option"
  bAutoCommitWrites :: nat
  bTruncated :: nat
  bFinished :: bool

definition newBoundary :: "nat \<Rightarrow> Ctx \<Rightarrow> string \<Rightarrow> Boundary" where
  "newBoundary det parent name =
     \<lparr>bDet = det, bParent = parent, bName = name, bAttrs = [], bAllowed = False,
      bAllowReason = [], bAllowUnits = [], bStatements = [],
      bWriteTxInline = replicate inlineWriteTxCap 0, bWriteTxN = 0, bWriteTxOverflow = None,
      bAutoCommitWrites = 0, bTruncated = 0, bFinished = False\<rparr>"

section \<open>The tally of write transactions\<close>

definition noteWriteTx :: "u64 \<Rightarrow> Boundary \<Rightarrow> Boundary" where
  "noteWriteTx txID b =
     (let inline = (if bWriteTxN b > inlineWriteTxCap then inlineWriteTxCap else bWriteTxN b) in
      if txID \<in> set (take inline (bWriteTxInline b)) then b
      else if (case bWriteTxOverflow b of None \<Rightarrow> False | Some m \<Rightarrow> txID \<in> m) then b
      else
        (if bWriteTxN b < inlineWriteTxCap
         then b\<lparr>bWriteTxInline := (bWriteTxInline b)[bWriteTxN b := txID]\<rparr>
         else b\<lparr>bWriteTxOverflow :=
                Some (insert txID (case bWriteTxOverflow b of None \<Rightarrow> {} | Some m \<Rightarrow> m))\<rparr>)
        \<lparr>bWriteTxN := bWriteTxN b + 1\<rparr>)"

locale tx_counter =
  fixes inv :: "'s \<Rightarrow> bool"
    and txs :: "'s \<Rightarrow> 't set"
    and note_tx :: "'t \<Rightarrow> 's \<Rightarrow> 's"
    and count :: "'s \<Rightarrow> nat"
  assumes inv_note: "inv s \<Longrightarrow> inv (note_tx t s)"
    and txs_note: "inv s \<Longrightarrow> txs (note_tx t s) = insert t (txs s)"
    and count_txs: "inv s \<Longrightarrow> count s = card (txs s)"
    and finite_txs: "inv s \<Longrightarrow> finite (txs s)"
begin

lemma inv_notes: "inv s \<Longrightarrow> inv (fold note_tx ts s)"
  by (induction ts arbitrary: s) (simp_all add: inv_note)

lemma txs_notes: "inv s \<Longrightarrow> txs (fold note_tx ts s) = set ts \<union> txs s"
  by (induction ts arbitrary: s) (simp_all add: inv_note txs_note)

lemma count_notes: "inv s \<Longrightarrow> count (fold note_tx ts s) = card (set ts \<union> txs s)"
  by (simp add: inv_notes txs_notes count_txs)

lemma note_again: "inv s \<Longrightarrow> t \<in> txs s \<Longrightarrow> count (note_tx t s) = count s"
  by (simp add: inv_note txs_note count_txs insert_absorb)

lemma note_new: "inv s \<Longrightarrow> t \<notin> txs s \<Longrightarrow> count (note_tx t s) = Suc (count s)"
  by (simp add: inv_note txs_note count_txs finite_txs)

end

definition inlineTxs :: "Boundary \<Rightarrow> u64 list" where
  "inlineTxs b = take (bWriteTxN b) (bWriteTxInline b)"

definition overflowTxs :: "Boundary \<Rightarrow> u64 set" where
  "overflowTxs b = (case bWriteTxOverflow b of None \<Rightarrow> {} | Some m \<Rightarrow> m)"

definition writeTxs :: "Boundary \<Rightarrow> u64 set" where
  "writeTxs b = set (inlineTxs b) \<union> overflowTxs b"

text \<open>The representation invariant of the tally.\<close>

definition tallyInv :: "Boundary \<Rightarrow> bool" where
  "tallyInv b \<longleftrightarrow>
     length (bWriteTxInline b) = inlineWriteTxCap \<and> distinct (inlineTxs b) \<and>
     finite (overflowTxs b) \<and> set (inlineTxs b) \<inter> overflowTxs b = {} \<and>
     bWriteTxN b = length (inlineTxs b) + card (overflowTxs b)"

lemma tallyInv_new [simp]: "tallyInv (newBoundary d p n)"
  by (simp add: tallyInv_def newBoundary_def inlineTxs_def overflowTxs_def)

lemma writeTxs_new [simp]: "writeTxs (newBoundary d p n) = {}"
  by (simp add: writeTxs_def newBoundary_def inlineTxs_def overflowTxs_def)

lemma noteWriteTx_cases:
  assumes "tallyInv b"
  shows "noteWriteTx t b =
    (if t \<in> writeTxs b then b
     else if bWriteTxN b < inlineWriteTxCap
     then b\<lparr>bWriteTxInline := (bWriteTxInline b)[bWriteTxN b := t], bWriteTxN := bWriteTxN b + 1\<rparr>
     else b\<lparr>bWriteTxOverflow := Some (insert t (overflowTxs b)), bWriteTxN := bWriteTxN b + 1\<rparr>)"
proof -
  have "take (if bWriteTxN b > inlineWriteTxCap then inlineWriteTxCap else bWriteTxN b)
      (bWriteTxInline b) = inlineTxs b"
    using assms by (simp add: inlineTxs_def tallyInv_def)
  then show ?thesis
    by (auto simp: noteWriteTx_def writeTxs_def overflowTxs_def Let_def split: option.splits)
qed

lemma tallyInv_overflow_empty: "tallyInv b \<Longrightarrow> bWriteTxN b < inlineWriteTxCap \<Longrightarrow> overflowTxs b = {}"
  by (auto simp: tallyInv_def inlineTxs_def)

interpretation tally: tx_counter tallyInv writeTxs noteWriteTx bWriteTxN
proof unfold_locales
  fix b :: Boundary and t :: u64
  assume inv: "tallyInv b"
  show "bWriteTxN b = card (writeTxs b)" and "finite (writeTxs b)"
    using inv by (simp_all add: tallyInv_def writeTxs_def card_Un_disjoint distinct_card)
  show "writeTxs (noteWriteTx t b) = insert t (writeTxs b)"
    and "tallyInv (noteWriteTx t b)"
  proof -
    consider "t \<in> writeTxs b" | "t \<notin> writeTxs b" "bWriteTxN b < inlineWriteTxCap"
      | "t \<notin> writeTxs b" "inlineWriteTxCap \<le> bWriteTxN b" by linarith
    then have "writeTxs (noteWriteTx t b) = insert t (writeTxs b) \<and> tallyInv (noteWriteTx t b)"
    proof cases
      case 1
      with inv show ?thesis by (simp add: noteWriteTx_cases insert_absorb)
    next
      case 2
      let ?b = "b\<lparr>bWriteTxInline := (bWriteTxInline b)[bWriteTxN b := t], bWriteTxN := bWriteTxN b + 1\<rparr>"
      have len: "length (bWriteTxInline b) = inlineWriteTxCap" using inv by (simp add: tallyInv_def)
      with 2 have "inlineTxs ?b = inlineTxs b @ [t]"
        by (simp add: inlineTxs_def take_Suc_conv_app_nth)
      moreover have "overflowTxs ?b = {}" "overflowTxs b = {}"
        using tallyInv_overflow_empty [OF inv 2(2)] by (simp_all add: overflowTxs_def)
      ultimately show ?thesis
        using 2 inv len by (simp add: noteWriteTx_cases writeTxs_def tallyInv_def)
    next
      case 3
      let ?b = "b\<lparr>bWriteTxOverflow := Some (insert t (overflowTxs b)), bWriteTxN := bWriteTxN b + 1\<rparr>"
      have "length (bWriteTxInline b) \<le> bWriteTxN b"
        using 3 inv by (simp add: tallyInv_def)
      then have "inlineTxs ?b = inlineTxs b" "overflowTxs ?b = insert t (overflowTxs b)"
        by (simp_all add: inlineTxs_def overflowTxs_def)
      with 3 inv show ?thesis
        by (auto simp add: noteWriteTx_cases writeTxs_def tallyInv_def)
    qed
    then show "writeTxs (noteWriteTx t b) = insert t (writeTxs b)"
      and "tallyInv (noteWriteTx t b)" by simp_all
  qed
qed

section \<open>Operations on a live boundary\<close>

text \<open>The locked part of \<open>Detector.record\<close>. The capacity the code gives the statement buffer on its
  first append, \<open>min initialStatementCap maxRecordedStatements\<close>, is not observable; it is
  positive there because the buffer is only made under \<open>len < maxRecordedStatements\<close>.\<close>

definition recordIn :: "int \<Rightarrow> StatementRecord \<Rightarrow> Boundary \<Rightarrow> Boundary" where
  "recordIn maxRecorded rec b =
     (if bFinished b then b else
      let b1 = (if int (length (bStatements b)) < maxRecorded
                then b\<lparr>bStatements := bStatements b @ [rec]\<rparr>
                else b\<lparr>bTruncated := bTruncated b + 1\<rparr>)
      in if srKind rec = KindWrite then
           (if srTxID rec \<noteq> 0 then noteWriteTx (srTxID rec) b1
            else b1\<lparr>bAutoCommitWrites := bAutoCommitWrites b1 + 1\<rparr>)
         else b1)"

definition statementBufferCap :: "int \<Rightarrow> int" where
  "statementBufferCap maxRecorded =
     (if initialStatementCap > maxRecorded then maxRecorded else initialStatementCap)"

lemma statementBufferCap_positive: "int n < maxRecorded \<Longrightarrow> 0 < statementBufferCap maxRecorded"
  by (simp add: statementBufferCap_def initialStatementCap_def)

datatype BoundaryOption =
    AllowNonAtomic string "int list"
  | WithBoundaryAttrs "BoundaryAttr list"

fun applyOption :: "BoundaryOption \<Rightarrow> Boundary \<Rightarrow> Boundary" where
  "applyOption (AllowNonAtomic reason units) b =
     b\<lparr>bAllowed := True, bAllowReason := reason, bAllowUnits := units\<rparr>"
| "applyOption (WithBoundaryAttrs attrs) b = b\<lparr>bAttrs := bAttrs b @ attrs\<rparr>"

text \<open>The locked part of \<open>AllowNonAtomicHere\<close>.\<close>

definition markHere :: "string \<Rightarrow> int list \<Rightarrow> Boundary \<Rightarrow> Boundary" where
  "markHere reason units b =
     (if bFinished b then b
      else b\<lparr>bAllowed := True, bAllowReason := reason, bAllowUnits := units\<rparr>)"

section \<open>Finishing\<close>

text \<open>What \<open>finishBoundary\<close> reads under the lock; \<open>None\<close> for a boundary finished before.\<close>

record FinishSnap =
  fsUnits :: int
  fsAllowed :: bool
  fsAllowReason :: string
  fsAllowUnits :: "int list"

definition boundaryUnits :: "Boundary \<Rightarrow> nat" where
  "boundaryUnits b = bWriteTxN b + bAutoCommitWrites b"

definition finishLock :: "Boundary \<Rightarrow> Boundary \<times> FinishSnap option" where
  "finishLock b =
     (if bFinished b then (b, None)
      else (b\<lparr>bFinished := True\<rparr>,
            Some \<lparr>fsUnits = int (boundaryUnits b), fsAllowed = bAllowed b,
                  fsAllowReason = bAllowReason b, fsAllowUnits = bAllowUnits b\<rparr>))"

text \<open>The unlocked rest of \<open>finishBoundary\<close>: the allowlist after the call (if the detector has one)
  and the report to deliver, if any. It reads the immutable fields, the statements and the
  truncation count of the boundary without the lock.\<close>

definition finishOutcome ::
    "FinishSnap \<Rightarrow> Boundary \<Rightarrow> Allowlist option \<Rightarrow> Allowlist option \<times> Report option" where
  "finishOutcome snap b al =
     (if fsUnits snap < 2 then
        (al, if fsAllowed snap
             then Some (ReportStaleAllow \<lparr>saBoundary = bName b, saReason = fsAllowReason snap,
                                           saWriteUnits = fsUnits snap\<rparr>)
             else None)
      else if fsAllowed snap \<and> coversWriteUnits (fsAllowUnits snap) (fsUnits snap) then (al, None)
      else
        let declinedUnits = (if fsAllowed snap then fsAllowUnits snap else []);
            (al', allowed, declined) =
              (case al of
                 None \<Rightarrow> (None, False, [])
               | Some a \<Rightarrow> (case allowlistAllow (bName b) (fsUnits snap) a of
                     (a', ok, ds) \<Rightarrow> (Some a', ok, ds)))
        in if allowed then (al', None)
           else (al', Some (ReportViolation
             \<lparr>vBoundary = bName b, vWriteUnits = fsUnits snap, vStatements = bStatements b,
              vTruncatedStatements = int (bTruncated b),
              vAllowedWriteUnits = (if declinedUnits = [] then declined else declinedUnits),
              vAttrs = bAttrs b\<rparr>)))"

section \<open>Recording: what a run of statements leaves behind\<close>

definition isWriteTx :: "StatementRecord \<Rightarrow> bool" where
  "isWriteTx r \<longleftrightarrow> isWriteRecord r \<and> srTxID r \<noteq> 0"

definition isAutoCommitWrite :: "StatementRecord \<Rightarrow> bool" where
  "isAutoCommitWrite r \<longleftrightarrow> isWriteRecord r \<and> srTxID r = 0"

text \<open>The documented rule: one unit per distinct transaction that contained a write, one per
  auto-commit write.\<close>

definition writeUnitsOf :: "StatementRecord list \<Rightarrow> nat" where
  "writeUnitsOf rs =
     card (srTxID ` set (filter isWriteTx rs)) + length (filter isAutoCommitWrite rs)"

lemma noteWriteTx_frame [frame_rules]:
  "bName (noteWriteTx t b) = bName b" "bAttrs (noteWriteTx t b) = bAttrs b"
  "bDet (noteWriteTx t b) = bDet b" "bParent (noteWriteTx t b) = bParent b"
  "bAllowed (noteWriteTx t b) = bAllowed b" "bAllowReason (noteWriteTx t b) = bAllowReason b"
  "bAllowUnits (noteWriteTx t b) = bAllowUnits b" "bFinished (noteWriteTx t b) = bFinished b"
  "bStatements (noteWriteTx t b) = bStatements b" "bTruncated (noteWriteTx t b) = bTruncated b"
  "bAutoCommitWrites (noteWriteTx t b) = bAutoCommitWrites b"
  by (simp_all add: noteWriteTx_def Let_def)

lemma recordIn_frame [frame_rules]:
  "bName (recordIn m r b) = bName b" "bAttrs (recordIn m r b) = bAttrs b"
  "bDet (recordIn m r b) = bDet b" "bParent (recordIn m r b) = bParent b"
  "bAllowed (recordIn m r b) = bAllowed b" "bAllowReason (recordIn m r b) = bAllowReason b"
  "bAllowUnits (recordIn m r b) = bAllowUnits b" "bFinished (recordIn m r b) = bFinished b"
  by (simp_all add: recordIn_def Let_def frame_rules)

lemma tally_fields:
  assumes "bWriteTxInline b' = bWriteTxInline b" "bWriteTxN b' = bWriteTxN b"
    "bWriteTxOverflow b' = bWriteTxOverflow b"
  shows "tallyInv b' = tallyInv b" and "writeTxs b' = writeTxs b"
  using assms by (simp_all add: tallyInv_def writeTxs_def inlineTxs_def overflowTxs_def)

lemma recordIn_tally:
  assumes "tallyInv b" and "\<not> bFinished b"
  shows "tallyInv (recordIn m r b)"
    and "writeTxs (recordIn m r b) = (if isWriteTx r then insert (srTxID r) (writeTxs b) else writeTxs b)"
    and "bAutoCommitWrites (recordIn m r b)
      = bAutoCommitWrites b + (if isAutoCommitWrite r then 1 else 0)"
proof -
  let ?b1 = "if int (length (bStatements b)) < m then b\<lparr>bStatements := bStatements b @ [r]\<rparr>
      else b\<lparr>bTruncated := bTruncated b + 1\<rparr>"
  have b1: "tallyInv ?b1" "writeTxs ?b1 = writeTxs b" "bAutoCommitWrites ?b1 = bAutoCommitWrites b"
    using assms(1) tally_fields [of ?b1 b] by simp_all
  have b2: "tallyInv (?b1\<lparr>bAutoCommitWrites := n\<rparr>)"
    "writeTxs (?b1\<lparr>bAutoCommitWrites := n\<rparr>) = writeTxs b" for n
    using b1 tally_fields [of "?b1\<lparr>bAutoCommitWrites := n\<rparr>" ?b1] by simp_all
  have rec: "recordIn m r b = (if isWriteTx r then noteWriteTx (srTxID r) ?b1
      else if isAutoCommitWrite r then ?b1\<lparr>bAutoCommitWrites := bAutoCommitWrites ?b1 + 1\<rparr> else ?b1)"
    using assms(2) by (simp only: recordIn_def Let_def isWriteTx_def isAutoCommitWrite_def
        isWriteRecord_def if_False) auto
  have "\<not> (isWriteTx r \<and> isAutoCommitWrite r)"
    by (simp add: isWriteTx_def isAutoCommitWrite_def)
  then show "tallyInv (recordIn m r b)"
    and "writeTxs (recordIn m r b) = (if isWriteTx r then insert (srTxID r) (writeTxs b) else writeTxs b)"
    and "bAutoCommitWrites (recordIn m r b)
      = bAutoCommitWrites b + (if isAutoCommitWrite r then 1 else 0)"
    using b1 b2 unfolding rec by (auto simp: tally.inv_note tally.txs_note frame_rules)
qed

lemma recordIn_statements:
  assumes "\<not> bFinished b"
  shows "bStatements (recordIn m r b)
      = (if int (length (bStatements b)) < m then bStatements b @ [r] else bStatements b)"
    and "bTruncated (recordIn m r b)
      = (if int (length (bStatements b)) < m then bTruncated b else bTruncated b + 1)"
  using assms by (simp_all add: recordIn_def Let_def frame_rules)

text \<open>A live boundary sees two kinds of events: a recorded statement (with the recording cap of the
  detector that recorded it) and an allow mark.\<close>

datatype BoundaryEvent =
    Recorded int StatementRecord
  | Marked string "int list"

fun applyEvent :: "BoundaryEvent \<Rightarrow> Boundary \<Rightarrow> Boundary" where
  "applyEvent (Recorded m r) b = recordIn m r b"
| "applyEvent (Marked reason units) b = markHere reason units b"

definition recordsOf :: "BoundaryEvent list \<Rightarrow> StatementRecord list" where
  "recordsOf evs = [r. Recorded m r \<leftarrow> evs]"

fun lastMark :: "(string \<times> int list) option \<Rightarrow> BoundaryEvent list \<Rightarrow> (string \<times> int list) option" where
  "lastMark mk [] = mk"
| "lastMark mk (Recorded m r # evs) = lastMark mk evs"
| "lastMark mk (Marked reason units # evs) = lastMark (Some (reason, units)) evs"

definition boundaryMark :: "Boundary \<Rightarrow> (string \<times> int list) option" where
  "boundaryMark b = (if bAllowed b then Some (bAllowReason b, bAllowUnits b) else None)"

lemma recordsOf_simps [simp]:
  "recordsOf [] = []"
  "recordsOf (Recorded m r # evs) = r # recordsOf evs"
  "recordsOf (Marked x y # evs) = recordsOf evs"
  by (simp_all add: recordsOf_def)

lemma markHere_frame [frame_rules]:
  "bName (markHere x y b) = bName b" "bAttrs (markHere x y b) = bAttrs b"
  "bDet (markHere x y b) = bDet b" "bParent (markHere x y b) = bParent b"
  "bFinished (markHere x y b) = bFinished b" "bStatements (markHere x y b) = bStatements b"
  "bTruncated (markHere x y b) = bTruncated b"
  "bAutoCommitWrites (markHere x y b) = bAutoCommitWrites b"
  "writeTxs (markHere x y b) = writeTxs b" "tallyInv (markHere x y b) = tallyInv b"
  using tally_fields [of "markHere x y b" b] by (simp_all add: markHere_def)

lemma applyEvent_frame [frame_rules]:
  "bName (applyEvent e b) = bName b" "bAttrs (applyEvent e b) = bAttrs b"
  "bDet (applyEvent e b) = bDet b" "bParent (applyEvent e b) = bParent b"
  "bFinished (applyEvent e b) = bFinished b"
  by (cases e; simp add: frame_rules)+

lemma applyEvents_frame [frame_rules]:
  "bName (fold applyEvent evs b) = bName b" "bAttrs (fold applyEvent evs b) = bAttrs b"
  "bDet (fold applyEvent evs b) = bDet b" "bParent (fold applyEvent evs b) = bParent b"
  "bFinished (fold applyEvent evs b) = bFinished b"
  by (induction evs arbitrary: b; simp add: frame_rules)+

lemma applyEvent_finished: "bFinished b \<Longrightarrow> applyEvent e b = b"
  by (cases e) (simp_all add: recordIn_def markHere_def)

lemma applyEvents_finished: "bFinished b \<Longrightarrow> fold applyEvent evs b = b"
  by (induction evs) (simp_all add: applyEvent_finished)

lemma applyEvents_tally:
  assumes "tallyInv b" and "\<not> bFinished b"
  shows "tallyInv (fold applyEvent evs b)"
    and "writeTxs (fold applyEvent evs b)
      = writeTxs b \<union> srTxID ` set (filter isWriteTx (recordsOf evs))"
    and "bAutoCommitWrites (fold applyEvent evs b)
      = bAutoCommitWrites b + length (filter isAutoCommitWrite (recordsOf evs))"
  using assms
proof (induction evs arbitrary: b)
  case (Cons e evs)
  { case 1 with Cons(1) show ?case by (cases e) (simp_all add: frame_rules recordIn_tally)
  next case 2 with Cons(2) show ?case by (cases e) (simp_all add: frame_rules recordIn_tally)
  next case 3 with Cons(3) show ?case by (cases e) (simp_all add: frame_rules recordIn_tally) }
qed simp_all

lemma applyEvents_units:
  assumes "tallyInv b" and "\<not> bFinished b" and "writeTxs b = {}" and "bAutoCommitWrites b = 0"
  shows "boundaryUnits (fold applyEvent evs b) = writeUnitsOf (recordsOf evs)"
  using assms
  by (simp add: boundaryUnits_def writeUnitsOf_def tally.count_txs applyEvents_tally)

lemma applyEvents_mark:
  "\<not> bFinished b \<Longrightarrow> boundaryMark (fold applyEvent evs b) = lastMark (boundaryMark b) evs"
proof (induction evs arbitrary: b)
  case (Cons e evs b)
  have "boundaryMark (applyEvent e b) = lastMark (boundaryMark b) [e]"
    using Cons.prems by (cases e) (simp_all add: boundaryMark_def markHere_def frame_rules)
  moreover have "lastMark (boundaryMark b) (e # evs) = lastMark (lastMark (boundaryMark b) [e]) evs"
    by (cases e) simp_all
  ultimately show ?case
    using Cons by (simp add: frame_rules)
qed simp

lemma applyEvents_statements:
  assumes "\<not> bFinished b" and "list_all (\<lambda>e. \<exists>r x y. e = Recorded m r \<or> e = Marked x y) evs"
  shows "bStatements (fold applyEvent evs b)
      = bStatements b @ take (nat (m - int (length (bStatements b)))) (recordsOf evs)"
    and "bTruncated (fold applyEvent evs b)
      = bTruncated b + (length (recordsOf evs) - nat (m - int (length (bStatements b))))"
  using assms
proof (induction evs arbitrary: b)
  case (Cons e evs)
  have sub: "int k < m \<Longrightarrow> nat (m - int k) = Suc (nat (m - (1 + int k)))" for k
    by simp
  have take_sub: "int k < m \<Longrightarrow>
      take (nat (m - int k)) (r # rs) = r # take (nat (m - (1 + int k))) rs"
    for k r and rs :: "StatementRecord list"
    by (simp only: sub take_Suc_Cons)
  { case 1
    with Cons(1) [of "applyEvent e b"] show ?case
      by (auto simp: frame_rules recordIn_statements take_sub)
  next
    case 2
    with Cons(2) [of "applyEvent e b"] show ?case
      by (auto simp: frame_rules recordIn_statements sub) }
qed simp_all

section \<open>The verdict\<close>

text \<open>\<open>finishBoundary\<close> with nothing in between its locked and its unlocked part.\<close>

definition finishNow ::
    "Boundary \<Rightarrow> Allowlist option \<Rightarrow> Boundary \<times> Allowlist option \<times> Report option" where
  "finishNow b al =
     (case finishLock b of
        (b', None) \<Rightarrow> (b', al, None)
      | (b', Some snap) \<Rightarrow> (b', finishOutcome snap b' al))"

text \<open>The documented verdict: two or more units, and neither the boundary's mark nor an allowlist
  entry covers this count.\<close>

definition markCovers :: "(string \<times> int list) option \<Rightarrow> nat \<Rightarrow> bool" where
  "markCovers mk units \<longleftrightarrow> (case mk of None \<Rightarrow> False | Some (_, us) \<Rightarrow> us = [] \<or> int units \<in> set us)"

definition allowlistCovers :: "Allowlist option \<Rightarrow> string \<Rightarrow> nat \<Rightarrow> bool" where
  "allowlistCovers al name units \<longleftrightarrow>
     (case al of None \<Rightarrow> False | Some a \<Rightarrow> allowlistSuppresses a (name, int units))"

text \<open>The counts that travel with a violation: those of the mark if there is one, else those of the
  allowlist entry.\<close>

definition declinedCounts :: "(string \<times> int list) option \<Rightarrow> Allowlist option \<Rightarrow> string \<Rightarrow> int list" where
  "declinedCounts mk al name =
     (case mk of Some (_, us) \<Rightarrow> us
      | None \<Rightarrow> (case al of None \<Rightarrow> []
          | Some a \<Rightarrow> (case gm_get a name of None \<Rightarrow> [] | Some e \<Rightarrow> aeUnits e)))"

definition expectedReport ::
    "string \<Rightarrow> BoundaryAttr list \<Rightarrow> nat \<Rightarrow> (string \<times> int list) option \<Rightarrow> Allowlist option \<Rightarrow>
     StatementRecord list \<Rightarrow> nat \<Rightarrow> Report option" where
  "expectedReport name attrs units mk al stmts truncated =
     (if units < 2 then
        (case mk of None \<Rightarrow> None
         | Some (reason, _) \<Rightarrow> Some (ReportStaleAllow
             \<lparr>saBoundary = name, saReason = reason, saWriteUnits = int units\<rparr>))
      else if markCovers mk units \<or> allowlistCovers al name units then None
      else Some (ReportViolation
        \<lparr>vBoundary = name, vWriteUnits = int units, vStatements = stmts,
         vTruncatedStatements = int truncated, vAllowedWriteUnits = declinedCounts mk al name,
         vAttrs = attrs\<rparr>))"

lemma finishNow_report:
  assumes "\<not> bFinished b"
  shows "snd (snd (finishNow b al)) = expectedReport (bName b) (bAttrs b) (boundaryUnits b)
    (boundaryMark b) al (bStatements b) (bTruncated b)"
proof -
  have covers: "coversWriteUnits us (int n) \<longleftrightarrow> us = [] \<or> int n \<in> set us" for us n
    by (rule coversWriteUnits_iff)
  show ?thesis
    using assms
    by (auto simp: finishNow_def finishLock_def finishOutcome_def expectedReport_def
        boundaryMark_def markCovers_def allowlistCovers_def declinedCounts_def
        allowlistSuppresses_def allowlistAllow_def covers split: option.splits if_splits)
qed

text \<open>What the options of \<open>StartBoundary\<close> leave on the boundary.\<close>

definition optionMark :: "BoundaryOption list \<Rightarrow> (string \<times> int list) option" where
  "optionMark opts = lastMark None [Marked reason units. AllowNonAtomic reason units \<leftarrow> opts]"

definition optionAttrs :: "BoundaryOption list \<Rightarrow> BoundaryAttr list" where
  "optionAttrs opts = concat [attrs. WithBoundaryAttrs attrs \<leftarrow> opts]"

lemma applyOptions_frame [frame_rules]:
  "bName (fold applyOption opts b) = bName b" "bDet (fold applyOption opts b) = bDet b"
  "bParent (fold applyOption opts b) = bParent b" "bFinished (fold applyOption opts b) = bFinished b"
  "bStatements (fold applyOption opts b) = bStatements b"
  "bTruncated (fold applyOption opts b) = bTruncated b"
  "bAutoCommitWrites (fold applyOption opts b) = bAutoCommitWrites b"
  "writeTxs (fold applyOption opts b) = writeTxs b" "tallyInv (fold applyOption opts b) = tallyInv b"
proof -
  have one: "bName (applyOption x b) = bName b" "bDet (applyOption x b) = bDet b"
    "bParent (applyOption x b) = bParent b" "bFinished (applyOption x b) = bFinished b"
    "bStatements (applyOption x b) = bStatements b" "bTruncated (applyOption x b) = bTruncated b"
    "bAutoCommitWrites (applyOption x b) = bAutoCommitWrites b"
    "writeTxs (applyOption x b) = writeTxs b" "tallyInv (applyOption x b) = tallyInv b" for x b
    using tally_fields [of "applyOption x b" b] by (cases x; simp)+
  show "bName (fold applyOption opts b) = bName b" "bDet (fold applyOption opts b) = bDet b"
    "bParent (fold applyOption opts b) = bParent b" "bFinished (fold applyOption opts b) = bFinished b"
    "bStatements (fold applyOption opts b) = bStatements b"
    "bTruncated (fold applyOption opts b) = bTruncated b"
    "bAutoCommitWrites (fold applyOption opts b) = bAutoCommitWrites b"
    "writeTxs (fold applyOption opts b) = writeTxs b" "tallyInv (fold applyOption opts b) = tallyInv b"
    by (induction opts arbitrary: b; simp add: one)+
qed

lemma applyOptions_attrs: "bAttrs (fold applyOption opts b) = bAttrs b @ optionAttrs opts"
proof (induction opts arbitrary: b)
  case (Cons x opts)
  then show ?case by (cases x) (simp_all add: optionAttrs_def)
qed (simp add: optionAttrs_def)

lemma applyOptions_mark:
  "boundaryMark (fold applyOption opts b)
    = lastMark (boundaryMark b) [Marked reason units. AllowNonAtomic reason units \<leftarrow> opts]"
proof (induction opts arbitrary: b)
  case (Cons x opts)
  then show ?case by (cases x) (simp_all add: boundaryMark_def)
qed simp

lemma newBoundary_fields [simp]:
  "bName (newBoundary d p n) = n" "bDet (newBoundary d p n) = d" "bParent (newBoundary d p n) = p"
  "bAttrs (newBoundary d p n) = []" "\<not> bFinished (newBoundary d p n)"
  "bStatements (newBoundary d p n) = []" "bTruncated (newBoundary d p n) = 0"
  "bAutoCommitWrites (newBoundary d p n) = 0" "boundaryMark (newBoundary d p n) = None"
  by (simp_all add: newBoundary_def boundaryMark_def)

lemma finishNow_finishes: "bFinished (fst (finishNow b al))"
  by (simp add: finishNow_def finishLock_def)

lemma finishNow_again: "bFinished b \<Longrightarrow> finishNow b al = (b, al, None)"
  by (simp add: finishNow_def finishLock_def)

text \<open>A fresh boundary that only records.\<close>

lemma recordIn_applyEvent: "fold (recordIn m) rs b = fold applyEvent (map (Recorded m) rs) b"
  by (induction rs arbitrary: b) simp_all

lemma recordsOf_Recorded [simp]: "recordsOf (map (Recorded m) rs) = rs"
  by (induction rs) simp_all

lemma recording_units: "boundaryUnits (fold (recordIn m) rs (newBoundary d p n)) = writeUnitsOf rs"
  by (simp add: recordIn_applyEvent applyEvents_units)

section \<open>Properties\<close>

text \<open>C16. The tally with four inline slots and an overflow map counts distinct transactions: after
  any sequence of write transactions, repetitions included, \<open>writeTxN\<close> is the number of different
  identities.\<close>

theorem tally_counts_distinct_transactions:
  "bWriteTxN (fold noteWriteTx ts (newBoundary d p n)) = card (set ts)"
  by (simp add: tally.count_notes)

text \<open>C15. Recording never loses count: whatever the recording cap (zero and negative caps
  included), the write units of a boundary are those of all its statements, the recorded
  statements are the first ones up to the cap, and the rest are counted as truncated.\<close>

theorem recording_counts_beyond_the_cap:
  "boundaryUnits (fold (recordIn m) rs (newBoundary d p n)) = writeUnitsOf rs \<and>
   bStatements (fold (recordIn m) rs (newBoundary d p n)) = take (nat m) rs \<and>
   bTruncated (fold (recordIn m) rs (newBoundary d p n)) = length rs - nat m"
  using applyEvents_statements [of "newBoundary d p n" m "map (Recorded m) rs"]
  by (simp add: recording_units) (simp add: recordIn_applyEvent list_all_iff)

text \<open>C2. The verdict, from the history alone: with any options, statements and marks in any order,
  finishing reports a violation exactly when the statements span two or more write units and
  neither the last mark nor the allowlist covers that count; a marked boundary with fewer than two
  units is reported as a stale allow; nothing else is reported. The violation carries the unit
  count, the statements, the attributes and the declined counts.\<close>

theorem finish_verdict:
  "(let b = fold applyEvent evs (fold applyOption opts (newBoundary d p n)) in
    snd (snd (finishNow b al)) =
      expectedReport n (optionAttrs opts) (writeUnitsOf (recordsOf evs))
        (lastMark (optionMark opts) evs) al (bStatements b) (bTruncated b))"
  by (simp add: Let_def finishNow_report frame_rules applyOptions_attrs applyEvents_units
      applyEvents_mark applyOptions_mark optionMark_def)

text \<open>Finishing is final: a second \<open>Finish\<close> reports nothing and consumes no allowlist entry, and
  statements and marks that arrive after the first one leave the boundary as it is.\<close>

lemma finish_is_final:
  "finishNow (fold applyEvent evs (fst (finishNow b al))) al' = (fst (finishNow b al), al', None) \<and>
   fold applyEvent evs (fst (finishNow b al)) = fst (finishNow b al)"
  by (simp add: applyEvents_finished finishNow_again finishNow_finishes)

text \<open>The two allow mechanisms decide identically: on an unmarked boundary with two or more
  units, marking it with \<open>AllowNonAtomicHere reason counts\<close> yields the same report, field by field,
  as an allowlist entry for its name with the same counts.\<close>

lemma mark_and_allowlist_agree:
  assumes "\<not> bFinished b" and "\<not> bAllowed b" and "2 \<le> boundaryUnits b"
  shows "snd (snd (finishNow (markHere reason counts b) None))
    = snd (snd (finishNow b (Some (allowlistAdd (bName b) reason counts a))))"
proof -
  have "boundaryUnits (markHere reason counts b) = boundaryUnits b"
    by (simp add: boundaryUnits_def markHere_def)
  moreover have "boundaryMark (markHere reason counts b) = Some (reason, counts)"
    using assms by (simp add: boundaryMark_def markHere_def)
  moreover have "boundaryMark b = None" using assms by (simp add: boundaryMark_def)
  ultimately show ?thesis
    using assms by (simp add: finishNow_report frame_rules expectedReport_def markCovers_def
        allowlistCovers_def declinedCounts_def allowlistSuppresses_def allowlistAdd_def gm_get_put
        coversWriteUnits_iff)
qed

end
