(* ===== verification/Detector.thy ===== *)
theory Detector
  imports Boundary
begin

text \<open>
  \<open>detector.go\<close>: the detector, its options, and the operations that reach a live boundary through a
  context: \<open>StartBoundary\<close>, \<open>InBoundary\<close>, \<open>record\<close>, \<open>AllowNonAtomicHere\<close> and \<open>Finish\<close>.

  The state is a \<open>World\<close>: the detectors of the process (a \<open>*Detector\<close> is a number), the heap of
  boundaries (a \<open>*Boundary\<close> is a number, allocated in order), the allowlists (a \<open>*Allowlist\<close> may be
  shared by detectors) and the calls made on reporters, in order. A reporter is an external object
  known by a reference and the interfaces it implements; the loops over \<open>d.reporters\<close> append one
  call for each reporter that implements the interface of the report. \<open>time.Now()\<close> is the argument
  \<open>now\<close>.
\<close>

section \<open>State\<close>

record Reporter =
  rRef :: nat
  rIface :: ReporterIface

type_synonym Classifier = "string \<Rightarrow> StatementKind"

record Detector =
  dReporters :: "Reporter list"
  dAllowlist :: "nat option"
  dClassify :: Classifier
  dReportUnbounded :: bool
  dReportNested :: bool
  dMaxRecordedStatements :: int
  dAttrsFunc :: "(Ctx \<Rightarrow> BoundaryAttr list) option"
  dTxSeq :: u64

type_synonym ReporterCall = "nat \<times> Ctx \<times> Report"

record World =
  wDets :: "nat \<Rightarrow> Detector"
  wHeap :: "BoundaryRef \<Rightarrow> Boundary"
  wNext :: BoundaryRef
  wAllowlists :: "nat \<Rightarrow> Allowlist"
  wCalls :: "ReporterCall list"

section \<open>Construction\<close>

type_synonym DetectorOption = "Detector \<Rightarrow> Detector"

definition WithReporter :: "Reporter list \<Rightarrow> DetectorOption" where
  "WithReporter rs d = d\<lparr>dReporters := dReporters d @ rs\<rparr>"

definition WithAllowlist :: "nat \<Rightarrow> DetectorOption" where
  "WithAllowlist a d = d\<lparr>dAllowlist := Some a\<rparr>"

definition WithClassifier :: "Classifier \<Rightarrow> DetectorOption" where
  "WithClassifier c d = d\<lparr>dClassify := c\<rparr>"

definition WithUnboundedWriteDetection :: DetectorOption where
  "WithUnboundedWriteDetection d = d\<lparr>dReportUnbounded := True\<rparr>"

definition WithNestedBoundaryDetection :: DetectorOption where
  "WithNestedBoundaryDetection d = d\<lparr>dReportNested := True\<rparr>"

definition WithMaxRecordedStatements :: "int \<Rightarrow> DetectorOption" where
  "WithMaxRecordedStatements n d = d\<lparr>dMaxRecordedStatements := n\<rparr>"

definition WithBoundaryAttrsFunc :: "(Ctx \<Rightarrow> BoundaryAttr list) \<Rightarrow> DetectorOption" where
  "WithBoundaryAttrsFunc f d = d\<lparr>dAttrsFunc := Some f\<rparr>"

definition New :: "DetectorOption list \<Rightarrow> Detector" where
  "New opts = fold (\<lambda>opt d. opt d) opts
     \<lparr>dReporters = [], dAllowlist = None, dClassify = DefaultClassifier,
      dReportUnbounded = False, dReportNested = False, dMaxRecordedStatements = 200,
      dAttrsFunc = None, dTxSeq = 0\<rparr>"

section \<open>Reporting\<close>

definition notify :: "Detector \<Rightarrow> Ctx \<Rightarrow> Report \<Rightarrow> ReporterCall list" where
  "notify d ctx rep =
     map (\<lambda>r. (rRef r, ctx, rep)) (filter (\<lambda>r. implements (rIface r) rep) (dReporters d))"

definition callReporters :: "Detector \<Rightarrow> Ctx \<Rightarrow> Report \<Rightarrow> World \<Rightarrow> World" where
  "callReporters d ctx rep w = w\<lparr>wCalls := wCalls w @ notify d ctx rep\<rparr>"

section \<open>Transaction identities\<close>

text \<open>\<open>nextTxID\<close>: the sequence number is incremented atomically and returned.\<close>

definition nextTxID :: "nat \<Rightarrow> World \<Rightarrow> World \<times> u64" where
  "nextTxID d w =
     (let n = dTxSeq (wDets w d) + 1
      in (w\<lparr>wDets := (wDets w)(d := (wDets w d)\<lparr>dTxSeq := n\<rparr>)\<rparr>, n))"

section \<open>Boundaries\<close>

definition boundaryCtx :: "World \<Rightarrow> BoundaryRef \<Rightarrow> Ctx" where
  "boundaryCtx w r = CtxBoundary r (bParent (wHeap w r))"

definition StartBoundary ::
    "nat \<Rightarrow> Ctx \<Rightarrow> string \<Rightarrow> BoundaryOption list \<Rightarrow> int \<Rightarrow> World \<Rightarrow> World \<times> Ctx \<times> BoundaryRef" where
  "StartBoundary d ctx name opts now w =
     (let D = wDets w d;
          w1 = (if dReportNested D then
                  (case boundaryOf ctx of
                     None \<Rightarrow> w
                   | Some outer \<Rightarrow> callReporters D ctx (ReportNestedBoundary
                       \<lparr>nbOuter = bName (wHeap w outer), nbInner = name, nbTime = now\<rparr>) w)
                else w);
          b0 = newBoundary d ctx name;
          b1 = (case dAttrsFunc D of None \<Rightarrow> b0 | Some f \<Rightarrow> b0\<lparr>bAttrs := bAttrs b0 @ f ctx\<rparr>);
          b = fold applyOption opts b1;
          r = wNext w1
      in (w1\<lparr>wHeap := (wHeap w1)(r := b), wNext := r + 1\<rparr>, CtxBoundary r ctx, r))"

text \<open>\<open>Detector.record\<close>: the statement goes to the innermost boundary of its context, or is reported
  as an unbounded write.\<close>

definition recordStatement ::
    "nat \<Rightarrow> Ctx \<Rightarrow> string \<Rightarrow> StatementKind \<Rightarrow> u64 \<Rightarrow> int \<Rightarrow> World \<Rightarrow> World" where
  "recordStatement d ctx query kind txID now w =
     (let D = wDets w d;
          rec = \<lparr>srQuery = query, srKind = kind, srTxID = txID, srTime = now, srAttrs = []\<rparr>
      in case boundaryOf ctx of
           None \<Rightarrow>
             if kind = KindWrite \<and> dReportUnbounded D then
               callReporters D ctx (ReportUnboundedWrite
                 (case dAttrsFunc D of None \<Rightarrow> rec | Some f \<Rightarrow> rec\<lparr>srAttrs := f ctx\<rparr>)) w
             else w
         | Some r \<Rightarrow>
             w\<lparr>wHeap := (wHeap w)(r := recordIn (dMaxRecordedStatements D) rec (wHeap w r))\<rparr>)"

definition AllowNonAtomicHere :: "Ctx \<Rightarrow> string \<Rightarrow> int list \<Rightarrow> World \<Rightarrow> World" where
  "AllowNonAtomicHere ctx reason exactWriteUnits w =
     (case boundaryOf ctx of
        None \<Rightarrow> w
      | Some r \<Rightarrow> w\<lparr>wHeap := (wHeap w)(r := markHere reason exactWriteUnits (wHeap w r))\<rparr>)"

text \<open>The two halves of \<open>finishBoundary\<close>: what runs under the lock, and what runs after it.\<close>

definition finishBoundaryLock :: "BoundaryRef \<Rightarrow> World \<Rightarrow> World \<times> FinishSnap option" where
  "finishBoundaryLock r w =
     (let (b, snap) = finishLock (wHeap w r) in (w\<lparr>wHeap := (wHeap w)(r := b)\<rparr>, snap))"

definition finishBoundaryReport :: "BoundaryRef \<Rightarrow> FinishSnap \<Rightarrow> World \<Rightarrow> World" where
  "finishBoundaryReport r snap w =
     (let b = wHeap w r;
          D = wDets w (bDet b);
          al = (case dAllowlist D of None \<Rightarrow> None | Some a \<Rightarrow> Some (wAllowlists w a));
          (al', out) = finishOutcome snap b al;
          w1 = (case (dAllowlist D, al') of
                  (Some a, Some l) \<Rightarrow> w\<lparr>wAllowlists := (wAllowlists w)(a := l)\<rparr>
                | _ \<Rightarrow> w)
      in case out of None \<Rightarrow> w1 | Some rep \<Rightarrow> callReporters D (boundaryCtx w r) rep w1)"

definition finishBoundary :: "BoundaryRef \<Rightarrow> World \<Rightarrow> World" where
  "finishBoundary r w =
     (case finishBoundaryLock r w of
        (w1, None) \<Rightarrow> w1
      | (w1, Some snap) \<Rightarrow> finishBoundaryReport r snap w1)"

text \<open>\<open>InBoundary\<close>: the deferred \<open>Finish\<close> runs whether \<open>f\<close> returns an error or not. \<open>f\<close> is a closure: what
  it reads and writes besides the world is the state \<open>'s\<close>.\<close>

definition InBoundary ::
    "nat \<Rightarrow> Ctx \<Rightarrow> string \<Rightarrow> (Ctx \<Rightarrow> 's \<times> World \<Rightarrow> ('s \<times> World) \<times> 'e option) \<Rightarrow> BoundaryOption list \<Rightarrow> int \<Rightarrow>
     's \<times> World \<Rightarrow> ('s \<times> World) \<times> 'e option" where
  "InBoundary d ctx name f opts now sw =
     (let (s, w) = sw;
          (w1, ctx', r) = StartBoundary d ctx name opts now w;
          ((s2, w2), err) = f ctx' (s, w1)
      in ((s2, finishBoundary r w2), err))"

section \<open>Frame lemmas\<close>

lemma callReporters_frame [frame_rules]:
  "wDets (callReporters D c rep w) = wDets w" "wHeap (callReporters D c rep w) = wHeap w"
  "wNext (callReporters D c rep w) = wNext w"
  "wAllowlists (callReporters D c rep w) = wAllowlists w"
  "wCalls (callReporters D c rep w) = wCalls w @ notify D c rep"
  by (simp_all add: callReporters_def)

lemma StartBoundary_result:
  "StartBoundary d ctx name opts now w = (w', c, r) \<Longrightarrow> c = CtxBoundary r ctx \<and> r = wNext w"
  by (auto simp: StartBoundary_def Let_def frame_rules split: if_splits option.splits)

lemma StartBoundary_frame:
  assumes "StartBoundary d ctx name opts now w = (w', c, r)"
  shows "wDets w' = wDets w" and "wAllowlists w' = wAllowlists w" and "wNext w' = Suc (wNext w)"
    and "s \<noteq> wNext w \<Longrightarrow> wHeap w' s = wHeap w s"
    and "wHeap w' (wNext w) = fold applyOption opts
      (case dAttrsFunc (wDets w d) of None \<Rightarrow> newBoundary d ctx name
       | Some f \<Rightarrow> (newBoundary d ctx name)\<lparr>bAttrs := f ctx\<rparr>)"
  using assms
  by (auto simp: StartBoundary_def Let_def frame_rules split: if_splits option.splits)

lemma recordStatement_frame [frame_rules]:
  "wDets (recordStatement d c q k t now w) = wDets w"
  "wNext (recordStatement d c q k t now w) = wNext w"
  "wAllowlists (recordStatement d c q k t now w) = wAllowlists w"
  by (simp_all add: recordStatement_def Let_def frame_rules split: option.split)

lemma AllowNonAtomicHere_frame [frame_rules]:
  "wDets (AllowNonAtomicHere c x us w) = wDets w"
  "wNext (AllowNonAtomicHere c x us w) = wNext w"
  "wAllowlists (AllowNonAtomicHere c x us w) = wAllowlists w"
  "wCalls (AllowNonAtomicHere c x us w) = wCalls w"
  by (simp_all add: AllowNonAtomicHere_def split: option.split)

lemma finishBoundaryReport_frame [frame_rules]:
  "wDets (finishBoundaryReport r snap w) = wDets w"
  "wNext (finishBoundaryReport r snap w) = wNext w"
  "wHeap (finishBoundaryReport r snap w) = wHeap w"
  by (simp_all add: finishBoundaryReport_def Let_def frame_rules split: option.split prod.split)

lemma finishBoundary_frame [frame_rules]:
  "wDets (finishBoundary r w) = wDets w"
  "wNext (finishBoundary r w) = wNext w"
  by (auto simp: finishBoundary_def finishBoundaryLock_def frame_rules split: option.split prod.split)

lemma finishBoundary_heap:
  "wHeap (finishBoundary r w) = (wHeap w)(r := (wHeap w r)\<lparr>bFinished := True\<rparr>)"
proof -
  have again: "bFinished b \<Longrightarrow> b\<lparr>bFinished := True\<rparr> = b" for b :: Boundary
    by (cases b) simp
  show ?thesis
    by (cases "bFinished (wHeap w r)")
      (simp_all add: finishBoundary_def finishBoundaryLock_def finishLock_def frame_rules again)
qed

text \<open>The allowlist a boundary's detector consults.\<close>

definition allowlistOf :: "World \<Rightarrow> Detector \<Rightarrow> Allowlist option" where
  "allowlistOf w D = (case dAllowlist D of None \<Rightarrow> None | Some a \<Rightarrow> Some (wAllowlists w a))"

lemma finishBoundaryReport_calls:
  "wCalls (finishBoundaryReport r snap w) = wCalls w @
    (let D = wDets w (bDet (wHeap w r)) in
     case snd (finishOutcome snap (wHeap w r) (allowlistOf w D)) of
       None \<Rightarrow> [] | Some rep \<Rightarrow> notify D (boundaryCtx w r) rep)"
proof -
  let ?D = "wDets w (bDet (wHeap w r))"
  obtain al out where "finishOutcome snap (wHeap w r) (allowlistOf w ?D) = (al, out)"
    by (cases "finishOutcome snap (wHeap w r) (allowlistOf w ?D)") auto
  then show ?thesis
    by (cases out; cases "dAllowlist ?D"; cases al)
      (simp_all add: finishBoundaryReport_def allowlistOf_def frame_rules Let_def boundaryCtx_def)
qed

text \<open>The calls a \<open>Finish\<close> makes, in terms of the boundary-level verdict.\<close>

lemma finishBoundary_calls:
  "wCalls (finishBoundary r w) = wCalls w @
    (let b = wHeap w r; D = wDets w (bDet b) in
     case snd (snd (finishNow b (allowlistOf w D))) of
       None \<Rightarrow> [] | Some rep \<Rightarrow> notify D (CtxBoundary r (bParent b)) rep)"
proof (cases "bFinished (wHeap w r)")
  case True
  then show ?thesis
    by (simp add: finishBoundary_def finishBoundaryLock_def finishNow_def finishLock_def)
next
  case False
  then obtain snap where lock: "finishLock (wHeap w r)
      = ((wHeap w r)\<lparr>bFinished := True\<rparr>, Some snap)"
    by (auto simp: finishLock_def)
  then show ?thesis
    by (simp add: finishBoundary_def finishBoundaryLock_def finishBoundaryReport_calls
        finishNow_def allowlistOf_def boundaryCtx_def Let_def split: option.split)
qed

lemma finishBoundary_other:
  "s \<noteq> r \<Longrightarrow> wHeap (finishBoundary r w) s = wHeap w s"
  by (simp add: finishBoundary_heap)

section \<open>Transaction identities are fresh\<close>

text \<open>\<open>n\<close> calls in a row, with the identities they returned.\<close>

fun takeTxIDs :: "nat \<Rightarrow> nat \<Rightarrow> World \<Rightarrow> u64 list" where
  "takeTxIDs d 0 w = []"
| "takeTxIDs d (Suc n) w = (let (w', t) = nextTxID d w in t # takeTxIDs d n w')"

lemma takeTxIDs_eq: "takeTxIDs d n w = map (\<lambda>i. dTxSeq (wDets w d) + of_nat (Suc i)) [0..<n]"
proof (induction n arbitrary: w)
  case (Suc n)
  have "map (\<lambda>i. x + 1 + of_nat (Suc i)) [0..<n] = map (\<lambda>i. x + of_nat (Suc i)) [Suc 0..<Suc n]"
    for x :: u64
    by (simp only: map_Suc_upt [symmetric] map_map) (simp add: algebra_simps)
  then show ?case
    using Suc by (simp add: nextTxID_def Let_def upt_conv_Cons del: upt_Suc)
qed simp

lemma of_nat_u64_inj:
  "i < 2 ^ 64 \<Longrightarrow> j < 2 ^ 64 \<Longrightarrow> (of_nat i :: u64) = of_nat j \<longleftrightarrow> i = j"
  by (auto dest!: arg_cong [where f = unat] simp: unat_of_nat)

section \<open>Properties\<close>

text \<open>Fewer than 2 to the 64 transactions of one detector get pairwise different, non-zero
  identities, so none is mistaken for another or for auto-commit mode (identity 0).\<close>

lemma tx_ids_are_fresh:
  assumes "dTxSeq (wDets w d) = 0" and "n < 2 ^ 64"
  shows "distinct (takeTxIDs d n w) \<and> 0 \<notin> set (takeTxIDs d n w)"
proof -
  have ids: "takeTxIDs d n w = map (\<lambda>i. of_nat (Suc i)) [0..<n]"
    using assms(1) by (simp add: takeTxIDs_eq)
  have "inj_on (\<lambda>i. of_nat (Suc i) :: u64) {0..<n}"
    using assms(2) by (auto simp: inj_on_def of_nat_u64_inj simp del: of_nat_Suc)
  moreover have "of_nat (Suc i) \<noteq> (0 :: u64)" if "i < n" for i
    using assms(2) that of_nat_u64_inj [of "Suc i" 0] by (simp del: of_nat_Suc)
  ultimately show ?thesis
    unfolding ids by (auto simp: distinct_map simp del: of_nat_Suc)
qed

text \<open>\<open>AllowNonAtomicHere\<close> is the \<open>AllowNonAtomic\<close> option made later: marking the boundary right
  after it was started, through the context \<open>StartBoundary\<close> returned, gives the same world as
  starting it with the option appended.\<close>

lemma allow_here_equals_option:
  "(let (w1, c, r) = StartBoundary d ctx name opts now w in (AllowNonAtomicHere c reason counts w1, c, r))
   = StartBoundary d ctx name (opts @ [AllowNonAtomic reason counts]) now w"
proof -
  obtain w1 c r where start: "StartBoundary d ctx name opts now w = (w1, c, r)"
    by (cases "StartBoundary d ctx name opts now w") auto
  have live: "\<not> bFinished (fold applyOption opts b)" if "\<not> bFinished b" for b
    using that by (simp add: frame_rules)
  show ?thesis
    by (auto simp: StartBoundary_def Let_def AllowNonAtomicHere_def markHere_def live
        split: option.split)
qed

text \<open>With no boundary in the context nothing but reporter calls happens: a statement is
  reported to the reporters that accept unbounded writes exactly when it is a write and the
  detection is on, with the attributes of the statement's own context; an allow mark does
  nothing.\<close>

lemma no_boundary_only_reports:
  assumes "boundaryOf ctx = None"
  shows "recordStatement d ctx q k t now w =
      w\<lparr>wCalls := wCalls w @
        (if k = KindWrite \<and> dReportUnbounded (wDets w d) then
           map (\<lambda>r. (rRef r, ctx, ReportUnboundedWrite
               \<lparr>srQuery = q, srKind = k, srTxID = t, srTime = now,
                srAttrs = (case dAttrsFunc (wDets w d) of None \<Rightarrow> [] | Some f \<Rightarrow> f ctx)\<rparr>))
             (filter (isUnboundedWriteReporter \<circ> rIface) (dReporters (wDets w d)))
         else [])\<rparr> \<and>
    AllowNonAtomicHere ctx reason counts w = w"
  using assms
  by (simp add: recordStatement_def AllowNonAtomicHere_def callReporters_def notify_def comp_def
      Let_def split: option.split)

lemma no_boundary_only_reports_witness:
  "wCalls (recordStatement 0 Background ''DELETE FROM t'' KindWrite 0 7
     \<lparr>wDets = (\<lambda>_. New [WithReporter [\<lparr>rRef = 1, rIface = allIfaces\<rparr>, \<lparr>rRef = 2, rIface = funcIfaces\<rparr>],
        WithUnboundedWriteDetection]),
      wHeap = (\<lambda>_. newBoundary 0 Background []), wNext = 0, wAllowlists = (\<lambda>_. NewAllowlist),
      wCalls = []\<rparr>)
   = [(1, Background, ReportUnboundedWrite
        \<lparr>srQuery = ''DELETE FROM t'', srKind = KindWrite, srTxID = 0, srTime = 7, srAttrs = []\<rparr>)]"
  by (subst no_boundary_only_reports [THEN conjunct1])
    (simp_all add: New_def WithReporter_def WithUnboundedWriteDetection_def allIfaces_def
      funcIfaces_def)

end
