(* ===== verification/Session.thy ===== *)
theory Session
  imports Detector
begin

text \<open>
  \<open>session.go\<close>: the per-connection transaction state. A session is the detector it belongs to and
  the identity of the open transaction (0 outside one). Every operation threads the session and
  the world.

  The lemmas describe the identities a whole run of statements gets.
\<close>

record Session =
  sDet :: nat
  sTxID :: u64

definition NewSession :: "nat \<Rightarrow> Session" where
  "NewSession d = \<lparr>sDet = d, sTxID = 0\<rparr>"

definition beginTx :: "Session \<times> World \<Rightarrow> Session \<times> World" where
  "beginTx sw = (let (s, w) = sw; (w', t) = nextTxID (sDet s) w in (s\<lparr>sTxID := t\<rparr>, w'))"

definition endTx :: "Session \<times> World \<Rightarrow> Session \<times> World" where
  "endTx sw = (let (s, w) = sw in (s\<lparr>sTxID := 0\<rparr>, w))"

definition observeKind ::
    "Ctx \<Rightarrow> string \<Rightarrow> StatementKind \<Rightarrow> int \<Rightarrow> Session \<times> World \<Rightarrow> Session \<times> World" where
  "observeKind ctx query kind now sw =
     (let (s, w) =
        (case kind of
           KindBegin \<Rightarrow> (if sTxID (fst sw) = 0 then beginTx sw else sw)
         | KindCommit \<Rightarrow> endTx sw
         | KindRollback \<Rightarrow> endTx sw
         | _ \<Rightarrow> sw)
      in (s, recordStatement (sDet s) ctx query kind (sTxID s) now w))"

definition Observe :: "Ctx \<Rightarrow> string \<Rightarrow> int \<Rightarrow> Session \<times> World \<Rightarrow> Session \<times> World" where
  "Observe ctx query now sw =
     observeKind ctx query (dClassify (wDets (snd sw) (sDet (fst sw))) query) now sw"

section \<open>Runs of one connection\<close>

text \<open>What a connection does to its session: it observes a statement (in the context that carried
  it), or a transaction starts or ends without statement text.\<close>

datatype SessionOp =
    OpObserve Ctx string int
  | OpBeginTx
  | OpEndTx

fun sessionStep :: "SessionOp \<Rightarrow> Session \<times> World \<Rightarrow> Session \<times> World" where
  "sessionStep (OpObserve ctx query now) sw = Observe ctx query now sw"
| "sessionStep OpBeginTx sw = beginTx sw"
| "sessionStep OpEndTx sw = endTx sw"

text \<open>The pair (open transaction, sequence number) as a machine of its own.\<close>

fun txStep :: "Classifier \<Rightarrow> SessionOp \<Rightarrow> u64 \<times> u64 \<Rightarrow> u64 \<times> u64" where
  "txStep cl OpBeginTx (t, n) = (n + 1, n + 1)"
| "txStep cl OpEndTx (t, n) = (0, n)"
| "txStep cl (OpObserve ctx query now) (t, n) =
     (case cl query of
        KindBegin \<Rightarrow> (if t = 0 then (n + 1, n + 1) else (t, n))
      | KindCommit \<Rightarrow> (0, n)
      | KindRollback \<Rightarrow> (0, n)
      | _ \<Rightarrow> (t, n))"

text \<open>The records that reach boundary \<open>r\<close>.\<close>

fun opRecord :: "Classifier \<Rightarrow> BoundaryRef \<Rightarrow> u64 \<Rightarrow> SessionOp \<Rightarrow> StatementRecord list" where
  "opRecord cl r t (OpObserve ctx query now) =
     (if boundaryOf ctx = Some r
      then [\<lparr>srQuery = query, srKind = cl query, srTxID = t, srTime = now, srAttrs = []\<rparr>] else [])"
| "opRecord cl r t OpBeginTx = []"
| "opRecord cl r t OpEndTx = []"

lemma nextTxID_frame [frame_rules]:
  assumes "nextTxID d w = (w', t)"
  shows "wHeap w' = wHeap w" "wNext w' = wNext w" "wAllowlists w' = wAllowlists w"
    "wCalls w' = wCalls w" "t = dTxSeq (wDets w d) + 1"
    "wDets w' = (wDets w)(d := (wDets w d)\<lparr>dTxSeq := t\<rparr>)"
  using assms by (auto simp: nextTxID_def Let_def)

lemma beginTx_eq:
  "beginTx (s, w) = (s\<lparr>sTxID := dTxSeq (wDets w (sDet s)) + 1\<rparr>,
     w\<lparr>wDets := (wDets w)(sDet s := (wDets w (sDet s))\<lparr>dTxSeq := dTxSeq (wDets w (sDet s)) + 1\<rparr>)\<rparr>)"
  by (simp add: beginTx_def nextTxID_def Let_def)

lemma endTx_eq: "endTx (s, w) = (s\<lparr>sTxID := 0\<rparr>, w)"
  by (simp add: endTx_def)

lemma observeKind_eq:
  "observeKind ctx q k now (s, w) =
    (let (s', w') = (if k = KindBegin \<and> sTxID s = 0 then beginTx (s, w)
         else if k = KindCommit \<or> k = KindRollback then endTx (s, w) else (s, w))
     in (s', recordStatement (sDet s') ctx q k (sTxID s') now w'))"
  by (cases k) (simp_all add: observeKind_def)

lemma recordStatement_heap:
  "wHeap (recordStatement d ctx q k t now w) r =
    (if boundaryOf ctx = Some r
     then recordIn (dMaxRecordedStatements (wDets w d))
       \<lparr>srQuery = q, srKind = k, srTxID = t, srTime = now, srAttrs = []\<rparr> (wHeap w r)
     else wHeap w r)"
  by (simp add: recordStatement_def Let_def frame_rules split: option.split)

text \<open>One step: the detector is untouched but for its sequence number, the session and the sequence
  number follow \<open>txStep\<close>, and each boundary gets exactly the records addressed to it.\<close>

lemma sessionStep_effect:
  assumes "sessionStep x (s, w) = (s', w')"
  shows "sDet s' = sDet s"
    and "wDets w' = (wDets w)(sDet s := (wDets w (sDet s))\<lparr>dTxSeq := dTxSeq (wDets w' (sDet s))\<rparr>)"
    and "(sTxID s', dTxSeq (wDets w' (sDet s)))
      = txStep (dClassify (wDets w (sDet s))) x (sTxID s, dTxSeq (wDets w (sDet s)))"
    and "wHeap w' r = fold (recordIn (dMaxRecordedStatements (wDets w (sDet s))))
      (opRecord (dClassify (wDets w (sDet s))) r (sTxID s') x) (wHeap w r)"
    and "wNext w' = wNext w"
proof -
  have idem: "D\<lparr>dTxSeq := dTxSeq D\<rparr> = D" for D :: Detector by simp
  have "sDet s' = sDet s \<and>
    wDets w' = (wDets w)(sDet s := (wDets w (sDet s))\<lparr>dTxSeq := dTxSeq (wDets w' (sDet s))\<rparr>) \<and>
    (sTxID s', dTxSeq (wDets w' (sDet s)))
      = txStep (dClassify (wDets w (sDet s))) x (sTxID s, dTxSeq (wDets w (sDet s))) \<and>
    wHeap w' r = fold (recordIn (dMaxRecordedStatements (wDets w (sDet s))))
      (opRecord (dClassify (wDets w (sDet s))) r (sTxID s') x) (wHeap w r) \<and> wNext w' = wNext w"
    using assms
    by (cases x; cases "dClassify (wDets w (sDet s)) (case x of OpObserve c q n \<Rightarrow> q | _ \<Rightarrow> [])")
      (auto simp: Observe_def observeKind_eq beginTx_eq endTx_eq recordStatement_heap frame_rules
        idem split: if_splits)
  then show "sDet s' = sDet s"
    and "wDets w' = (wDets w)(sDet s := (wDets w (sDet s))\<lparr>dTxSeq := dTxSeq (wDets w' (sDet s))\<rparr>)"
    and "(sTxID s', dTxSeq (wDets w' (sDet s)))
      = txStep (dClassify (wDets w (sDet s))) x (sTxID s, dTxSeq (wDets w (sDet s)))"
    and "wHeap w' r = fold (recordIn (dMaxRecordedStatements (wDets w (sDet s))))
      (opRecord (dClassify (wDets w (sDet s))) r (sTxID s') x) (wHeap w r)"
    and "wNext w' = wNext w" by simp_all
qed

section \<open>Several connections\<close>

text \<open>The sessions of a connection pool, all on one detector: an operation names its connection. The
  list is the order in which the operations of the connections interleave.\<close>

type_synonym Pool = "(nat \<Rightarrow> Session) \<times> World"

definition poolStep :: "nat \<times> SessionOp \<Rightarrow> Pool \<Rightarrow> Pool" where
  "poolStep cx p =
     (let (c, x) = cx; (ss, w) = p; (s', w') = sessionStep x (ss c, w) in (ss(c := s'), w'))"

text \<open>The records that reach boundary \<open>r\<close>, from the open transactions \<open>ts\<close> and the sequence
  number \<open>n\<close>.\<close>

fun poolRecords ::
    "Classifier \<Rightarrow> BoundaryRef \<Rightarrow> (nat \<times> SessionOp) list \<Rightarrow> (nat \<Rightarrow> u64) \<Rightarrow> u64 \<Rightarrow>
     StatementRecord list" where
  "poolRecords cl r [] ts n = []"
| "poolRecords cl r ((c, x) # ops) ts n =
     (let (t', n') = txStep cl x (ts c, n)
      in opRecord cl r t' x @ poolRecords cl r ops (ts(c := t')) n')"

lemma poolRun_heap:
  assumes "\<And>c. sDet (ss c) = d"
  shows "wHeap (snd (fold poolStep ops (ss, w))) r =
    fold (recordIn (dMaxRecordedStatements (wDets w d)))
      (poolRecords (dClassify (wDets w d)) r ops (\<lambda>c. sTxID (ss c)) (dTxSeq (wDets w d)))
      (wHeap w r)"
  using assms
proof (induction ops arbitrary: ss w)
  case (Cons cx ops)
  obtain c x where cx: "cx = (c, x)" by (cases cx)
  obtain s' w' where step: "sessionStep x (ss c, w) = (s', w')"
    by (cases "sessionStep x (ss c, w)") auto
  have d: "sDet (ss c) = d" by (rule Cons.prems)
  note effect = sessionStep_effect [OF step, unfolded d]
  have det: "dClassify (wDets w' d) = dClassify (wDets w d)"
    "dMaxRecordedStatements (wDets w' d) = dMaxRecordedStatements (wDets w d)"
    by (subst effect(2); simp)+
  have ss': "(\<lambda>i. sTxID ((ss(c := s')) i)) = (\<lambda>i. sTxID (ss i))(c := sTxID s')"
    by auto
  have "sDet ((ss(c := s')) i) = d" for i
    using Cons.prems effect(1) by simp
  from Cons.IH [of "ss(c := s')" w', OF this]
  have IH: "wHeap (snd (fold poolStep ops (ss(c := s'), w'))) r =
      fold (recordIn (dMaxRecordedStatements (wDets w d)))
        (poolRecords (dClassify (wDets w d)) r ops ((\<lambda>i. sTxID (ss i))(c := sTxID s'))
          (dTxSeq (wDets w' d))) (wHeap w' r)"
    by (simp only: ss' det)
  have "poolStep cx (ss, w) = (ss(c := s'), w')"
    by (simp add: poolStep_def cx step)
  then show ?case
    by (simp add: IH cx effect(4) Let_def del: fun_upd_apply flip: effect(3))
qed simp

text \<open>The rule, without identities: a connection is in auto-commit mode (\<open>None\<close>) or in a transaction
  that has or has not written for the boundary yet (\<open>Some wrote\<close>). Each auto-commit write is a
  unit, and so is the first write of a transaction.\<close>

fun unitStep :: "Classifier \<Rightarrow> BoundaryRef \<Rightarrow> SessionOp \<Rightarrow> bool option \<Rightarrow> bool option \<times> nat" where
  "unitStep cl r OpBeginTx m = (Some False, 0)"
| "unitStep cl r OpEndTx m = (None, 0)"
| "unitStep cl r (OpObserve ctx query now) m =
     (case cl query of
        KindBegin \<Rightarrow> ((case m of None \<Rightarrow> Some False | Some wrote \<Rightarrow> Some wrote), 0)
      | KindCommit \<Rightarrow> (None, 0)
      | KindRollback \<Rightarrow> (None, 0)
      | KindWrite \<Rightarrow>
          if boundaryOf ctx = Some r then
            (case m of None \<Rightarrow> (None, 1) | Some wrote \<Rightarrow> (Some True, if wrote then 0 else 1))
          else (m, 0)
      | _ \<Rightarrow> (m, 0))"

text \<open>Counting with a rule, along one connection and along interleaved ones.\<close>

fun countUnits :: "('x \<Rightarrow> 'm \<Rightarrow> 'm \<times> nat) \<Rightarrow> 'x list \<Rightarrow> 'm \<Rightarrow> nat" where
  "countUnits step [] m = 0"
| "countUnits step (x # xs) m = (let (m', k) = step x m in k + countUnits step xs m')"

fun countPool :: "('x \<Rightarrow> 'm \<Rightarrow> 'm \<times> nat) \<Rightarrow> (nat \<times> 'x) list \<Rightarrow> (nat \<Rightarrow> 'm) \<Rightarrow> nat" where
  "countPool step [] ms = 0"
| "countPool step ((c, x) # xs) ms =
     (let (m', k) = step x (ms c) in k + countPool step xs (ms(c := m')))"

abbreviation sessionUnits :: "Classifier \<Rightarrow> BoundaryRef \<Rightarrow> SessionOp list \<Rightarrow> bool option \<Rightarrow> nat" where
  "sessionUnits cl r \<equiv> countUnits (unitStep cl r)"

abbreviation poolUnits ::
    "Classifier \<Rightarrow> BoundaryRef \<Rightarrow> (nat \<times> SessionOp) list \<Rightarrow> (nat \<Rightarrow> bool option) \<Rightarrow> nat" where
  "poolUnits cl r \<equiv> countPool (unitStep cl r)"

text \<open>What one connection did.\<close>

definition opsOf :: "nat \<Rightarrow> (nat \<times> 'x) list \<Rightarrow> 'x list" where
  "opsOf c ops = [x. (c', x) \<leftarrow> ops, c' = c]"

lemma opsOf_simps [simp]:
  "opsOf c [] = []"
  "opsOf c ((c', x) # ops) = (if c' = c then x # opsOf c ops else opsOf c ops)"
  by (simp_all add: opsOf_def)

text \<open>The interleaved count is the sum of the counts of the connections.\<close>

lemma countPool_sum:
  assumes "finite C" and "fst ` set ops \<subseteq> C"
  shows "countPool step ops ms = (\<Sum>c\<in>C. countUnits step (opsOf c ops) (ms c))"
  using assms(2)
proof (induction ops arbitrary: ms)
  case (Cons cx ops)
  obtain c x where cx: "cx = (c, x)" by (cases cx)
  obtain m k where step: "step x (ms c) = (m, k)" by (cases "step x (ms c)")
  have c: "c \<in> C" and ops: "fst ` set ops \<subseteq> C" using Cons.prems by (auto simp: cx)
  have others: "(\<Sum>i\<in>C - {c}. countUnits step (opsOf i (cx # ops)) (ms i))
      = (\<Sum>i\<in>C - {c}. countUnits step (opsOf i ops) ((ms(c := m)) i))"
    by (rule sum.cong) (auto simp: cx)
  have "(\<Sum>i\<in>C. countUnits step (opsOf i (cx # ops)) (ms i))
      = k + (\<Sum>i\<in>C. countUnits step (opsOf i ops) ((ms(c := m)) i))"
    by (subst (1 2) sum.remove [OF assms(1) c]) (simp only: others, simp add: cx step)
  then show ?case
    using Cons.IH [OF ops, of "ms(c := m)"]
    by (simp only: cx step countPool.simps Let_def prod.case)
qed simp

lemma countPool_connections:
  "countPool step ops (\<lambda>_. m) = (\<Sum>c\<leftarrow>remdups (map fst ops). countUnits step (opsOf c ops) m)"
proof -
  have "countPool step ops (\<lambda>_. m) = (\<Sum>c\<in>set (remdups (map fst ops)). countUnits step (opsOf c ops) m)"
    by (rule countPool_sum) simp_all
  then show ?thesis by (simp only: sum_list_distinct_conv_sum_set distinct_remdups)
qed

section \<open>Identities against the rule\<close>

text \<open>\<open>S\<close> is the set of transactions that have written for the boundary so far.\<close>

definition modeOf :: "u64 set \<Rightarrow> u64 \<Rightarrow> bool option" where
  "modeOf S t = (if t = 0 then None else Some (t \<in> S))"

definition poolInv :: "u64 set \<Rightarrow> (nat \<Rightarrow> u64) \<Rightarrow> u64 \<Rightarrow> bool" where
  "poolInv S ts n \<longleftrightarrow> finite S \<and> (\<forall>t\<in>S. t \<noteq> 0 \<and> t \<le> n) \<and> (\<forall>c. ts c \<le> n) \<and>
     inj_on ts {c. ts c \<noteq> 0}"

lemma poolInvD:
  assumes "poolInv S ts n"
  shows "finite S" "t \<in> S \<Longrightarrow> t \<noteq> 0" "t \<in> S \<Longrightarrow> t \<le> n" "ts c \<le> n"
    "ts c \<noteq> 0 \<Longrightarrow> c' \<noteq> c \<Longrightarrow> ts c' \<noteq> ts c"
  using assms by (auto simp: poolInv_def dest: inj_onD)

lemma next_id:
  fixes n :: u64
  assumes "unat n + 1 < 2 ^ 64"
  shows "n < n + 1" and "n + 1 \<noteq> 0" and "unat (n + 1) = unat n + 1"
proof -
  show u: "unat (n + 1) = unat n + 1"
    using assms by (subst unat_add_lem [THEN iffD1]) (simp_all)
  show "n < n + 1" by (simp add: word_less_nat_alt u)
  show "n + 1 \<noteq> 0" using u by (metis unat_0 add_is_0 one_neq_zero)
qed

abbreviation writersOf :: "StatementRecord list \<Rightarrow> u64 set" where
  "writersOf rs \<equiv> srTxID ` set (filter isWriteTx rs)"

lemma poolInv_begin:
  assumes "poolInv S ts n" and "unat n + 1 < 2 ^ 64"
  shows "poolInv S (ts(c := n + 1)) (n + 1)" and "n + 1 \<notin> S"
proof -
  note new = next_id [OF assms(2)]
  have below: "ts c' < n + 1" "t \<in> S \<Longrightarrow> t < n + 1" for c' t
    using poolInvD [OF assms(1)] new(1) by (auto intro: le_less_trans)
  then show "n + 1 \<notin> S" by blast
  have new_here: "n + 1 \<noteq> ts i" for i
    using below(1) [of i] by (metis less_irrefl)
  have "inj_on (ts(c := n + 1)) {i. (ts(c := n + 1)) i \<noteq> 0}"
  proof (rule inj_onI)
    fix i j
    assume ne: "i \<in> {i. (ts(c := n + 1)) i \<noteq> 0}" and eq: "(ts(c := n + 1)) i = (ts(c := n + 1)) j"
    show "i = j"
    proof (rule ccontr)
      assume "i \<noteq> j"
      then consider "i = c" "j \<noteq> c" | "i \<noteq> c" "j = c" | "i \<noteq> c" "j \<noteq> c" by blast
      then show False
        using ne eq new_here [of i] new_here [of j] poolInvD(5) [OF assms(1), of i j] \<open>i \<noteq> j\<close>
        by cases simp_all
    qed
  qed
  moreover have "t \<le> n + 1" if "t \<in> S" for t using below(2) [OF that] by (rule less_imp_le)
  moreover have "(ts(c := n + 1)) i \<le> n + 1" for i
    using below(1) [of i] by (cases "i = c") (simp_all add: less_imp_le)
  ultimately show "poolInv S (ts(c := n + 1)) (n + 1)"
    using poolInvD(1,2) [OF assms(1)] unfolding poolInv_def by blast
qed

lemma poolInv_end: "poolInv S ts n \<Longrightarrow> poolInv S (ts(c := 0)) n"
  by (auto simp: poolInv_def inj_on_def)

lemma poolInv_write: "poolInv S ts n \<Longrightarrow> ts c \<noteq> 0 \<Longrightarrow> poolInv (insert (ts c) S) ts n"
  unfolding poolInv_def by auto

lemma modeOf_write:
  assumes "poolInv S ts n" and "ts c \<noteq> 0" and "c' \<noteq> c"
  shows "modeOf (insert (ts c) S) (ts c') = modeOf S (ts c')"
  using poolInvD(5) [OF assms] by (simp add: modeOf_def)

lemma writersOf_opRecord:
  "writersOf (opRecord cl r t x) =
    (case x of OpObserve ctx q now \<Rightarrow>
       (if boundaryOf ctx = Some r \<and> cl q = KindWrite \<and> t \<noteq> 0 then {t} else {})
     | _ \<Rightarrow> {})"
  "length (filter isAutoCommitWrite (opRecord cl r t x)) =
    (case x of OpObserve ctx q now \<Rightarrow>
       (if boundaryOf ctx = Some r \<and> cl q = KindWrite \<and> t = 0 then 1 else 0)
     | _ \<Rightarrow> 0)"
  by (cases x; simp add: isWriteTx_def isAutoCommitWrite_def isWriteRecord_def del: set_filter)+

text \<open>One operation: the identities follow the rule.\<close>

lemma txStep_unitStep:
  assumes inv: "poolInv S ts n" and bound: "unat n + 1 < 2 ^ 64"
    and step: "txStep cl x (ts c, n) = (t', n')"
    and unit: "unitStep cl r x (modeOf S (ts c)) = (m', k)"
    and S': "S' = S \<union> writersOf (opRecord cl r t' x)"
  shows "poolInv S' (ts(c := t')) n' \<and> unat n' \<le> unat n + 1 \<and>
    m' = modeOf S' t' \<and> card S' + length (filter isAutoCommitWrite (opRecord cl r t' x)) = card S + k \<and>
    (\<forall>i. i \<noteq> c \<longrightarrow> modeOf S' (ts i) = modeOf S (ts i))"
proof -
  let ?autos = "length (filter isAutoCommitWrite (opRecord cl r t' x))"
  have "t' = n + 1 \<and> n' = n + 1 \<and> S' = S \<and> m' = Some False \<and> k = 0 \<and> ?autos = 0 \<or>
    t' = 0 \<and> n' = n \<and> S' = S \<and> m' = None \<and> k = 0 \<and> ?autos = 0 \<or>
    t' = ts c \<and> n' = n \<and> S' = S \<and> m' = modeOf S (ts c) \<and> ?autos = k \<or>
    t' = ts c \<and> n' = n \<and> ts c \<noteq> 0 \<and> S' = insert (ts c) S \<and> m' = Some True \<and>
      k = (if ts c \<in> S then 0 else 1) \<and> ?autos = 0"
    using step unit unfolding S' writersOf_opRecord
    by (cases x; cases "ts c = 0"; cases "cl (case x of OpObserve ctx q now \<Rightarrow> q | _ \<Rightarrow> [])";
        cases "boundaryOf (case x of OpObserve ctx q now \<Rightarrow> ctx | _ \<Rightarrow> Background) = Some r")
      (simp_all add: modeOf_def)
  then consider (start) "t' = n + 1" "n' = n + 1" "S' = S" "m' = Some False" "k = 0" "?autos = 0"
    | (stop) "t' = 0" "n' = n" "S' = S" "m' = None" "k = 0" "?autos = 0"
    | (same) "t' = ts c" "n' = n" "S' = S" "m' = modeOf S (ts c)" "?autos = k"
    | (wrote) "t' = ts c" "n' = n" "ts c \<noteq> 0" "S' = insert (ts c) S" "m' = Some True"
      "k = (if ts c \<in> S then 0 else 1)" "?autos = 0"
    by blast
  then show ?thesis
  proof cases
    case start
    with poolInv_begin [OF inv bound] next_id [OF bound] show ?thesis by (simp add: modeOf_def)
  next
    case stop
    with poolInv_end [OF inv] show ?thesis by (simp add: modeOf_def)
  next
    case same
    with inv show ?thesis by (simp add: modeOf_def)
  next
    case wrote
    with poolInv_write [OF inv] modeOf_write [OF inv] poolInvD(1) [OF inv] show ?thesis
      by (simp add: modeOf_def card_insert_if)
  qed
qed

lemma poolRecords_units:
  assumes "poolInv S ts n" and "unat n + length ops < 2 ^ 64"
  shows "card (S \<union> writersOf (poolRecords cl r ops ts n))
      + length (filter isAutoCommitWrite (poolRecords cl r ops ts n))
    = card S + poolUnits cl r ops (\<lambda>c. modeOf S (ts c))"
  using assms
proof (induction ops arbitrary: S ts n)
  case (Cons cx ops)
  obtain c x where cx: "cx = (c, x)" by (cases cx)
  obtain t' n' where step: "txStep cl x (ts c, n) = (t', n')" by (cases "txStep cl x (ts c, n)")
  obtain m' k where unit: "unitStep cl r x (modeOf S (ts c)) = (m', k)"
    by (cases "unitStep cl r x (modeOf S (ts c))")
  let ?rs = "opRecord cl r t' x" and ?S = "S \<union> writersOf (opRecord cl r t' x)"
  have bound: "unat n + 1 < 2 ^ 64" using Cons.prems(2) by simp
  note one = txStep_unitStep [OF Cons.prems(1) bound step unit refl]
  have modes: "(\<lambda>i. modeOf ?S ((ts(c := t')) i)) = (\<lambda>i. modeOf S (ts i))(c := m')"
    using one by (intro ext) simp
  have "unat n' + length ops < 2 ^ 64" and "poolInv ?S (ts(c := t')) n'"
    using one Cons.prems(2) by simp_all
  from Cons.IH [OF this(2,1)]
  have "card (?S \<union> writersOf (poolRecords cl r ops (ts(c := t')) n'))
      + length (filter isAutoCommitWrite (poolRecords cl r ops (ts(c := t')) n'))
    = card ?S + poolUnits cl r ops ((\<lambda>i. modeOf S (ts i))(c := m'))"
    unfolding modes .
  moreover have "card ?S + length (filter isAutoCommitWrite ?rs) = card S + k" using one by simp
  ultimately show ?case
    by (simp add: cx step unit Let_def image_Un Un_assoc [symmetric] del: fun_upd_apply)
qed simp

section \<open>Properties\<close>

lemma pool_boundary_units:
  assumes "wHeap w r = newBoundary d' p name"
    and "unat (dTxSeq (wDets w d)) + length ops < 2 ^ 64"
  shows "boundaryUnits (wHeap (snd (fold poolStep ops (\<lambda>_. NewSession d, w))) r)
    = (\<Sum>c\<leftarrow>remdups (map fst ops). sessionUnits (dClassify (wDets w d)) r (opsOf c ops) None)"
proof -
  let ?cl = "dClassify (wDets w d)" and ?n = "dTxSeq (wDets w d)"
  have "boundaryUnits (wHeap (snd (fold poolStep ops (\<lambda>_. NewSession d, w))) r)
      = writeUnitsOf (poolRecords ?cl r ops (\<lambda>_. 0) ?n)"
    using recording_units [of _ _ d' p name] assms(1)
    by (subst poolRun_heap [where d = d]) (simp_all add: NewSession_def)
  also have "\<dots> = poolUnits ?cl r ops (\<lambda>_. None)"
    using poolRecords_units [of "{}" "\<lambda>_. 0" ?n ops ?cl r] assms(2)
    by (simp add: poolInv_def writeUnitsOf_def modeOf_def)
  finally show ?thesis by (simp only: countPool_connections)
qed

text \<open>C3. Attribution over a connection pool. The operations of any number of connections of one
  detector, in any interleaving, give a boundary as many write units as the rule gives, connection
  by connection: one for each auto-commit write it was sent, and one for each transaction of a
  connection that wrote for it. No transaction of one connection is merged with one of another, and
  none is counted twice, as long as fewer than 2 to the 64 identities are used.\<close>

theorem boundary_counts_units_of_its_connections:
  assumes "wHeap w r = newBoundary d' p name"
    and "unat (dTxSeq (wDets w d)) + length ops < 2 ^ 64"
  shows "boundaryUnits (wHeap (snd (fold poolStep ops (\<lambda>_. NewSession d, w))) r)
    = (\<Sum>c\<leftarrow>remdups (map fst ops). sessionUnits (dClassify (wDets w d)) r (opsOf c ops) None)"
  using assms by (rule pool_boundary_units)

theorem boundary_counts_units_of_its_connections_witness:
  "(let w = \<lparr>wDets = (\<lambda>_. New []), wHeap = (\<lambda>_. newBoundary 0 Background ''Job''), wNext = 1,
        wAllowlists = (\<lambda>_. NewAllowlist), wCalls = []\<rparr>;
      c = CtxBoundary 0 Background
    in boundaryUnits (wHeap (snd (fold poolStep
         [(0, OpObserve c ''BEGIN'' 1), (1, OpObserve c ''UPDATE t SET a = 1'' 2),
          (0, OpObserve c ''INSERT INTO t VALUES (1)'' 3), (0, OpObserve c ''DELETE FROM u'' 4),
          (0, OpObserve c ''COMMIT'' 5)] (\<lambda>_. NewSession 0, w))) 0)) = 2"
proof -
  let ?w = "\<lparr>wDets = (\<lambda>_. New []), wHeap = (\<lambda>_. newBoundary 0 Background ''Job''), wNext = 1,
        wAllowlists = (\<lambda>_. NewAllowlist), wCalls = []\<rparr>"
  let ?c = "CtxBoundary 0 Background"
  let ?ops = "[(0, OpObserve ?c ''BEGIN'' 1), (1, OpObserve ?c ''UPDATE t SET a = 1'' 2),
          (0, OpObserve ?c ''INSERT INTO t VALUES (1)'' 3), (0, OpObserve ?c ''DELETE FROM u'' 4),
          (0, OpObserve ?c ''COMMIT'' 5)] :: (nat \<times> SessionOp) list"
  have "(\<Sum>c\<leftarrow>remdups (map fst ?ops). sessionUnits DefaultClassifier 0 (opsOf c ?ops) None) = 2"
    by code_simp
  then show ?thesis
    using boundary_counts_units_of_its_connections [of ?w 0 0 Background "''Job''" 0 ?ops]
    by (simp add: New_def Let_def del: fold_simps)
qed

section \<open>Transactions of several detectors\<close>

text \<open>A transaction with one statement on a new connection of a detector: detector, context, text and time.\<close>

definition txOn :: "nat \<times> Ctx \<times> string \<times> int \<Rightarrow> World \<Rightarrow> World" where
  "txOn x w =
     (let (d, ctx, q, now) = x in
      snd (fold sessionStep [OpBeginTx, OpObserve ctx q now, OpEndTx] (NewSession d, w)))"

definition writesFor :: "BoundaryRef \<Rightarrow> World \<Rightarrow> nat \<times> Ctx \<times> string \<times> int \<Rightarrow> bool" where
  "writesFor r w x \<longleftrightarrow>
     (let (d, ctx, q, now) = x in boundaryOf ctx = Some r \<and> dClassify (wDets w d) q = KindWrite)"

lemma txOn_effect:
  assumes "writesFor r w (d, ctx, q, now)"
  shows "wDets (txOn (d, ctx, q, now) w) = (wDets w)(d := (wDets w d)\<lparr>dTxSeq := dTxSeq (wDets w d) + 1\<rparr>)"
    and "wHeap (txOn (d, ctx, q, now) w) r = applyEvent (Recorded (dMaxRecordedStatements (wDets w d))
      \<lparr>srQuery = q, srKind = KindWrite, srTxID = dTxSeq (wDets w d) + 1, srTime = now, srAttrs = []\<rparr>) (wHeap w r)"
  using assms
  by (simp_all add: writesFor_def txOn_def beginTx_eq endTx_eq Observe_def observeKind_eq NewSession_def
      recordStatement_heap frame_rules)

lemma writesFor_after: "wDets w' = (wDets w)(d := (wDets w d)\<lparr>dTxSeq := t\<rparr>) \<Longrightarrow> writesFor r w' = writesFor r w"
  by (auto simp: writesFor_def fun_eq_iff)

lemma writesFor_run: "list_all (writesFor r w) xs \<Longrightarrow> writesFor r (fold txOn xs w) = writesFor r w"
proof (induction xs arbitrary: w)
  case (Cons x xs)
  obtain d ctx q now where x: "x = (d, ctx, q, now)" by (cases x)
  from Cons.prems have "writesFor r w (d, ctx, q, now)" by (simp add: x)
  then have "writesFor r (txOn x w) = writesFor r w"
    unfolding x by (rule writesFor_after [OF txOn_effect(1)])
  with Cons show ?case by simp
qed simp

text \<open>The identities of a run are numbered per detector.\<close>

definition txNumbers :: "nat list \<Rightarrow> nat set" where
  "txNumbers ds = (\<Union>d\<in>set ds. {1..count_list ds d})"

lemma txNumbers_snoc: "txNumbers (ds @ [d]) = insert (Suc (count_list ds d)) (txNumbers ds)"
proof -
  have "count_list (ds @ [d]) i = count_list ds i + (if i = d then 1 else 0)" for i by simp
  then have "txNumbers (ds @ [d]) = (\<Union>i\<in>set ds - {d}. {1..count_list ds i}) \<union> {1..Suc (count_list ds d)}"
    by (auto simp: txNumbers_def simp del: count_list_append split: if_splits)
  moreover have "txNumbers ds = (\<Union>i\<in>set ds - {d}. {1..count_list ds i}) \<union> {1..count_list ds d}"
    by (cases "d \<in> set ds") (auto simp: txNumbers_def)
  ultimately show ?thesis by (simp add: atLeastAtMostSuc_conv)
qed

lemma txNumbers_interval: "txNumbers ds = {1..Max (insert 0 (count_list ds ` set ds))}"
proof (rule set_eqI)
  fix i
  let ?M = "insert 0 (count_list ds ` set ds)"
  have "i \<in> txNumbers ds \<longleftrightarrow> 1 \<le> i \<and> (\<exists>m\<in>?M. i \<le> m)" by (auto simp: txNumbers_def)
  then show "i \<in> txNumbers ds \<longleftrightarrow> i \<in> {1..Max ?M}" by (simp add: Max_ge_iff)
qed

lemma txOn_run:
  assumes "list_all (writesFor r w) xs" and "\<And>d. dTxSeq (wDets w d) = 0"
  shows "\<exists>evs. wHeap (fold txOn xs w) r = fold applyEvent evs (wHeap w r) \<and>
      list_all isWriteRecord (recordsOf evs) \<and>
      srTxID ` set (recordsOf evs) = of_nat ` txNumbers (map fst xs)"
    and "dTxSeq (wDets (fold txOn xs w) d) = of_nat (count_list (map fst xs) d)"
proof -
  have "(\<exists>evs. wHeap (fold txOn xs w) r = fold applyEvent evs (wHeap w r) \<and>
      list_all isWriteRecord (recordsOf evs) \<and>
      srTxID ` set (recordsOf evs) = of_nat ` txNumbers (map fst xs)) \<and>
    (\<forall>d. dTxSeq (wDets (fold txOn xs w) d) = of_nat (count_list (map fst xs) d))"
    using assms(1)
  proof (induction xs rule: rev_induct)
    case Nil
    show ?case by (simp add: assms(2) txNumbers_def) (intro exI [of _ "[]"], simp)
  next
    case (snoc x xs)
    obtain d ctx q now where x: "x = (d, ctx, q, now)" by (cases x)
    let ?w = "fold txOn xs w"
    from snoc obtain evs where evs: "wHeap ?w r = fold applyEvent evs (wHeap w r)"
        "list_all isWriteRecord (recordsOf evs)" "srTxID ` set (recordsOf evs) = of_nat ` txNumbers (map fst xs)"
      and seq: "\<And>d. dTxSeq (wDets ?w d) = of_nat (count_list (map fst xs) d)" by auto
    have "writesFor r ?w (d, ctx, q, now)"
      using snoc.prems writesFor_run [of r w xs] by (simp add: x)
    note effect = txOn_effect [OF this]
    let ?rec = "\<lparr>srQuery = q, srKind = KindWrite, srTxID = dTxSeq (wDets ?w d) + 1, srTime = now, srAttrs = []\<rparr>"
    let ?evs = "evs @ [Recorded (dMaxRecordedStatements (wDets ?w d)) ?rec]"
    have records: "recordsOf ?evs = recordsOf evs @ [?rec]" by (simp add: recordsOf_def)
    have "wHeap (fold txOn (xs @ [x]) w) r = fold applyEvent ?evs (wHeap w r)"
      by (simp add: x effect(2) evs(1))
    moreover have "list_all isWriteRecord (recordsOf ?evs)"
      unfolding records using evs(2) by (simp add: isWriteRecord_def)
    moreover have "srTxID ` set (recordsOf ?evs) = of_nat ` txNumbers (map fst (xs @ [x]))"
      unfolding records using evs(3) by (simp add: x seq txNumbers_snoc add.commute)
    moreover have "dTxSeq (wDets (fold txOn (xs @ [x]) w) d') = of_nat (count_list (map fst (xs @ [x])) d')" for d'
      by (simp add: x effect(1) seq add.commute)
    ultimately show ?case by blast
  qed
  then show "\<exists>evs. wHeap (fold txOn xs w) r = fold applyEvent evs (wHeap w r) \<and>
      list_all isWriteRecord (recordsOf evs) \<and>
      srTxID ` set (recordsOf evs) = of_nat ` txNumbers (map fst xs)"
    and "dTxSeq (wDets (fold txOn xs w) d) = of_nat (count_list (map fst xs) d)" by auto
qed

text \<open>C36. Identities are numbered per detector only, so the transactions of several detectors in one
  boundary are merged. Let writing transactions of any number of new detectors (one for each database, say)
  run one after the other, in any order, for one boundary. Each is a unit of its own when they are all of one
  detector; in general the boundary counts only as many units as the detector with the most transactions
  ran, because the transactions with the same number of different detectors carry the same identity. One
  transaction for each of two databases is counted as one unit, so the boundary is taken for atomic although
  the README says that writes to two databases are two or more units.\<close>

theorem transactions_of_two_detectors_merge:
  assumes "wHeap w r = newBoundary d' p name" and "\<And>d. dTxSeq (wDets w d) = 0"
    and "list_all (writesFor r w) xs" and "length xs < 2 ^ 64"
  shows "boundaryUnits (wHeap (fold txOn xs w) r)
    = Max (insert 0 (count_list (map fst xs) ` fst ` set xs))"
proof -
  let ?M = "Max (insert 0 (count_list (map fst xs) ` set (map fst xs)))"
  obtain evs where heap: "wHeap (fold txOn xs w) r = fold applyEvent evs (wHeap w r)"
    and writes: "list_all isWriteRecord (recordsOf evs)"
    and ids: "srTxID ` set (recordsOf evs) = of_nat ` {1..?M}"
    using txOn_run(1) [OF assms(3,2)] by (auto simp: txNumbers_interval)
  have small: "i < 2 ^ 64" if "i \<in> {1..?M}" for i
  proof -
    have "count_list (map fst xs) d \<le> length xs" for d using count_le_length [of "map fst xs" d] by simp
    then have "?M \<le> length xs" by (subst Max_le_iff) auto
    moreover have "i \<le> ?M" using that by (simp only: atLeastAtMost_iff)
    ultimately show ?thesis using assms(4) by linarith
  qed
  then have inj: "inj_on (of_nat :: nat \<Rightarrow> u64) {1..?M}"
    by (auto simp: inj_on_def of_nat_u64_inj)
  have nonzero: "t \<noteq> 0" if "t \<in> srTxID ` set (recordsOf evs)" for t
    using that small of_nat_u64_inj [of _ 0] unfolding ids by force
  then have "filter isWriteTx (recordsOf evs) = recordsOf evs" "filter isAutoCommitWrite (recordsOf evs) = []"
    using writes by (auto simp: filter_id_conv filter_empty_conv isWriteTx_def isAutoCommitWrite_def list_all_iff)
  then have "boundaryUnits (wHeap (fold txOn xs w) r) = card (srTxID ` set (recordsOf evs))"
    unfolding heap assms(1) by (subst applyEvents_units) (simp_all add: writeUnitsOf_def)
  also have "\<dots> = ?M" unfolding ids card_image [OF inj] by (rule trans [OF card_atLeastAtMost]) simp
  finally show ?thesis by simp
qed

theorem transactions_of_two_detectors_merge_witness:
  "(let w = \<lparr>wDets = (\<lambda>_. New []), wHeap = (\<lambda>_. newBoundary 0 Background ''Job''), wNext = 1,
        wAllowlists = (\<lambda>_. NewAllowlist), wCalls = []\<rparr>;
      tx = (\<lambda>d. (d, CtxBoundary 0 Background, ''INSERT INTO t VALUES (1)'', 1))
    in boundaryUnits (wHeap (fold txOn [tx 0, tx 1] w) 0) = 1 \<and>
       boundaryUnits (wHeap (fold txOn [tx 0, tx 0] w) 0) = 2)"
proof -
  let ?w = "\<lparr>wDets = (\<lambda>_. New []), wHeap = (\<lambda>_. newBoundary 0 Background ''Job''), wNext = 1,
        wAllowlists = (\<lambda>_. NewAllowlist), wCalls = []\<rparr>"
  let ?tx = "\<lambda>d. (d, CtxBoundary 0 Background, ''INSERT INTO t VALUES (1)'', 1) :: nat \<times> Ctx \<times> string \<times> int"
  have "DefaultClassifier ''INSERT INTO t VALUES (1)'' = KindWrite" by code_simp
  then have "writesFor 0 ?w (?tx d)" for d by (simp add: writesFor_def New_def)
  then have "boundaryUnits (wHeap (fold txOn (map ?tx ds) ?w) 0)
      = Max (insert 0 (count_list (map fst (map ?tx ds)) ` fst ` set (map ?tx ds)))" if "length ds < 2 ^ 64" for ds
    using that by (intro transactions_of_two_detectors_merge) (simp_all add: New_def list_all_iff)
  from this [of "[0, 1]"] this [of "[0, 0]"] show ?thesis by (simp add: Let_def del: fold_simps)
qed

end
