(* ===== verification/Driver.thy ===== *)
theory Driver
  imports Session
begin

text \<open>
  \<open>driver.go\<close>: the \<open>database/sql\<close> middleware. A driver connection is a record of its methods,
  each a function of the driver's state \<open>'u\<close>; an optional interface (\<open>driver.ExecerContext\<close>, the
  legacy \<open>driver.Execer\<close>, ...) is an \<open>option\<close>. \<open>wrappedConn\<close> turns such a record into one over the
  state \<open>'u\<close> with the connection's session and the world, \<open>wrappedStmt\<close> and \<open>wrappedTx\<close> likewise. The
  underlying driver is a parameter: any record at all.

  \<open>clk\<close> reads the clock off the driver's state. Of \<open>database/sql\<close>, the theory has the two protocols
  the middleware is written against: the fall-back from \<open>ErrSkip\<close> to a prepared statement, and
  the retry after \<open>ErrBadConn\<close>.
\<close>

section \<open>Errors and calls\<close>

datatype GoError = ErrSkip | ErrBadConn | ErrNew string | ErrWrap string GoError

text \<open>\<open>errors.Is\<close>: the error itself or one it wraps.\<close>

fun errorsIs :: "GoError \<Rightarrow> GoError \<Rightarrow> bool" where
  "errorsIs (ErrWrap s e) target = (ErrWrap s e = target \<or> errorsIs e target)"
| "errorsIs e target = (e = target)"

definition isErr :: "GoError option \<Rightarrow> GoError \<Rightarrow> bool" where
  "isErr err target = (case err of None \<Rightarrow> False | Some e \<Rightarrow> errorsIs e target)"

lemma isErr_simps [simp]: "\<not> isErr None t" "isErr (Some e) t = errorsIs e t"
  by (simp_all add: isErr_def)

lemma errorsIs_refl [simp]: "errorsIs e e"
  by (cases e) simp_all

type_synonym ('u, 'a) Call = "'u \<Rightarrow> 'u \<times> 'a"

text \<open>A method that returns \<open>(T, error)\<close>: both parts are returned, either may be nil.\<close>

type_synonym 'a Returned = "'a option \<times> GoError option"

section \<open>The driver's interfaces\<close>

record NamedValue =
  nvName :: string
  nvValue :: GoAny

record TxOptions =
  toIsolation :: int
  toReadOnly :: bool

definition zeroTxOptions :: TxOptions where
  "zeroTxOptions = \<lparr>toIsolation = 0, toReadOnly = False\<rparr>"

record 'u TxOps =
  txCommit :: "('u, GoError option) Call"
  txRollback :: "('u, GoError option) Call"

record ('u, 'res, 'rows) StmtOps =
  stClose :: "('u, GoError option) Call"
  stNumInput :: int
  stExec :: "GoAny list \<Rightarrow> ('u, 'res Returned) Call"
  stQuery :: "GoAny list \<Rightarrow> ('u, 'rows Returned) Call"
  stExecContext :: "(Ctx \<Rightarrow> NamedValue list \<Rightarrow> ('u, 'res Returned) Call) option"
  stQueryContext :: "(Ctx \<Rightarrow> NamedValue list \<Rightarrow> ('u, 'rows Returned) Call) option"
  stCheckNamedValue :: "(NamedValue \<Rightarrow> ('u, NamedValue \<times> GoError option) Call) option"

text \<open>\<open>Prepare\<close> and \<open>Begin\<close> return a handle or an error, never both.\<close>

record ('u, 'res, 'rows) ConnOps =
  cnPrepare :: "string \<Rightarrow> ('u, GoError + ('u, 'res, 'rows) StmtOps) Call"
  cnClose :: "('u, GoError option) Call"
  cnBegin :: "('u, GoError + 'u TxOps) Call"
  cnPrepareContext :: "(Ctx \<Rightarrow> string \<Rightarrow> ('u, GoError + ('u, 'res, 'rows) StmtOps) Call) option"
  cnBeginTx :: "(Ctx \<Rightarrow> TxOptions \<Rightarrow> ('u, GoError + 'u TxOps) Call) option"
  cnExecContext :: "(Ctx \<Rightarrow> string \<Rightarrow> NamedValue list \<Rightarrow> ('u, 'res Returned) Call) option"
  cnExec :: "(string \<Rightarrow> GoAny list \<Rightarrow> ('u, 'res Returned) Call) option"
  cnQueryContext :: "(Ctx \<Rightarrow> string \<Rightarrow> NamedValue list \<Rightarrow> ('u, 'rows Returned) Call) option"
  cnQuery :: "(string \<Rightarrow> GoAny list \<Rightarrow> ('u, 'rows Returned) Call) option"
  cnPing :: "(Ctx \<Rightarrow> ('u, GoError option) Call) option"
  cnResetSession :: "(Ctx \<Rightarrow> ('u, GoError option) Call) option"
  cnIsValid :: "('u, bool) Call option"
  cnCheckNamedValue :: "(NamedValue \<Rightarrow> ('u, NamedValue \<times> GoError option) Call) option"

section \<open>State of a wrapped connection\<close>

text \<open>\<open>wrappedConn\<close> has the underlying connection (a record, and the driver's state) and a session.\<close>

type_synonym 'u Wrapped = "'u \<times> Session \<times> World"

definition underlying :: "('u, 'a) Call \<Rightarrow> ('u Wrapped, 'a) Call" where
  "underlying f s = (let (u, sw) = s; (u', a) = f u in ((u', sw), a))"

definition onSession :: "(Session \<times> World \<Rightarrow> Session \<times> World) \<Rightarrow> 'u Wrapped \<Rightarrow> 'u Wrapped" where
  "onSession f s = (let (u, sw) = s in (u, f sw))"

definition observe :: "('u \<Rightarrow> int) \<Rightarrow> Ctx \<Rightarrow> string \<Rightarrow> 'u Wrapped \<Rightarrow> 'u Wrapped" where
  "observe clk ctx query s = onSession (Observe ctx query (clk (fst s))) s"

definition classifyOf :: "string \<Rightarrow> 'u Wrapped \<Rightarrow> StatementKind" where
  "classifyOf query s = (let (u, se, w) = s in dClassify (wDets w (sDet se)) query)"

fun namedValuesToValues :: "NamedValue list \<Rightarrow> GoError + GoAny list" where
  "namedValuesToValues [] = Inr []"
| "namedValuesToValues (nv # named) =
     (if nvName nv \<noteq> [] then
        Inl (ErrNew ''txnproof: named parameters are not supported by the underlying driver'')
      else (case namedValuesToValues named of Inl e \<Rightarrow> Inl e | Inr vals \<Rightarrow> Inr (nvValue nv # vals)))"

section \<open>wrappedStmt\<close>

text \<open>The two checks after a statement ran: bad connections are retried elsewhere, everything else is
  observed with the kind of the statement.\<close>

definition stmtObserved ::
    "('u \<Rightarrow> int) \<Rightarrow> Ctx \<Rightarrow> string \<Rightarrow> StatementKind \<Rightarrow> 'u Wrapped \<times> 'a Returned \<Rightarrow>
     'u Wrapped \<times> 'a Returned" where
  "stmtObserved clk ctx query kind sr =
     (let (s, res, err) = sr in
      if isErr err ErrBadConn then (s, None, err)
      else (onSession (observeKind ctx query kind (clk (fst s))) s, res, err))"

definition wsExec where
  "wsExec clk stmt query kind args s =
     stmtObserved clk Background query kind (underlying (stExec stmt args) s)"

definition wsExecUnderlying where
  "wsExecUnderlying stmt ctx args u =
     (case stExecContext stmt of
        Some f \<Rightarrow> f ctx args u
      | None \<Rightarrow> (case namedValuesToValues args of
            Inl e \<Rightarrow> (u, None, Some e)
          | Inr vals \<Rightarrow> stExec stmt vals u))"

definition wsExecContext where
  "wsExecContext clk stmt query kind ctx args s =
     stmtObserved clk ctx query kind (underlying (wsExecUnderlying stmt ctx args) s)"

definition wsQuery where
  "wsQuery clk stmt query kind args s =
     stmtObserved clk Background query kind (underlying (stQuery stmt args) s)"

definition wsQueryUnderlying where
  "wsQueryUnderlying stmt ctx args u =
     (case stQueryContext stmt of
        Some f \<Rightarrow> f ctx args u
      | None \<Rightarrow> (case namedValuesToValues args of
            Inl e \<Rightarrow> (u, None, Some e)
          | Inr vals \<Rightarrow> stQuery stmt vals u))"

definition wsQueryContext where
  "wsQueryContext clk stmt query kind ctx args s =
     stmtObserved clk ctx query kind (underlying (wsQueryUnderlying stmt ctx args) s)"

definition wsCheckNamedValue where
  "wsCheckNamedValue conn stmt nv u =
     (case stCheckNamedValue stmt of
        Some f \<Rightarrow> f nv u
      | None \<Rightarrow> (case cnCheckNamedValue conn of
            Some f \<Rightarrow> f nv u
          | None \<Rightarrow> (u, nv, Some ErrSkip)))"

text \<open>The \<open>wrappedStmt\<close> made at \<open>Prepare\<close>.\<close>

definition wrappedStmt ::
    "('u \<Rightarrow> int) \<Rightarrow> ('u, 'res, 'rows) ConnOps \<Rightarrow> string \<Rightarrow> StatementKind \<Rightarrow>
     ('u, 'res, 'rows) StmtOps \<Rightarrow> ('u Wrapped, 'res, 'rows) StmtOps" where
  "wrappedStmt clk conn query kind stmt =
     \<lparr>stClose = underlying (stClose stmt), stNumInput = stNumInput stmt,
      stExec = wsExec clk stmt query kind, stQuery = wsQuery clk stmt query kind,
      stExecContext = Some (wsExecContext clk stmt query kind),
      stQueryContext = Some (wsQueryContext clk stmt query kind),
      stCheckNamedValue = Some (\<lambda>nv. underlying (wsCheckNamedValue conn stmt nv))\<rparr>"

section \<open>wrappedTx\<close>

text \<open>The transaction ends for the session whether or not the underlying call succeeds.\<close>

definition wtEnd :: "('u, GoError option) Call \<Rightarrow> ('u Wrapped, GoError option) Call" where
  "wtEnd f s = (let (s', err) = underlying f s in (onSession endTx s', err))"

definition wrappedTx :: "'u TxOps \<Rightarrow> 'u Wrapped TxOps" where
  "wrappedTx tx = \<lparr>txCommit = wtEnd (txCommit tx), txRollback = wtEnd (txRollback tx)\<rparr>"

section \<open>wrappedConn\<close>

definition prepared where
  "prepared clk conn query sr =
     (let (s, r) = sr in
      case r of Inl e \<Rightarrow> (s, Inl e)
      | Inr stmt \<Rightarrow> (s, Inr (wrappedStmt clk conn query (classifyOf query s) stmt)))"

definition wcPrepare where
  "wcPrepare clk conn query s = prepared clk conn query (underlying (cnPrepare conn query) s)"

definition wcPrepareContext where
  "wcPrepareContext clk conn ctx query s =
     (case cnPrepareContext conn of
        Some f \<Rightarrow> prepared clk conn query (underlying (f ctx query) s)
      | None \<Rightarrow> wcPrepare clk conn query s)"

definition begun where
  "begun sr =
     (let (s, r) = sr in
      case r of Inl e \<Rightarrow> (s, Inl e) | Inr tx \<Rightarrow> (onSession beginTx s, Inr (wrappedTx tx)))"

definition wcBegin where
  "wcBegin conn s = begun (underlying (cnBegin conn) s)"

definition wcBeginTx where
  "wcBeginTx conn ctx opts s =
     (case cnBeginTx conn of
        Some f \<Rightarrow> begun (underlying (f ctx opts) s)
      | None \<Rightarrow>
          if opts \<noteq> zeroTxOptions then
            (s, Inl (ErrNew ''txnproof: underlying driver does not support non-default transaction options''))
          else wcBegin conn s)"

definition connObserved ::
    "('u \<Rightarrow> int) \<Rightarrow> Ctx \<Rightarrow> string \<Rightarrow> 'u Wrapped \<times> 'a Returned \<Rightarrow> 'u Wrapped \<times> 'a Returned" where
  "connObserved clk ctx query sr =
     (let (s, res, err) = sr in
      if isErr err ErrSkip then (s, None, Some ErrSkip)
      else if isErr err ErrBadConn then (s, None, err)
      else (observe clk ctx query s, res, err))"

definition wcExecUnderlying where
  "wcExecUnderlying conn ctx query args u =
     (case cnExecContext conn of
        Some f \<Rightarrow> f ctx query args u
      | None \<Rightarrow>
          (case cnExec conn of
             Some f \<Rightarrow> (case namedValuesToValues args of
                 Inl e \<Rightarrow> (u, None, Some e)
               | Inr vals \<Rightarrow> f query vals u)
           | None \<Rightarrow> (u, None, Some ErrSkip)))"

definition wcExecContext where
  "wcExecContext clk conn ctx query args s =
     connObserved clk ctx query (underlying (wcExecUnderlying conn ctx query args) s)"

definition wcQueryUnderlying where
  "wcQueryUnderlying conn ctx query args u =
     (case cnQueryContext conn of
        Some f \<Rightarrow> f ctx query args u
      | None \<Rightarrow>
          (case cnQuery conn of
             Some f \<Rightarrow> (case namedValuesToValues args of
                 Inl e \<Rightarrow> (u, None, Some e)
               | Inr vals \<Rightarrow> f query vals u)
           | None \<Rightarrow> (u, None, Some ErrSkip)))"

definition wcQueryContext where
  "wcQueryContext clk conn ctx query args s =
     connObserved clk ctx query (underlying (wcQueryUnderlying conn ctx query args) s)"

definition wcPing where
  "wcPing conn ctx = (case cnPing conn of Some f \<Rightarrow> f ctx | None \<Rightarrow> (\<lambda>u. (u, None)))"

definition wcResetSession where
  "wcResetSession conn ctx = (case cnResetSession conn of Some f \<Rightarrow> f ctx | None \<Rightarrow> (\<lambda>u. (u, None)))"

definition wcIsValid where
  "wcIsValid conn = (case cnIsValid conn of Some f \<Rightarrow> f | None \<Rightarrow> (\<lambda>u. (u, True)))"

definition wcCheckNamedValue where
  "wcCheckNamedValue conn nv u =
     (case cnCheckNamedValue conn of Some f \<Rightarrow> f nv u | None \<Rightarrow> (u, nv, Some ErrSkip))"

definition wrappedConn ::
    "('u \<Rightarrow> int) \<Rightarrow> ('u, 'res, 'rows) ConnOps \<Rightarrow> ('u Wrapped, 'res, 'rows) ConnOps" where
  "wrappedConn clk conn =
     \<lparr>cnPrepare = wcPrepare clk conn, cnClose = underlying (cnClose conn),
      cnBegin = wcBegin conn, cnPrepareContext = Some (wcPrepareContext clk conn),
      cnBeginTx = Some (wcBeginTx conn), cnExecContext = Some (wcExecContext clk conn),
      cnExec = None, cnQueryContext = Some (wcQueryContext clk conn), cnQuery = None,
      cnPing = Some (\<lambda>ctx. underlying (wcPing conn ctx)),
      cnResetSession = Some (\<lambda>ctx. underlying (wcResetSession conn ctx)),
      cnIsValid = Some (underlying (wcIsValid conn)),
      cnCheckNamedValue = Some (\<lambda>nv. underlying (wcCheckNamedValue conn nv))\<rparr>"

text \<open>\<open>wrappedDriver.Open\<close> and \<open>wrappedConnector.Connect\<close>: a new connection starts a new session.\<close>

definition opened ::
    "('u \<Rightarrow> int) \<Rightarrow> nat \<Rightarrow> ('u, GoError + ('u, 'res, 'rows) ConnOps) Call \<Rightarrow> 'u \<times> World \<Rightarrow>
     GoError \<times> 'u \<times> World + 'u Wrapped \<times> ('u Wrapped, 'res, 'rows) ConnOps" where
  "opened clk d open_conn uw =
     (let (u, w) = uw; (u', r) = open_conn u in
      case r of Inl e \<Rightarrow> Inl (e, u', w)
      | Inr conn \<Rightarrow> Inr ((u', NewSession d, w), wrappedConn clk conn))"

section \<open>Effect of each method on the session\<close>

lemma underlying_state [simp]: "snd (fst (underlying f (u, sw))) = sw"
  by (simp add: underlying_def split: prod.split)

lemma underlying_eq: "underlying f (u, sw) = ((fst (f u), sw), snd (f u))"
  by (simp add: underlying_def split: prod.split)

lemma wtEnd_eq: "wtEnd f (u, sw) = ((fst (f u), endTx sw), snd (f u))"
  by (simp add: wtEnd_def underlying_eq onSession_def)

lemma stmtObserved_eq:
  "stmtObserved clk ctx q k ((u, sw), res, err) =
    (if isErr err ErrBadConn then ((u, sw), None, err)
     else ((u, observeKind ctx q k (clk u) sw), res, err))"
  by (simp add: stmtObserved_def onSession_def)

lemma connObserved_eq:
  "connObserved clk ctx q ((u, sw), res, err) =
    (if isErr err ErrSkip then ((u, sw), None, Some ErrSkip)
     else if isErr err ErrBadConn then ((u, sw), None, err)
     else ((u, Observe ctx q (clk u) sw), res, err))"
  by (simp add: connObserved_def observe_def onSession_def)

lemmas wrapped_defs = underlying_eq stmtObserved_eq connObserved_eq wtEnd_eq

section \<open>A client of the driver\<close>

text \<open>A client keeps the statements it prepared and the transaction it opened, and calls the methods
  of a connection in any order. The log says what each call was and how it ended, with the time on
  the clock after it; a call on a statement or transaction the client does not have is no call.\<close>

datatype DriverOp =
    DPrepare Ctx string
  | DStmtExec nat Ctx "NamedValue list"
  | DStmtQuery nat Ctx "NamedValue list"
  | DExec Ctx string "NamedValue list"
  | DQuery Ctx string "NamedValue list"
  | DBegin Ctx TxOptions
  | DCommit
  | DRollback
  | DPing Ctx
  | DReset Ctx

datatype DriverEvent =
    EvConn Ctx string "GoError option" int
  | EvStmt Ctx string "GoError option" int
  | EvBegin "GoError option"
  | EvEnd "GoError option"
  | EvOther

record ('v, 'res, 'rows) Client =
  clState :: 'v
  clStmts :: "(string \<times> ('v, 'res, 'rows) StmtOps) list"
  clTx :: "'v TxOps option"
  clLog :: "DriverEvent list"

definition newClient :: "'v \<Rightarrow> ('v, 'res, 'rows) Client" where
  "newClient v = \<lparr>clState = v, clStmts = [], clTx = None, clLog = []\<rparr>"

definition logged where
  "logged cl v ev = cl\<lparr>clState := v, clLog := clLog cl @ [ev]\<rparr>"

definition endCall where
  "endCall f cl = (let (v, err) = f (clState cl) in (logged cl v (EvEnd err))\<lparr>clTx := None\<rparr>)"

text \<open>The connection is used through the context-aware interfaces, as \<open>database/sql\<close> uses one that has
  them.\<close>

fun clientStep ::
    "('v \<Rightarrow> int) \<Rightarrow> ('v, 'res, 'rows) ConnOps \<Rightarrow> DriverOp \<Rightarrow> ('v, 'res, 'rows) Client \<Rightarrow>
     ('v, 'res, 'rows) Client" where
  "clientStep clk c (DPrepare ctx q) cl =
     (case cnPrepareContext c of None \<Rightarrow> cl
      | Some f \<Rightarrow> (let (v, r) = f ctx q (clState cl) in
          case r of Inl e \<Rightarrow> logged cl v EvOther
          | Inr stmt \<Rightarrow> (logged cl v EvOther)\<lparr>clStmts := clStmts cl @ [(q, stmt)]\<rparr>))"
| "clientStep clk c (DStmtExec h ctx args) cl =
     (if h < length (clStmts cl) then
        (case stExecContext (snd (clStmts cl ! h)) of None \<Rightarrow> cl
         | Some f \<Rightarrow> (let (v, res, err) = f ctx args (clState cl) in
             logged cl v (EvStmt ctx (fst (clStmts cl ! h)) err (clk v))))
      else cl)"
| "clientStep clk c (DStmtQuery h ctx args) cl =
     (if h < length (clStmts cl) then
        (case stQueryContext (snd (clStmts cl ! h)) of None \<Rightarrow> cl
         | Some f \<Rightarrow> (let (v, rows, err) = f ctx args (clState cl) in
             logged cl v (EvStmt ctx (fst (clStmts cl ! h)) err (clk v))))
      else cl)"
| "clientStep clk c (DExec ctx q args) cl =
     (case cnExecContext c of None \<Rightarrow> cl
      | Some f \<Rightarrow> (let (v, res, err) = f ctx q args (clState cl) in
          logged cl v (EvConn ctx q err (clk v))))"
| "clientStep clk c (DQuery ctx q args) cl =
     (case cnQueryContext c of None \<Rightarrow> cl
      | Some f \<Rightarrow> (let (v, rows, err) = f ctx q args (clState cl) in
          logged cl v (EvConn ctx q err (clk v))))"
| "clientStep clk c (DBegin ctx opts) cl =
     (case cnBeginTx c of None \<Rightarrow> cl
      | Some f \<Rightarrow> (let (v, r) = f ctx opts (clState cl) in
          case r of Inl e \<Rightarrow> logged cl v (EvBegin (Some e))
          | Inr tx \<Rightarrow> (logged cl v (EvBegin None))\<lparr>clTx := Some tx\<rparr>))"
| "clientStep clk c DCommit cl =
     (case clTx cl of None \<Rightarrow> cl | Some tx \<Rightarrow> endCall (txCommit tx) cl)"
| "clientStep clk c DRollback cl =
     (case clTx cl of None \<Rightarrow> cl | Some tx \<Rightarrow> endCall (txRollback tx) cl)"
| "clientStep clk c (DPing ctx) cl =
     (case cnPing c of None \<Rightarrow> cl
      | Some f \<Rightarrow> (let (v, err) = f ctx (clState cl) in logged cl v EvOther))"
| "clientStep clk c (DReset ctx) cl =
     (case cnResetSession c of None \<Rightarrow> cl
      | Some f \<Rightarrow> (let (v, err) = f ctx (clState cl) in logged cl v EvOther))"

text \<open>What the middleware makes of an event, as operations on the session: a statement is observed
  unless \<open>database/sql\<close> will run it again, a transaction starts when \<open>Begin\<close> succeeds and ends
  whether or not \<open>Commit\<close> or \<open>Rollback\<close> does.\<close>

fun sessionOps :: "DriverEvent \<Rightarrow> SessionOp list" where
  "sessionOps (EvConn ctx q err t) =
     (if isErr err ErrSkip \<or> isErr err ErrBadConn then [] else [OpObserve ctx q t])"
| "sessionOps (EvStmt ctx q err t) = (if isErr err ErrBadConn then [] else [OpObserve ctx q t])"
| "sessionOps (EvBegin err) = (if err = None then [OpBeginTx] else [])"
| "sessionOps (EvEnd err) = [OpEndTx]"
| "sessionOps EvOther = []"

definition wrappedStmts where
  "wrappedStmts clk conn cl stmts \<longleftrightarrow>
     list_all (\<lambda>(q, st). \<exists>stmt. st = wrappedStmt clk conn q (cl q) stmt) stmts"

definition wrappedTxs where
  "wrappedTxs tx \<longleftrightarrow> (case tx of None \<Rightarrow> True | Some t \<Rightarrow> \<exists>u. t = wrappedTx u)"

lemma sessionRun_classifier:
  "sDet (fst (fold sessionStep xs (se, w))) = sDet se \<and>
   dClassify (wDets (snd (fold sessionStep xs (se, w))) (sDet se)) = dClassify (wDets w (sDet se))"
proof (induction xs arbitrary: se w)
  case (Cons x xs)
  obtain se' w' where step: "sessionStep x (se, w) = (se', w')"
    by (cases "sessionStep x (se, w)") auto
  have "dClassify (wDets w' (sDet se)) = dClassify (wDets w (sDet se))"
    by (subst sessionStep_effect(2) [OF step]) simp
  with Cons [of se' w'] sessionStep_effect(1) [OF step] step show ?case by simp
qed simp

definition followed where
  "followed clk conn se w cl \<longleftrightarrow>
     snd (clState cl) = fold sessionStep (concat (map sessionOps (clLog cl))) (se, w) \<and>
     wrappedStmts clk conn (dClassify (wDets w (sDet se))) (clStmts cl) \<and> wrappedTxs (clTx cl)"

lemma followed_classifier:
  assumes "followed clk conn se w cl" and "clState cl = (u, se', w')"
  shows "dClassify (wDets w' (sDet se')) = dClassify (wDets w (sDet se))"
  using assms sessionRun_classifier [of "concat (map sessionOps (clLog cl))" se w]
  by (simp add: followed_def) (metis fst_conv snd_conv)

lemma followed_logged:
  assumes "followed clk conn se w cl"
    and "snd v = fold sessionStep (sessionOps ev) (snd (clState cl))"
  shows "followed clk conn se w (logged cl v ev)"
  using assms by (simp add: followed_def logged_def)

lemma followed_new: "followed clk conn se w (newClient (u, se, w))"
  by (simp add: followed_def newClient_def wrappedStmts_def wrappedTxs_def)

lemma followed_stmt:
  assumes "followed clk conn se w cl" and "h < length (clStmts cl)"
  obtains stmt where "snd (clStmts cl ! h) = wrappedStmt clk conn (fst (clStmts cl ! h))
    (dClassify (wDets w (sDet se)) (fst (clStmts cl ! h))) stmt"
  using assms
  by (auto simp: followed_def wrappedStmts_def list_all_iff split_def dest: nth_mem)

lemma followed_exec:
  assumes "followed clk conn se w cl"
    and "ev = EvStmt ctx q (snd (snd r)) (clk (fst (fst r)))"
    and "r = stmtObserved clk ctx q (dClassify (wDets w (sDet se)) q) (underlying f (clState cl))"
  shows "followed clk conn se w (logged cl (fst r) ev)"
proof (rule followed_logged [OF assms(1)])
  obtain u se' w' where st: "clState cl = (u, se', w')" by (cases "clState cl") auto
  show "snd (fst r) = fold sessionStep (sessionOps ev) (snd (clState cl))"
    using followed_classifier [OF assms(1) st]
    by (cases "snd (f u)") (auto simp: assms(2,3) st underlying_eq stmtObserved_eq Observe_def)
qed

lemma followed_conn:
  assumes "followed clk conn se w cl"
    and "ev = EvConn ctx q (snd (snd r)) (clk (fst (fst r)))"
    and "r = connObserved clk ctx q (underlying f (clState cl))"
  shows "followed clk conn se w (logged cl (fst r) ev)"
proof (rule followed_logged [OF assms(1)])
  obtain u se' w' where st: "clState cl = (u, se', w')" by (cases "clState cl") auto
  show "snd (fst r) = fold sessionStep (sessionOps ev) (snd (clState cl))"
    by (cases "snd (f u)") (auto simp: assms(2,3) st underlying_eq connObserved_eq)
qed

lemma followed_plain:
  assumes "followed clk conn se w cl"
  shows "followed clk conn se w (logged cl (fst (underlying f (clState cl))) EvOther)"
  by (rule followed_logged [OF assms]) (cases "clState cl"; simp add: underlying_eq)

lemma followed_step:
  assumes "followed clk conn se w cl"
  shows "followed clk conn se w (clientStep (\<lambda>v. clk (fst v)) (wrappedConn clk conn) x cl)"
proof -
  obtain u sw where st: "clState cl = (u, sw)" by (cases "clState cl")
  have cls: "classifyOf q (u', sw) = dClassify (wDets w (sDet se)) q" for q u'
    using followed_classifier [OF assms, of u "fst sw" "snd sw"] by (simp add: st classifyOf_def split_def)
  have inv: "fold sessionStep (concat (map sessionOps (clLog cl))) (se, w) = sw"
    "wrappedStmts clk conn (dClassify (wDets w (sDet se))) (clStmts cl)" "wrappedTxs (clTx cl)"
    using assms by (simp_all add: followed_def st)
  show ?thesis
  proof (cases x)
    case (DPrepare ctx q)
    then show ?thesis
      using inv(2)
      by (auto simp: wrappedConn_def wcPrepareContext_def wcPrepare_def prepared_def underlying_eq
          st cls followed_def logged_def wrappedStmts_def inv(1) inv(3) split: option.split sum.split)
  next
    case (DStmtExec h ctx args)
    show ?thesis
    proof (cases "h < length (clStmts cl)")
      case True
      obtain stmt where "snd (clStmts cl ! h) = wrappedStmt clk conn (fst (clStmts cl ! h))
          (dClassify (wDets w (sDet se)) (fst (clStmts cl ! h))) stmt"
        by (rule followed_stmt [OF assms True])
      with True followed_exec [OF assms refl refl] DStmtExec show ?thesis
        by (simp add: wrappedStmt_def wsExecContext_def split_def Let_def)
    qed (simp add: DStmtExec assms)
  next
    case (DStmtQuery h ctx args)
    show ?thesis
    proof (cases "h < length (clStmts cl)")
      case True
      obtain stmt where "snd (clStmts cl ! h) = wrappedStmt clk conn (fst (clStmts cl ! h))
          (dClassify (wDets w (sDet se)) (fst (clStmts cl ! h))) stmt"
        by (rule followed_stmt [OF assms True])
      with True followed_exec [OF assms refl refl] DStmtQuery show ?thesis
        by (simp add: wrappedStmt_def wsQueryContext_def split_def Let_def)
    qed (simp add: DStmtQuery assms)
  next
    case (DExec ctx q args)
    then show ?thesis
      using followed_conn [OF assms refl refl]
      by (simp add: wrappedConn_def wcExecContext_def split_def Let_def)
  next
    case (DQuery ctx q args)
    then show ?thesis
      using followed_conn [OF assms refl refl]
      by (simp add: wrappedConn_def wcQueryContext_def split_def Let_def)
  next
    case (DBegin ctx opts)
    then show ?thesis
      using assms
      by (auto simp: wrappedConn_def wcBeginTx_def wcBegin_def begun_def underlying_eq onSession_def
          st followed_def logged_def wrappedTxs_def split: option.split sum.split)
  next
    case DCommit
    with assms show ?thesis
      by (auto simp: followed_def wrappedTxs_def endCall_def logged_def wrappedTx_def wtEnd_eq st
          split: option.split)
  next
    case DRollback
    with assms show ?thesis
      by (auto simp: followed_def wrappedTxs_def endCall_def logged_def wrappedTx_def wtEnd_eq st
          split: option.split)
  next
    case (DPing ctx)
    then show ?thesis
      using followed_plain [OF assms] by (simp add: wrappedConn_def split_def Let_def)
  next
    case (DReset ctx)
    then show ?thesis
      using followed_plain [OF assms] by (simp add: wrappedConn_def split_def Let_def)
  qed
qed

lemma followed_run:
  "followed clk conn se w cl \<Longrightarrow>
    followed clk conn se w (fold (clientStep (\<lambda>v. clk (fst v)) (wrappedConn clk conn)) xs cl)"
  by (induction xs arbitrary: cl) (simp_all add: followed_step)

section \<open>database/sql: fall-back and retry\<close>

text \<open>\<open>DB.execDC\<close>: the connection's own \<open>ExecContext\<close> (or legacy \<open>Exec\<close>) first, and when that
  answers \<open>ErrSkip\<close>, or there is none, a statement that is prepared, executed and closed.\<close>

definition sqlNamedValues :: "NamedValue list \<Rightarrow> GoError + GoAny list" where
  "sqlNamedValues args =
     (if list_ex (\<lambda>nv. nvName nv \<noteq> []) args then
        Inl (ErrNew ''sql: driver does not support the use of Named Parameters'')
      else Inr (map nvValue args))"

definition sqlExecDirect ::
    "Ctx \<Rightarrow> string \<Rightarrow> NamedValue list \<Rightarrow> ('v, 'res, 'rows) ConnOps \<Rightarrow> ('v, 'res Returned) Call" where
  "sqlExecDirect ctx q args c v =
     (case cnExecContext c of
        Some f \<Rightarrow> f ctx q args v
      | None \<Rightarrow> (case cnExec c of
            Some f \<Rightarrow> (case sqlNamedValues args of
                Inl e \<Rightarrow> (v, None, Some e) | Inr vals \<Rightarrow> f q vals v)
          | None \<Rightarrow> (v, None, Some ErrSkip)))"

definition sqlStmtExec ::
    "Ctx \<Rightarrow> NamedValue list \<Rightarrow> ('v, 'res, 'rows) StmtOps \<Rightarrow> ('v, 'res Returned) Call" where
  "sqlStmtExec ctx args stmt v =
     (case stExecContext stmt of
        Some f \<Rightarrow> f ctx args v
      | None \<Rightarrow> (case sqlNamedValues args of
            Inl e \<Rightarrow> (v, None, Some e) | Inr vals \<Rightarrow> stExec stmt vals v))"

text \<open>The fall-back, for any call on the connection and the same call on a prepared statement.\<close>

definition sqlFallback ::
    "Ctx \<Rightarrow> string \<Rightarrow> ('v, 'res, 'rows) ConnOps \<Rightarrow> ('v, 'a Returned) Call \<Rightarrow>
     (('v, 'res, 'rows) StmtOps \<Rightarrow> ('v, 'a Returned) Call) \<Rightarrow> ('v, 'a Returned) Call" where
  "sqlFallback ctx q c direct viaStmt v =
     (let (v1, res, err) = direct v in
      if err \<noteq> Some ErrSkip then (v1, (if err = None then res else None), err)
      else
        let (v2, r) = (case cnPrepareContext c of Some f \<Rightarrow> f ctx q v1 | None \<Rightarrow> cnPrepare c q v1)
        in case r of
             Inl e \<Rightarrow> (v2, None, Some e)
           | Inr stmt \<Rightarrow>
               let (v3, res, err) = viaStmt stmt v2; (v4, _) = stClose stmt v3
               in (v4, (if err = None then res else None), err))"

definition sqlExec ::
    "Ctx \<Rightarrow> string \<Rightarrow> NamedValue list \<Rightarrow> ('v, 'res, 'rows) ConnOps \<Rightarrow> ('v, 'res Returned) Call" where
  "sqlExec ctx q args c = sqlFallback ctx q c (sqlExecDirect ctx q args c) (sqlStmtExec ctx args)"

text \<open>\<open>DB.retry\<close> over the connections the pool hands out, one per attempt: a bad result moves on to
  the next connection; \<open>none\<close> is the result when the pool has no connection.\<close>

fun poolRetry ::
    "(nat \<Rightarrow> ('u Wrapped, 'r) Call) \<Rightarrow> ('r \<Rightarrow> bool) \<Rightarrow> 'r \<Rightarrow> nat list \<Rightarrow> ('u \<times> Pool, 'r) Call" where
  "poolRetry f bad none [] st = (st, none)"
| "poolRetry f bad none (c # cs) (u, ss, w) =
     (let ((u', s', w'), r) = f c (u, ss c, w); st' = (u', ss(c := s'), w')
      in if bad r \<and> cs \<noteq> [] then poolRetry f bad none cs st' else (st', r))"

definition sqlRetry ::
    "('u \<Rightarrow> int) \<Rightarrow> (nat \<Rightarrow> ('u, 'res, 'rows) ConnOps) \<Rightarrow> Ctx \<Rightarrow> string \<Rightarrow> NamedValue list \<Rightarrow>
     nat list \<Rightarrow> 'u \<times> Pool \<Rightarrow> ('u \<times> Pool) \<times> 'res Returned" where
  "sqlRetry clk conns ctx q args =
     poolRetry (\<lambda>c. sqlExec ctx q args (wrappedConn clk (conns c))) (\<lambda>r. isErr (snd r) ErrBadConn)
       (None, Some ErrBadConn)"

text \<open>If bad attempts leave the sessions and the world alone, all that counts is the last attempt.\<close>

lemma poolRetry_last:
  assumes "poolRetry f bad none cs (u, ss, w) = ((u', ss', w'), r)"
    and "\<And>c u sw v r. f c (u, sw) = (v, r) \<Longrightarrow> bad r \<Longrightarrow> snd v = sw"
  shows "cs = [] \<and> r = none \<and> ss' = ss \<and> w' = w \<or>
    (\<exists>c\<in>set cs. \<exists>u1 s'. f c (u1, ss c, w) = ((u', s', w'), r) \<and> ss' = ss(c := s'))"
  using assms(1)
proof (induction cs arbitrary: u)
  case (Cons c cs)
  obtain u1 s1 w1 r1 where one: "f c (u, ss c, w) = ((u1, s1, w1), r1)"
    by (cases "f c (u, ss c, w)") auto
  show ?case
  proof (cases "bad r1 \<and> cs \<noteq> []")
    case True
    then have "s1 = ss c" "w1 = w" using assms(2) [OF one] by auto
    then have "poolRetry f bad none cs (u1, ss, w) = ((u', ss', w'), r)"
      using Cons.prems True by (simp add: one)
    from Cons.IH [OF this] True show ?thesis by auto
  next
    case False
    then have "u1 = u'" "w1 = w'" "r1 = r" "ss' = ss(c := s1)" using Cons.prems by (auto simp: one Let_def)
    with one show ?thesis by (intro disjI2 bexI [of _ c] exI [of _ u] exI [of _ s1]) simp_all
  qed
qed simp

text \<open>One attempt on a wrapped connection: an \<open>ErrBadConn\<close> leaves the session and the world alone, a
  success observes the statement exactly once, whichever of the two paths it took; no attempt
  observes it twice.\<close>

definition observedOnce where
  "observedOnce ctx q sw sw' err \<longleftrightarrow>
     sw' = sw \<and> err \<noteq> None \<or> (\<exists>t. sw' = Observe ctx q t sw) \<and> \<not> isErr err ErrBadConn"

lemma stmtObserved_once:
  assumes "stmtObserved clk ctx q (classifyOf q (u, sw)) (underlying f (u, sw)) = ((u', sw'), res, err)"
  shows "observedOnce ctx q sw sw' err"
  using assms
  by (cases "snd (f u)"; cases sw)
    (auto simp: underlying_eq stmtObserved_eq classifyOf_def Observe_def observedOnce_def isErr_def
      split: if_splits option.splits)

lemma sqlFallback_wrapped:
  assumes "sqlFallback ctx q (wrappedConn clk conn) direct viaStmt (u, sw) = ((u', sw'), res, err)"
    and "direct (u, sw) = connObserved clk ctx q (underlying g (u, sw))"
    and "\<And>stmt v. viaStmt (wrappedStmt clk conn q (classifyOf q v) stmt) v =
      stmtObserved clk ctx q (classifyOf q v) (underlying (h stmt) v)"
  shows "observedOnce ctx q sw sw' err"
proof -
  obtain u1 res1 err1 where direct: "g u = (u1, res1, err1)" by (cases "g u") auto
  have first: "direct (u, sw) = connObserved clk ctx q ((u1, sw), res1, err1)"
    by (simp add: assms(2) underlying_eq direct)
  show ?thesis
  proof (cases "isErr err1 ErrSkip")
    case False
    then have "err1 \<noteq> Some ErrSkip" by auto
    with False first assms(1) show ?thesis
      by (auto simp: sqlFallback_def connObserved_eq isErr_def observedOnce_def
          split: if_splits option.splits)
  next
    case True
    let ?prep = "wcPrepareContext clk conn ctx q (u1, sw)"
    from True first assms(1) have rest: "(let (v2, r) = ?prep in
        case r of Inl e \<Rightarrow> (v2, None, Some e)
        | Inr stmt \<Rightarrow> let (v3, res, err) = viaStmt stmt v2; (v4, _) = stClose stmt v3
            in (v4, (if err = None then res else None), err)) = ((u', sw'), res, err)"
      by (simp add: sqlFallback_def connObserved_eq) (simp add: wrappedConn_def)
    obtain p where prep: "?prep = prepared clk conn q (underlying p (u1, sw))"
      by (cases "cnPrepareContext conn") (simp_all add: wcPrepareContext_def wcPrepare_def)
    show ?thesis
    proof (cases "snd (p u1)")
      case (Inl e)
      with rest prep show ?thesis by (auto simp: prepared_def underlying_eq observedOnce_def)
    next
      case (Inr stmt)
      let ?u2 = "fst (p u1)"
      obtain u3 sw3 res3 err3 where exec: "stmtObserved clk ctx q (classifyOf q (?u2, sw))
          (underlying (h stmt) (?u2, sw)) = ((u3, sw3), res3, err3)"
        by (cases "stmtObserved clk ctx q (classifyOf q (?u2, sw)) (underlying (h stmt) (?u2, sw))") auto
      have "sw' = sw3" and "err = err3"
        using rest prep Inr exec by (simp_all add: prepared_def underlying_eq assms(3))
          (simp_all add: wrappedStmt_def underlying_eq)
      with stmtObserved_once [OF exec] show ?thesis by simp
    qed
  qed
qed

lemma sqlExec_wrapped:
  assumes "sqlExec ctx q args (wrappedConn clk conn) (u, sw) = ((u', sw'), res, err)"
  shows "observedOnce ctx q sw sw' err"
  by (rule sqlFallback_wrapped [OF assms [unfolded sqlExec_def]])
    (simp_all add: sqlExecDirect_def wrappedConn_def wcExecContext_def sqlStmtExec_def wrappedStmt_def
      wsExecContext_def)

lemma sqlRetry_once:
  assumes "sqlRetry clk conns ctx q args cs (u, ss, w) = ((u', ss', w'), res, err)"
  shows "ss' = ss \<and> w' = w \<and> err \<noteq> None \<or>
    (\<exists>c t s'. c \<in> set cs \<and> Observe ctx q t (ss c, w) = (s', w') \<and> ss' = ss(c := s')) \<and>
      \<not> isErr err ErrBadConn"
proof -
  have bad: "snd v = sw" if "sqlExec ctx q args (wrappedConn clk (conns c)) (u, sw) = (v, r)"
    and "isErr (snd r) ErrBadConn" for c u sw v r
    using that sqlExec_wrapped [of ctx q args clk "conns c" u sw "fst v" "snd v" "fst r" "snd r"]
    by (auto simp: observedOnce_def)
  have "cs = [] \<and> (res, err) = (None, Some ErrBadConn) \<and> ss' = ss \<and> w' = w \<or>
    (\<exists>c\<in>set cs. \<exists>u1 s'. sqlExec ctx q args (wrappedConn clk (conns c)) (u1, ss c, w) = ((u', s', w'), res, err) \<and>
      ss' = ss(c := s'))"
    by (rule poolRetry_last [OF assms [unfolded sqlRetry_def]]) (rule bad)
  then consider "err \<noteq> None" "ss' = ss" "w' = w"
    | c u1 s' where "c \<in> set cs" "ss' = ss(c := s')"
      "sqlExec ctx q args (wrappedConn clk (conns c)) (u1, ss c, w) = ((u', s', w'), res, err)"
    by auto
  then show ?thesis
  proof cases
    case 2
    from sqlExec_wrapped [OF 2(3)] 2(1,2) show ?thesis
      by (auto simp: observedOnce_def eq_commute [of "(s', w')"])
  qed simp
qed

section \<open>Properties\<close>

text \<open>C4. The middleware reduces a connection to its session. Whatever the underlying driver is,
  whatever a client calls and however the calls end, the session and the world of a wrapped
  connection are those of the session operations of the events: a statement is observed, with its
  own text, unless it ended with \<open>ErrBadConn\<close> (or \<open>ErrSkip\<close> on the connection); a transaction
  starts when \<open>Begin\<close> succeeds and ends with \<open>Commit\<close> and \<open>Rollback\<close>, failed ones included.\<close>

theorem wrapped_connection_is_its_session:
  "(let cl = fold (clientStep (\<lambda>v. clk (fst v)) (wrappedConn clk conn)) xs (newClient (u, se, w))
    in snd (clState cl) = fold sessionStep (concat (map sessionOps (clLog cl))) (se, w))"
  using followed_run [OF followed_new [of clk conn se w u], of xs] by (simp add: followed_def Let_def)

text \<open>C5. A statement executed through \<open>database/sql\<close> is observed exactly once when it succeeds, by the
  connection of one attempt, whether the driver ran it directly or skipped to a prepared
  statement and however many bad connections came before. A statement that fails with
  \<open>ErrBadConn\<close> to the end is never observed, and none is observed twice.\<close>

theorem retried_statement_is_observed_once:
  "(case sqlRetry clk conns ctx q args cs (u, ss, w) of ((u', ss', w'), res, err) \<Rightarrow>
     let once = (\<exists>c t s'. c \<in> set cs \<and> Observe ctx q t (ss c, w) = (s', w') \<and> ss' = ss(c := s'));
         never = (ss' = ss \<and> w' = w)
     in if err = None then once else if isErr err ErrBadConn then never else once \<or> never)"
proof -
  obtain u' ss' w' res err
    where "sqlRetry clk conns ctx q args cs (u, ss, w) = ((u', ss', w'), res, err)"
    by (cases "sqlRetry clk conns ctx q args cs (u, ss, w)") auto
  with sqlRetry_once [OF this] show ?thesis by (auto simp: Let_def)
qed

end
