(* ===== verification/SqlDB.thy ===== *)
theory SqlDB
  imports Driver
begin

text \<open>
  What the example programs use of \<open>database/sql\<close>: a \<open>*sql.DB\<close> over wrapped connections, its
  \<open>ExecContext\<close>, \<open>QueryContext\<close> and \<open>BeginTx\<close>, and the methods of a \<open>*sql.Tx\<close>. The underlying driver, the
  connections that the pool hands to the attempts of a call, and the cancellation of contexts are
  parameters, read off the driver's state: any of them may change between two calls.

  The lemmas give the effect of each call on an idle pool, as the records that reach the boundary of
  its context.
\<close>

section \<open>The database handle\<close>

record ('u, 'res, 'rows) SqlDB =
  dbClock :: "'u \<Rightarrow> int"
  dbConns :: "nat \<Rightarrow> ('u, 'res, 'rows) ConnOps"
  dbPick :: "'u \<Rightarrow> nat list"
  dbCtxErr :: "Ctx \<Rightarrow> 'u \<Rightarrow> GoError option"
  dbRowsClose :: "'rows \<Rightarrow> 'u \<Rightarrow> 'u"

type_synonym 'u DBState = "'u \<times> Pool"

definition dbConn where
  "dbConn db c = wrappedConn (dbClock db) (dbConns db c)"

definition onConn :: "nat \<Rightarrow> ('u Wrapped, 'a) Call \<Rightarrow> ('u DBState, 'a) Call" where
  "onConn c f st =
     (let (u, ss, w) = st; ((u', s', w'), a) = f (u, ss c, w) in ((u', ss(c := s'), w'), a))"

definition dbExecContext ::
    "('u, 'res, 'rows) SqlDB \<Rightarrow> Ctx \<Rightarrow> string \<Rightarrow> ('u DBState, 'res Returned) Call" where
  "dbExecContext db ctx q st =
     (case dbCtxErr db ctx (fst st) of
        Some e \<Rightarrow> (st, None, Some e)
      | None \<Rightarrow> sqlRetry (dbClock db) (dbConns db) ctx q [] (dbPick db (fst st)) st)"

definition sqlQueryDirect ::
    "Ctx \<Rightarrow> string \<Rightarrow> NamedValue list \<Rightarrow> ('v, 'res, 'rows) ConnOps \<Rightarrow> ('v, 'rows Returned) Call" where
  "sqlQueryDirect ctx q args c v =
     (case cnQueryContext c of
        Some f \<Rightarrow> f ctx q args v
      | None \<Rightarrow> (case cnQuery c of
            Some f \<Rightarrow> (case sqlNamedValues args of
                Inl e \<Rightarrow> (v, None, Some e) | Inr vals \<Rightarrow> f q vals v)
          | None \<Rightarrow> (v, None, Some ErrSkip)))"

definition sqlStmtQuery ::
    "Ctx \<Rightarrow> NamedValue list \<Rightarrow> ('v, 'res, 'rows) StmtOps \<Rightarrow> ('v, 'rows Returned) Call" where
  "sqlStmtQuery ctx args stmt v =
     (case stQueryContext stmt of
        Some f \<Rightarrow> f ctx args v
      | None \<Rightarrow> (case sqlNamedValues args of
            Inl e \<Rightarrow> (v, None, Some e) | Inr vals \<Rightarrow> stQuery stmt vals v))"

definition dbQueryContext ::
    "('u, 'res, 'rows) SqlDB \<Rightarrow> Ctx \<Rightarrow> string \<Rightarrow> ('u DBState, 'rows Returned) Call" where
  "dbQueryContext db ctx q st =
     (case dbCtxErr db ctx (fst st) of
        Some e \<Rightarrow> (st, None, Some e)
      | None \<Rightarrow> poolRetry
          (\<lambda>c. sqlFallback ctx q (dbConn db c) (sqlQueryDirect ctx q [] (dbConn db c)) (sqlStmtQuery ctx []))
          (\<lambda>r. isErr (snd r) ErrBadConn) (None, Some ErrBadConn) (dbPick db (fst st)) st)"

definition rowsClose :: "('u, 'res, 'rows) SqlDB \<Rightarrow> 'rows option \<Rightarrow> 'u DBState \<Rightarrow> 'u DBState" where
  "rowsClose db rows st =
     (case rows of None \<Rightarrow> st | Some r \<Rightarrow> (dbRowsClose db r (fst st), snd st))"

section \<open>Transactions\<close>

text \<open>\<open>stDone\<close> is the flag that makes the first of \<open>Commit\<close> and \<open>Rollback\<close> the only one that reaches the
  driver. A transaction whose context ends is rolled back by \<open>database/sql\<close> itself; nothing else
  uses its connection until then, so the deferred \<open>Rollback\<close> of the programs stands for that too.\<close>

record 'u SqlTx =
  txConn :: nat
  txCtx :: Ctx
  txOps :: "'u Wrapped TxOps"
  txDone :: bool

definition ErrTxDone :: GoError where
  "ErrTxDone = ErrNew ''sql: transaction has already been committed or rolled back''"

text \<open>\<open>BeginTx(ctx, nil)\<close>.\<close>

definition sqlBegin ::
    "('u, 'res, 'rows) SqlDB \<Rightarrow> Ctx \<Rightarrow> nat \<Rightarrow> ('u Wrapped, GoError + 'u SqlTx) Call" where
  "sqlBegin db ctx c v =
     (let (v', r) = (case cnBeginTx (dbConn db c) of
          Some f \<Rightarrow> f ctx zeroTxOptions v | None \<Rightarrow> cnBegin (dbConn db c) v)
      in (v', case r of Inl e \<Rightarrow> Inl e
          | Inr ops \<Rightarrow> Inr \<lparr>txConn = c, txCtx = ctx, txOps = ops, txDone = False\<rparr>))"

definition dbBeginTx ::
    "('u, 'res, 'rows) SqlDB \<Rightarrow> Ctx \<Rightarrow> ('u DBState, GoError + 'u SqlTx) Call" where
  "dbBeginTx db ctx st =
     (case dbCtxErr db ctx (fst st) of
        Some e \<Rightarrow> (st, Inl e)
      | None \<Rightarrow> poolRetry (sqlBegin db ctx)
          (\<lambda>r. case r of Inl e \<Rightarrow> errorsIs e ErrBadConn | Inr _ \<Rightarrow> False) (Inl ErrBadConn)
          (dbPick db (fst st)) st)"

definition txExecContext ::
    "('u, 'res, 'rows) SqlDB \<Rightarrow> 'u SqlTx \<Rightarrow> Ctx \<Rightarrow> string \<Rightarrow> ('u DBState, 'res Returned) Call" where
  "txExecContext db tx ctx q st =
     (case dbCtxErr db ctx (fst st) of
        Some e \<Rightarrow> (st, None, Some e)
      | None \<Rightarrow>
          if txDone tx then (st, None, Some ErrTxDone)
          else onConn (txConn tx) (sqlExec ctx q [] (dbConn db (txConn tx))) st)"

definition txCommitCall ::
    "('u, 'res, 'rows) SqlDB \<Rightarrow> 'u SqlTx \<Rightarrow> ('u DBState, 'u SqlTx \<times> GoError option) Call" where
  "txCommitCall db tx st =
     (if txDone tx then (st, tx, Some ErrTxDone)
      else case dbCtxErr db (txCtx tx) (fst st) of
        Some e \<Rightarrow> (st, tx, Some e)
      | None \<Rightarrow>
          let (st', err) = onConn (txConn tx) (txCommit (txOps tx)) st in (st', tx\<lparr>txDone := True\<rparr>, err))"

definition txRollbackCall :: "'u SqlTx \<Rightarrow> ('u DBState, 'u SqlTx \<times> GoError option) Call" where
  "txRollbackCall tx st =
     (if txDone tx then (st, tx, Some ErrTxDone)
      else let (st', err) = onConn (txConn tx) (txRollback (txOps tx)) st in (st', tx\<lparr>txDone := True\<rparr>, err))"

text \<open>\<open>defer func() { _ = tx.Rollback() }()\<close> around the rest of a function.\<close>

definition deferRollback :: "'u DBState \<times> 'u SqlTx \<times> 'a \<Rightarrow> 'u DBState \<times> 'a" where
  "deferRollback r = (let (st, tx, a) = r; (st', _) = txRollbackCall tx st in (st', a))"

section \<open>Effect on the sessions and the world\<close>

text \<open>A statement that neither begins nor ends a transaction.\<close>

definition plainKind :: "StatementKind \<Rightarrow> bool" where
  "plainKind k \<longleftrightarrow> k \<notin> {KindBegin, KindCommit, KindRollback}"

lemma Observe_plain:
  assumes "dClassify (wDets w (sDet s)) q = k" and "plainKind k"
  shows "Observe ctx q t (s, w) = (s, recordStatement (sDet s) ctx q k (sTxID s) t w)"
  using assms by (auto simp: Observe_def observeKind_eq plainKind_def)

text \<open>What a call with one statement does: nothing and an error, or one record.\<close>

definition oneRecord where
  "oneRecord d ctx q k tx w w' err \<longleftrightarrow>
     w' = w \<and> err \<noteq> None \<or> (\<exists>t. w' = recordStatement d ctx q k tx t w)"

lemma observedOnce_record:
  assumes "observedOnce ctx q (s, w) (s', w') err"
    and "dClassify (wDets w (sDet s)) q = k" and "plainKind k"
  shows "s' = s \<and> oneRecord (sDet s) ctx q k (sTxID s) w w' err"
  using assms(1) Observe_plain [OF assms(2,3)] by (auto simp: observedOnce_def oneRecord_def)

abbreviation idle :: "nat \<Rightarrow> nat \<Rightarrow> Session" where
  "idle d \<equiv> \<lambda>_. NewSession d"

lemma NewSession_fields [simp]: "sDet (NewSession d) = d" "sTxID (NewSession d) = 0"
  by (simp_all add: NewSession_def)

lemma idle_update [simp]: "(idle d)(c := NewSession d) = idle d"
  by auto

lemma dbExec_effect:
  assumes "dbExecContext db ctx q (u, idle d, w) = ((u', ss', w'), res, err)"
    and "dClassify (wDets w d) q = k" and "plainKind k"
  shows "ss' = idle d \<and> oneRecord d ctx q k 0 w w' err"
proof (cases "dbCtxErr db ctx u")
  case None
  with assms(1) have "sqlRetry (dbClock db) (dbConns db) ctx q [] (dbPick db u) (u, idle d, w) = ((u', ss', w'), res, err)"
    by (simp add: dbExecContext_def)
  from sqlRetry_once [OF this] show ?thesis
    using Observe_plain [of w "NewSession d" q k ctx] assms(2,3) by (auto simp: oneRecord_def)
qed (use assms in \<open>auto simp: dbExecContext_def oneRecord_def\<close>)

lemma sqlQuery_wrapped:
  assumes "sqlFallback ctx q (wrappedConn clk conn) (sqlQueryDirect ctx q args (wrappedConn clk conn))
      (sqlStmtQuery ctx args) (u, sw) = ((u', sw'), res, err)"
  shows "observedOnce ctx q sw sw' err"
  by (rule sqlFallback_wrapped [OF assms])
    (simp_all add: sqlQueryDirect_def wrappedConn_def wcQueryContext_def sqlStmtQuery_def wrappedStmt_def
      wsQueryContext_def)

lemma dbQuery_effect:
  assumes "dbQueryContext db ctx q (u, idle d, w) = ((u', ss', w'), res, err)"
    and "dClassify (wDets w d) q = k" and "plainKind k"
  shows "ss' = idle d \<and> oneRecord d ctx q k 0 w w' err"
proof (cases "dbCtxErr db ctx u")
  case None
  let ?f = "\<lambda>c. sqlFallback ctx q (dbConn db c) (sqlQueryDirect ctx q [] (dbConn db c)) (sqlStmtQuery ctx [])"
  have once: "observedOnce ctx q sw sw' (snd r)" if "?f c (u, sw) = ((u', sw'), r)" for c u sw u' sw' r
    using that sqlQuery_wrapped [of ctx q "dbClock db" "dbConns db c" "[]" u sw u' sw' "fst r" "snd r"]
    by (simp add: dbConn_def)
  have "poolRetry ?f (\<lambda>r. isErr (snd r) ErrBadConn) (None, Some ErrBadConn) (dbPick db u) (u, idle d, w) =
      ((u', ss', w'), res, err)"
    using assms(1) None by (simp add: dbQueryContext_def)
  then have "dbPick db u = [] \<and> (res, err) = (None, Some ErrBadConn) \<and> ss' = idle d \<and> w' = w \<or>
      (\<exists>c\<in>set (dbPick db u). \<exists>u1 s'. ?f c (u1, NewSession d, w) = ((u', s', w'), res, err) \<and>
        ss' = (idle d)(c := s'))"
    by (rule poolRetry_last)
      (metis (no_types, lifting) isErr_simps(1) observedOnce_def once prod.collapse)
  then show ?thesis
  proof (elim disjE bexE exE conjE)
    fix c u1 s' assume run: "?f c (u1, NewSession d, w) = ((u', s', w'), res, err)" "ss' = (idle d)(c := s')"
    from observedOnce_record [OF once [OF run(1)]] run(2) assms(2,3) show ?thesis by simp
  qed (simp add: oneRecord_def)
qed (use assms in \<open>auto simp: dbQueryContext_def oneRecord_def\<close>)

text \<open>A transaction takes one connection out of the pool.\<close>

abbreviation inTx :: "nat \<Rightarrow> nat \<Rightarrow> u64 \<Rightarrow> nat \<Rightarrow> Session" where
  "inTx d c t \<equiv> (idle d)(c := \<lparr>sDet = d, sTxID = t\<rparr>)"

definition openTx :: "'u SqlTx \<Rightarrow> bool" where
  "openTx tx \<longleftrightarrow> \<not> txDone tx \<and> (\<exists>ops. txOps tx = wrappedTx ops)"

definition driverBegin where
  "driverBegin conn ctx = (case cnBeginTx conn of Some f \<Rightarrow> f ctx zeroTxOptions | None \<Rightarrow> cnBegin conn)"

lemma sqlBegin_eq:
  "sqlBegin db ctx c (u, sw) =
    (case driverBegin (dbConns db c) ctx u of
       (u', Inl e) \<Rightarrow> ((u', sw), Inl e)
     | (u', Inr ops) \<Rightarrow>
         ((u', beginTx sw), Inr \<lparr>txConn = c, txCtx = ctx, txOps = wrappedTx ops, txDone = False\<rparr>))"
  by (auto simp: sqlBegin_def dbConn_def wrappedConn_def wcBeginTx_def wcBegin_def begun_def underlying_def
      onSession_def driverBegin_def split: option.split prod.split sum.split)

lemma sqlBegin_effect:
  assumes "sqlBegin db ctx c (u, NewSession d, w) = ((u', s', w'), r)"
  shows "case r of
      Inl e \<Rightarrow> s' = NewSession d \<and> w' = w
    | Inr tx \<Rightarrow> txConn tx = c \<and> openTx tx \<and> nextTxID d w = (w', sTxID s') \<and> sDet s' = d"
  using assms
  by (cases "driverBegin (dbConns db c) ctx u"; cases "snd (driverBegin (dbConns db c) ctx u)")
    (auto simp: sqlBegin_eq openTx_def beginTx_def split: prod.splits)

lemma dbBegin_effect:
  assumes "dbBeginTx db ctx (u, idle d, w) = ((u', ss', w'), r)"
  shows "case r of
      Inl e \<Rightarrow> ss' = idle d \<and> w' = w
    | Inr tx \<Rightarrow> openTx tx \<and> (\<exists>t. nextTxID d w = (w', t) \<and> ss' = inTx d (txConn tx) t)"
proof (cases "dbCtxErr db ctx u")
  case None
  let ?bad = "\<lambda>r. case r of Inl e \<Rightarrow> errorsIs e ErrBadConn | Inr _ \<Rightarrow> False"
  have one: "snd v = sw" if "sqlBegin db ctx c (u, sw) = (v, r)" and "?bad r" for c u sw v r
    using that
    by (cases "driverBegin (dbConns db c) ctx u"; cases "snd (driverBegin (dbConns db c) ctx u)")
      (auto simp: sqlBegin_eq)
  have "poolRetry (sqlBegin db ctx) ?bad (Inl ErrBadConn) (dbPick db u) (u, idle d, w) = ((u', ss', w'), r)"
    using assms None by (simp add: dbBeginTx_def)
  then have "dbPick db u = [] \<and> r = Inl ErrBadConn \<and> ss' = idle d \<and> w' = w \<or>
      (\<exists>c\<in>set (dbPick db u). \<exists>u1 s'. sqlBegin db ctx c (u1, NewSession d, w) = ((u', s', w'), r) \<and>
        ss' = (idle d)(c := s'))"
    by (rule poolRetry_last) (rule one)
  then show ?thesis
  proof (elim disjE bexE exE conjE)
    fix c u1 s' assume run: "sqlBegin db ctx c (u1, NewSession d, w) = ((u', s', w'), r)" "ss' = (idle d)(c := s')"
    have "s' = \<lparr>sDet = d, sTxID = sTxID s'\<rparr>" if "sDet s' = d" using that by simp
    with sqlBegin_effect [OF run(1)] run(2) show ?thesis by (cases r) auto
  qed simp
qed (use assms in \<open>auto simp: dbBeginTx_def\<close>)

lemma txExec_effect:
  assumes "txExecContext db tx ctx q (u, inTx d (txConn tx) t, w) = ((u', ss', w'), res, err)"
    and "dClassify (wDets w d) q = k" and "plainKind k"
  shows "ss' = inTx d (txConn tx) t \<and> oneRecord d ctx q k t w w' err"
proof (cases "dbCtxErr db ctx u = None \<and> \<not> txDone tx")
  case True
  let ?c = "txConn tx"
  obtain s1 where one: "sqlExec ctx q [] (dbConn db ?c) (u, \<lparr>sDet = d, sTxID = t\<rparr>, w) = ((u', s1, w'), res, err)"
      "ss' = (inTx d ?c t)(?c := s1)"
    using assms(1) True by (auto simp: txExecContext_def onConn_def split: prod.splits)
  from observedOnce_record [OF sqlExec_wrapped [OF one(1) [unfolded dbConn_def]], of k] one(2) assms(2,3)
  show ?thesis by simp
qed (use assms(1) in \<open>auto simp: txExecContext_def oneRecord_def split: option.splits\<close>)

text \<open>The end of a transaction changes no world; after it the pool is idle, or the handle is still open.\<close>

lemma onConn_wtEnd:
  "onConn c (wtEnd f) (u, inTx d c t, w) = ((fst (f u), idle d, w), snd (f u))"
  by (auto simp: onConn_def wtEnd_eq endTx_eq NewSession_def)

lemma txCommit_effect:
  assumes "txCommitCall db tx (u, inTx d (txConn tx) t, w) = ((u', ss', w'), tx', err)" and "openTx tx"
  shows "w' = w \<and> txConn tx' = txConn tx \<and>
    (if txDone tx' then ss' = idle d else tx' = tx \<and> err \<noteq> None \<and> ss' = inTx d (txConn tx) t)"
  using assms
  by (cases "dbCtxErr db (txCtx tx) u")
    (auto simp: txCommitCall_def openTx_def wrappedTx_def onConn_wtEnd dest: sym [of "Some _"])

lemma deferRollback_effect:
  assumes "txDone tx \<and> ss = idle d \<or> openTx tx \<and> ss = inTx d (txConn tx) t"
  obtains u' where "deferRollback ((u, ss, w), tx, a) = ((u', idle d, w), a)"
proof -
  have "\<exists>u'. deferRollback ((u, ss, w), tx, a) = ((u', idle d, w), a)"
    using assms by (auto simp: deferRollback_def txRollbackCall_def openTx_def wrappedTx_def onConn_wtEnd)
  then show thesis using that by blast
qed

section \<open>What reaches a boundary\<close>

text \<open>From \<open>w\<close> to \<open>w'\<close> boundary \<open>r\<close> got the events \<open>evs\<close>, no reporter was called, and the detectors
  changed only in their sequence numbers, by at most \<open>k\<close>.\<close>

definition told :: "nat \<Rightarrow> BoundaryRef \<Rightarrow> BoundaryEvent list \<Rightarrow> World \<Rightarrow> World \<Rightarrow> bool" where
  "told k r evs w w' \<longleftrightarrow>
     wHeap w' r = fold applyEvent evs (wHeap w r) \<and> wCalls w' = wCalls w \<and>
     wAllowlists w' = wAllowlists w \<and>
     (\<forall>i. \<exists>j\<le>k. wDets w' i = (wDets w i)\<lparr>dTxSeq := dTxSeq (wDets w i) + of_nat j\<rparr>)"

lemma toldD:
  assumes "told k r evs w w'"
  obtains j where "j \<le> k" and "wDets w' i = (wDets w i)\<lparr>dTxSeq := dTxSeq (wDets w i) + of_nat j\<rparr>"
  using assms unfolding told_def by blast

lemma told_refl: "told k r [] w w"
  by (auto simp: told_def intro!: exI [of _ 0])

lemma told_trans [trans]:
  assumes "told k r a w w'" and "told l r b w' w''"
  shows "told (k + l) r (a @ b) w w''"
proof -
  have "\<exists>j\<le>k + l. wDets w'' i = (wDets w i)\<lparr>dTxSeq := dTxSeq (wDets w i) + of_nat j\<rparr>" for i
  proof -
    obtain n where n: "n \<le> k" "wDets w' i = (wDets w i)\<lparr>dTxSeq := dTxSeq (wDets w i) + of_nat n\<rparr>"
      by (rule toldD [OF assms(1)])
    obtain m where m: "m \<le> l" "wDets w'' i = (wDets w' i)\<lparr>dTxSeq := dTxSeq (wDets w' i) + of_nat m\<rparr>"
      by (rule toldD [OF assms(2)])
    show ?thesis using n m by (intro exI [of _ "n + m"]) (simp add: add.assoc)
  qed
  then show ?thesis using assms by (simp add: told_def)
qed

lemma told_frame:
  assumes "told k r evs w w'"
  shows "dClassify (wDets w' d) = dClassify (wDets w d)"
    and "dMaxRecordedStatements (wDets w' d) = dMaxRecordedStatements (wDets w d)"
proof -
  obtain n where "wDets w' d = (wDets w d)\<lparr>dTxSeq := n\<rparr>" using toldD [OF assms] by metis
  then show "dClassify (wDets w' d) = dClassify (wDets w d)"
    and "dMaxRecordedStatements (wDets w' d) = dMaxRecordedStatements (wDets w d)" by simp_all
qed

lemma told_begin: "nextTxID d w = (w', t) \<Longrightarrow> told 1 r [] w w'"
proof -
  have one: "(\<exists>j\<le>1. P j) \<longleftrightarrow> P 0 \<or> P 1" for P :: "nat \<Rightarrow> bool" by (auto simp: le_Suc_eq)
  assume "nextTxID d w = (w', t)"
  then show ?thesis unfolding told_def one by (auto simp: nextTxID_def Let_def)
qed

lemma told_mark:
  "boundaryOf ctx = Some r \<Longrightarrow> told 0 r [Marked reason counts] w (AllowNonAtomicHere ctx reason counts w)"
  using told_refl [of 0 r w] by (auto simp: told_def AllowNonAtomicHere_def)

abbreviation stmtRecord :: "string \<Rightarrow> StatementKind \<Rightarrow> u64 \<Rightarrow> int \<Rightarrow> StatementRecord" where
  "stmtRecord q k tx t \<equiv> \<lparr>srQuery = q, srKind = k, srTxID = tx, srTime = t, srAttrs = []\<rparr>"

lemma told_record:
  assumes "boundaryOf ctx = Some r" and "oneRecord d ctx q k tx w w' err"
  shows "told 0 r [] w w' \<and> err \<noteq> None \<or>
    (\<exists>t. told 0 r [Recorded (dMaxRecordedStatements (wDets w d)) (stmtRecord q k tx t)] w w')"
  using assms told_refl [of 0 r w]
  by (auto simp: oneRecord_def told_def recordStatement_def)

text \<open>Calls on a pool that is idle, or whose transaction \<open>tx\<close> is open, in a context of boundary \<open>r\<close>.\<close>

definition writeEvent :: "Detector \<Rightarrow> string \<Rightarrow> u64 \<Rightarrow> int \<Rightarrow> BoundaryEvent" where
  "writeEvent D q tx t = Recorded (dMaxRecordedStatements D) (stmtRecord q KindWrite tx t)"

lemma writeEvent_told: "told k r evs w w' \<Longrightarrow> writeEvent (wDets w' d) q = writeEvent (wDets w d) q"
  by (simp add: fun_eq_iff writeEvent_def told_frame)

lemma dbExec_told:
  assumes "dbExecContext db ctx q (u, idle d, w) = ((u', ss', w'), res, err)"
    and "dClassify (wDets w d) q = KindWrite" and "boundaryOf ctx = Some r"
  shows "ss' = idle d \<and> (told 0 r [] w w' \<and> err \<noteq> None \<or> (\<exists>t. told 0 r [writeEvent (wDets w d) q 0 t] w w'))"
  using dbExec_effect [OF assms(1,2)] told_record [OF assms(3)] unfolding writeEvent_def plainKind_def by blast

lemma txExec_told:
  assumes "txExecContext db tx ctx q (u, inTx d (txConn tx) i, w) = ((u', ss', w'), res, err)"
    and "dClassify (wDets w d) q = KindWrite" and "boundaryOf ctx = Some r"
  shows "ss' = inTx d (txConn tx) i \<and>
    (told 0 r [] w w' \<and> err \<noteq> None \<or> (\<exists>t. told 0 r [writeEvent (wDets w d) q i t] w w'))"
  using txExec_effect [OF assms(1,2)] told_record [OF assms(3)] unfolding writeEvent_def plainKind_def by blast

lemma dbBegin_told:
  assumes "dbBeginTx db ctx (u, idle d, w) = ((u', ss', w'), r)"
  shows "case r of Inl e \<Rightarrow> ss' = idle d \<and> w' = w
    | Inr tx \<Rightarrow> openTx tx \<and> told 1 b [] w w' \<and> ss' = inTx d (txConn tx) (dTxSeq (wDets w d) + 1)"
  using dbBegin_effect [OF assms] nextTxID_frame(5) told_begin by (cases r) fastforce+

end
