(* ===== verification/NullDB.thy ===== *)
theory NullDB
  imports Driver
begin

text \<open>
  \<open>nulldb.go\<close>: the in-memory no-op driver, as a driver record over the trivial state, and the
  connection \<open>NewNullDB\<close> hands to \<open>database/sql\<close>: that driver behind the middleware.

  The lemmas show what a test on the null database can rely on: every call succeeds and every
  executed statement is observed at once.
\<close>

text \<open>\<open>driver.RowsAffected\<close> is an \<open>int64\<close>; the null rows have no columns and end at once, so they
  carry nothing. The clock is the state.\<close>

type_synonym RowsAffected = int

type_synonym NullState = int

definition nullTx :: "NullState TxOps" where
  "nullTx = \<lparr>txCommit = (\<lambda>u. (u, None)), txRollback = (\<lambda>u. (u, None))\<rparr>"

definition nullStmt :: "(NullState, RowsAffected, unit) StmtOps" where
  "nullStmt =
     \<lparr>stClose = (\<lambda>u. (u, None)), stNumInput = -1,
      stExec = (\<lambda>args u. (u, Some 1, None)), stQuery = (\<lambda>args u. (u, Some (), None)),
      stExecContext = None, stQueryContext = None, stCheckNamedValue = None\<rparr>"

definition nullConn :: "(NullState, RowsAffected, unit) ConnOps" where
  "nullConn =
     \<lparr>cnPrepare = (\<lambda>query u. (u, Inr nullStmt)), cnClose = (\<lambda>u. (u, None)),
      cnBegin = (\<lambda>u. (u, Inr nullTx)), cnPrepareContext = None, cnBeginTx = None,
      cnExecContext = Some (\<lambda>ctx query args u. (u, Some 1, None)), cnExec = None,
      cnQueryContext = Some (\<lambda>ctx query args u. (u, Some (), None)), cnQuery = None,
      cnPing = None, cnResetSession = None, cnIsValid = None, cnCheckNamedValue = None\<rparr>"

definition nullDriverOpen :: "(NullState, GoError + (NullState, RowsAffected, unit) ConnOps) Call" where
  "nullDriverOpen u = (u, Inr nullConn)"

text \<open>A connection of \<open>NewNullDB\<close>'s pool.\<close>

definition NewNullDB ::
    "nat \<Rightarrow> NullState \<times> World \<Rightarrow>
     GoError \<times> NullState \<times> World +
       NullState Wrapped \<times> (NullState Wrapped, RowsAffected, unit) ConnOps" where
  "NewNullDB d uw = opened id d nullDriverOpen uw"

lemma NewNullDB_eq: "NewNullDB d (u, w) = Inr ((u, NewSession d, w), wrappedConn id nullConn)"
  by (simp add: NewNullDB_def opened_def nullDriverOpen_def)

section \<open>Properties\<close>

text \<open>\<open>Exec\<close> and \<open>Query\<close> on a fresh null database succeed, affect one row and return no row, and
  are observed at once on the new session; default-option transactions succeed and any other isolation level is
  refused by the middleware.\<close>

lemma null_db_observes_and_succeeds:
  "(case NewNullDB d (u, w) of Inl _ \<Rightarrow> False
    | Inr (v, c) \<Rightarrow>
        sqlExec ctx q args c v = ((u, Observe ctx q u (NewSession d, w)), Some 1, None) \<and>
        (case cnQueryContext c of None \<Rightarrow> False
         | Some f \<Rightarrow> f ctx q args v = ((u, Observe ctx q u (NewSession d, w)), Some (), None)) \<and>
        (case cnBeginTx c of None \<Rightarrow> False
         | Some f \<Rightarrow> (case f ctx opts v of
             (v', Inl e) \<Rightarrow> opts \<noteq> zeroTxOptions \<and> v' = v
           | (v', Inr tx) \<Rightarrow> opts = zeroTxOptions \<and> v' = (u, beginTx (NewSession d, w)))))"
proof -
  have exec: "wcExecContext id nullConn ctx q args (u, sw) = ((u, Observe ctx q u sw), Some 1, None)"
    and query: "wcQueryContext id nullConn ctx q args (u, sw) = ((u, Observe ctx q u sw), Some (), None)"
    for sw
    by (simp_all add: wcExecContext_def wcExecUnderlying_def wcQueryContext_def
        wcQueryUnderlying_def nullConn_def underlying_eq connObserved_eq)
  show ?thesis
    by (simp add: NewNullDB_eq sqlExec_def sqlFallback_def sqlExecDirect_def wrappedConn_def exec query)
      (simp add: wcBeginTx_def wcBegin_def begun_def nullConn_def underlying_eq onSession_def)
qed

end
