(* ===== verification/Examples.thy ===== *)
theory Examples
  imports SqlDB NullDB
begin

text \<open>
  The programs under \<open>examples/\<close>: the \<open>net/http\<close> middleware with its three handlers, and the GraphQL
  resolver wrapper with its three resolvers, over a \<open>*sql.DB\<close> on any driver.

  \<open>http.ServeMux\<close> is modelled for what \<open>main\<close> registers, patterns of a method and a literal path, and for
  requests whose path is clean. The graphql package, which parses a request and calls the resolvers, is not
  modelled here.

  Theory ExampleReports proves what they report; their \<open>main\<close> functions are in theory Programs.
\<close>

section \<open>Common\<close>

definition errorText :: "GoError \<Rightarrow> string" where
  "errorText e =
     (case e of ErrSkip \<Rightarrow> ''driver: skip fast-path; continue as if unimplemented''
      | ErrBadConn \<Rightarrow> ''driver: bad connection'' | ErrNew s \<Rightarrow> s | ErrWrap s _ \<Rightarrow> s)"

section \<open>nethttp\<close>

record Request =
  rqMethod :: string
  rqPath :: string
  rqContext :: Ctx

record Response =
  rsStatus :: nat
  rsBody :: string

definition httpError :: "string \<Rightarrow> nat \<Rightarrow> Response" where
  "httpError msg code = \<lparr>rsStatus = code, rsBody = msg @ [newline]\<rparr>"

definition internalError :: "GoError \<Rightarrow> Response" where
  "internalError e = httpError (errorText e) 500"

definition createdResponse :: "string \<Rightarrow> Response" where
  "createdResponse line = \<lparr>rsStatus = 201, rsBody = line @ [newline]\<rparr>"

text \<open>The statements of both programs.\<close>

definition quoted :: "string \<Rightarrow> string" where
  "quoted s = [CHR 0x27] @ s @ [CHR 0x27]"

definition insertUser :: string where
  "insertUser = ''INSERT INTO users (name) VALUES ('' @ quoted ''alice'' @ '')''"

definition insertAudit :: "string \<Rightarrow> string" where
  "insertAudit event = ''INSERT INTO audit_log (event) VALUES ('' @ quoted event @ '')''"

definition insertOrder :: string where
  "insertOrder = ''INSERT INTO orders (item) VALUES ('' @ quoted ''book'' @ '')''"

definition insertSignup :: string where
  "insertSignup = ''INSERT INTO signups (email) VALUES ('' @ quoted ''alice@example.com'' @ '')''"

definition insertAnalytics :: string where
  "insertAnalytics = ''INSERT INTO analytics (event) VALUES ('' @ quoted ''signup'' @ '')''"

definition createUserNonAtomic ::
    "('u, 'res, 'rows) SqlDB \<Rightarrow> Request \<Rightarrow> ('u DBState, Response) Call" where
  "createUserNonAtomic db rq st =
     (let ctx = rqContext rq in
      case dbExecContext db ctx insertUser st of
        (st1, _, Some err) \<Rightarrow> (st1, internalError err)
      | (st1, _, None) \<Rightarrow>
          (case dbExecContext db ctx (insertAudit ''user created'') st1 of
             (st2, _, Some err) \<Rightarrow> (st2, internalError err)
           | (st2, _, None) \<Rightarrow> (st2, createdResponse ''user created (non-atomically!)'')))"

definition createOrderAtomic ::
    "('u, 'res, 'rows) SqlDB \<Rightarrow> Request \<Rightarrow> ('u DBState, Response) Call" where
  "createOrderAtomic db rq st =
     (let ctx = rqContext rq in
      case dbBeginTx db ctx st of
        (st1, Inl err) \<Rightarrow> (st1, internalError err)
      | (st1, Inr tx) \<Rightarrow> deferRollback
          (case txExecContext db tx ctx insertOrder st1 of
             (st2, _, Some err) \<Rightarrow> (st2, tx, internalError err)
           | (st2, _, None) \<Rightarrow>
               (case txExecContext db tx ctx (insertAudit ''order created'') st2 of
                  (st3, _, Some err) \<Rightarrow> (st3, tx, internalError err)
                | (st3, _, None) \<Rightarrow>
                    (case txCommitCall db tx st3 of
                       (st4, tx', Some err) \<Rightarrow> (st4, tx', internalError err)
                     | (st4, tx', None) \<Rightarrow> (st4, tx', createdResponse ''order created (atomically)'')))))"

definition signupReason :: string where
  "signupReason = ''analytics ping is best-effort: it must not roll back a signup (TICKET-123)''"

definition createSignupIntentionallyNonAtomic ::
    "('u, 'res, 'rows) SqlDB \<Rightarrow> Request \<Rightarrow> ('u DBState, Response) Call" where
  "createSignupIntentionallyNonAtomic db rq st =
     (let ctx = rqContext rq in
      case dbBeginTx db ctx st of
        (st1, Inl err) \<Rightarrow> (st1, internalError err)
      | (st1, Inr tx) \<Rightarrow> deferRollback
          (case txExecContext db tx ctx insertSignup st1 of
             (st2, _, Some err) \<Rightarrow> (st2, tx, internalError err)
           | (st2, _, None) \<Rightarrow>
               (case txCommitCall db tx st2 of
                  (st3, tx', Some err) \<Rightarrow> (st3, tx', internalError err)
                | ((u3, ss3, w3), tx', None) \<Rightarrow>
                    (case dbExecContext db ctx insertAnalytics
                         (u3, ss3, AllowNonAtomicHere ctx signupReason [2] w3) of
                       (st4, _, Some err) \<Rightarrow> (st4, tx', internalError err)
                     | (st4, _, None) \<Rightarrow>
                         (st4, tx', createdResponse ''signup created (non-atomically, on purpose)'')))))"

text \<open>\<open>mux.Handler\<close> and \<open>mux.ServeHTTP\<close>: the pattern of a request is its method and path, or empty.\<close>

type_synonym 'u Mux = "(string \<times> (Request \<Rightarrow> ('u DBState, Response) Call)) list"

definition muxEntry :: "'u Mux \<Rightarrow> Request \<Rightarrow> (string \<times> (Request \<Rightarrow> ('u DBState, Response) Call)) option" where
  "muxEntry mux rq = find (\<lambda>e. fst e = rqMethod rq @ '' '' @ rqPath rq) mux"

definition patternPath :: "string \<Rightarrow> string" where
  "patternPath p = drop 1 (dropWhile (\<lambda>c. c \<noteq> CHR '' '') p)"

definition unmatched :: "'u Mux \<Rightarrow> Request \<Rightarrow> Response" where
  "unmatched mux rq =
     (if list_ex (\<lambda>e. patternPath (fst e) = rqPath rq) mux then httpError ''Method Not Allowed'' 405
      else httpError ''404 page not found'' 404)"

definition muxServe :: "'u Mux \<Rightarrow> Request \<Rightarrow> ('u DBState, Response) Call" where
  "muxServe mux rq =
     (case muxEntry mux rq of
        Some (_, h) \<Rightarrow> h rq
      | None \<Rightarrow> (\<lambda>st. (st, unmatched mux rq)))"

definition TxnProofMiddleware ::
    "('u \<Rightarrow> int) \<Rightarrow> nat \<Rightarrow> 'u Mux \<Rightarrow> Request \<Rightarrow> ('u DBState, Response) Call" where
  "TxnProofMiddleware clk d mux rq st =
     (let (u, ss, w) = st;
          pattern = (case muxEntry mux rq of Some (p, _) \<Rightarrow> p | None \<Rightarrow> []);
          name = (if pattern = [] then rqMethod rq @ '' '' @ rqPath rq else pattern);
          (w1, ctx, b) = StartBoundary d (rqContext rq) name [] (clk u) w;
          ((u', ss', w'), resp) = muxServe mux (rq\<lparr>rqContext := ctx\<rparr>) (u, ss, w1)
      in ((u', ss', finishBoundary b w'), resp))"

text \<open>What \<open>main\<close> sets up.\<close>

definition demoMux :: "('u, 'res, 'rows) SqlDB \<Rightarrow> 'u Mux" where
  "demoMux db = [(''POST /users'', createUserNonAtomic db), (''POST /orders'', createOrderAtomic db),
     (''POST /signups'', createSignupIntentionallyNonAtomic db)]"

definition demoDetector :: "Reporter list \<Rightarrow> Detector" where
  "demoDetector reporters = New [WithReporter reporters]"

definition demoHandler ::
    "('u, 'res, 'rows) SqlDB \<Rightarrow> nat \<Rightarrow> Request \<Rightarrow> ('u DBState, Response) Call" where
  "demoHandler db d = TxnProofMiddleware (dbClock db) d (demoMux db)"

section \<open>graphql\<close>

record ResolveParams =
  rpContext :: Ctx
  rpParentType :: string
  rpFieldName :: string

type_synonym 'u Resolver = "ResolveParams \<Rightarrow> ('u DBState, GoAny \<times> GoError option) Call"

text \<open>\<open>WithBoundary\<close>: the closure given to \<open>InBoundary\<close> works on the database and on the variable \<open>out\<close>.\<close>

definition WithBoundary :: "('u \<Rightarrow> int) \<Rightarrow> nat \<Rightarrow> 'u Resolver \<Rightarrow> 'u Resolver" where
  "WithBoundary clk d resolve p st =
     (let (u, ss, w) = st;
          name = rpParentType p @ ''.'' @ rpFieldName p;
          f = (\<lambda>ctx ((u, ss, out), w).
            let ((u', ss', w'), out', resolveErr) = resolve (p\<lparr>rpContext := ctx\<rparr>) (u, ss, w)
            in (((u', ss', out'), w'), resolveErr));
          (((u', ss', out), w'), err) = InBoundary d (rpContext p) name f [] (clk u) ((u, ss, AnyNil), w)
      in ((u', ss', w'), out, err))"

text \<open>A field without a resolver stays without.\<close>

type_synonym 'u Fields = "(string \<times> 'u Resolver option) list"

definition WrapResolvers :: "('u \<Rightarrow> int) \<Rightarrow> nat \<Rightarrow> 'u Fields \<Rightarrow> 'u Fields" where
  "WrapResolvers clk d fs = map (\<lambda>(name, f). (name, map_option (WithBoundary clk d) f)) fs"

definition resolveUser :: "('u, 'res, 'rows) SqlDB \<Rightarrow> 'u Resolver" where
  "resolveUser db p st =
     (case dbQueryContext db (rpContext p) ''SELECT name FROM users WHERE id = 1'' st of
        (st1, _, Some err) \<Rightarrow> (st1, AnyNil, Some err)
      | (st1, rows, None) \<Rightarrow> (rowsClose db rows st1, AnyString ''alice'', None))"

definition resolveCreateUser :: "('u, 'res, 'rows) SqlDB \<Rightarrow> 'u Resolver" where
  "resolveCreateUser db p st =
     (let ctx = rpContext p in
      case dbExecContext db ctx insertUser st of
        (st1, _, Some err) \<Rightarrow> (st1, AnyNil, Some err)
      | (st1, _, None) \<Rightarrow>
          (case dbExecContext db ctx (insertAudit ''user created'') st1 of
             (st2, _, Some err) \<Rightarrow> (st2, AnyNil, Some err)
           | (st2, _, None) \<Rightarrow> (st2, AnyBool True, None)))"

definition resolveCreateOrder :: "('u, 'res, 'rows) SqlDB \<Rightarrow> 'u Resolver" where
  "resolveCreateOrder db p st =
     (let ctx = rpContext p in
      case dbBeginTx db ctx st of
        (st1, Inl err) \<Rightarrow> (st1, AnyNil, Some err)
      | (st1, Inr tx) \<Rightarrow> deferRollback
          (case txExecContext db tx ctx insertOrder st1 of
             (st2, _, Some err) \<Rightarrow> (st2, tx, AnyNil, Some err)
           | (st2, _, None) \<Rightarrow>
               (case txExecContext db tx ctx (insertAudit ''order created'') st2 of
                  (st3, _, Some err) \<Rightarrow> (st3, tx, AnyNil, Some err)
                | (st3, _, None) \<Rightarrow>
                    (case txCommitCall db tx st3 of
                       (st4, tx', Some err) \<Rightarrow> (st4, tx', AnyNil, Some err)
                     | (st4, tx', None) \<Rightarrow> (st4, tx', AnyBool True, None)))))"

definition buildSchema :: "('u, 'res, 'rows) SqlDB \<Rightarrow> nat \<Rightarrow> (string \<times> 'u Fields) list" where
  "buildSchema db d =
     [(''Query'', WrapResolvers (dbClock db) d [(''user'', Some (resolveUser db))]),
      (''Mutation'', WrapResolvers (dbClock db) d
        [(''createUser'', Some (resolveCreateUser db)), (''createOrder'', Some (resolveCreateOrder db))])]"

text \<open>What the graphql package calls for a field of a type.\<close>

definition resolverOf :: "(string \<times> 'u Fields) list \<Rightarrow> string \<Rightarrow> string \<Rightarrow> 'u Resolver option" where
  "resolverOf schema ty field =
     (case map_of schema ty of None \<Rightarrow> None | Some fs \<Rightarrow>
        (case map_of fs field of None \<Rightarrow> None | Some r \<Rightarrow> r))"

section \<open>The database of the programs\<close>

definition nullSqlDB :: "(NullState, RowsAffected, unit) SqlDB" where
  "nullSqlDB = \<lparr>dbClock = id, dbConns = (\<lambda>_. nullConn), dbPick = (\<lambda>_. [0]), dbCtxErr = (\<lambda>_ _. None),
     dbRowsClose = (\<lambda>_ u. u)\<rparr>"

definition demoWorld :: "Reporter list \<Rightarrow> World" where
  "demoWorld rs = \<lparr>wDets = (\<lambda>_. demoDetector rs), wHeap = (\<lambda>_. newBoundary 0 Background []), wNext = 0,
     wAllowlists = (\<lambda>_. NewAllowlist), wCalls = []\<rparr>"

text \<open>The request of \<open>http.Post\<close>.\<close>

definition post :: "string \<Rightarrow> Request" where
  "post path = \<lparr>rqMethod = ''POST'', rqPath = path, rqContext = Background\<rparr>"

text \<open>A server: the requests it gets, one after the other, and its responses.\<close>

fun serveAll :: "('u, 'res, 'rows) SqlDB \<Rightarrow> nat \<Rightarrow> Request list \<Rightarrow> ('u DBState, Response list) Call" where
  "serveAll db d [] st = (st, [])"
| "serveAll db d (rq # rqs) st =
     (let (st1, resp) = demoHandler db d rq st; (st2, resps) = serveAll db d rqs st1 in (st2, resp # resps))"

end
