(* ===== verification/ExampleReports.thy ===== *)
theory ExampleReports
  imports Examples
begin

text \<open>
  What the example programs report. The lemmas say what each handler sends to the boundary it runs in,
  whatever fails (\<open>told\<close> of theory SqlDB), and what that makes of the reporters' calls; the properties are
  about the HTTP server over any sequence of requests, and about the GraphQL resolvers.
\<close>

section \<open>What a pair of writes sends to its boundary\<close>

text \<open>The two shapes that both programs share.\<close>

definition execPair where
  "execPair db ctx q1 q2 bad ok st =
     (case dbExecContext db ctx q1 st of
        (st1, _, Some err) \<Rightarrow> (st1, bad err)
      | (st1, _, None) \<Rightarrow>
          (case dbExecContext db ctx q2 st1 of
             (st2, _, Some err) \<Rightarrow> (st2, bad err)
           | (st2, _, None) \<Rightarrow> (st2, ok)))"

definition txPair where
  "txPair db ctx q1 q2 bad ok st =
     (case dbBeginTx db ctx st of
        (st1, Inl err) \<Rightarrow> (st1, bad err)
      | (st1, Inr tx) \<Rightarrow> deferRollback
          (case txExecContext db tx ctx q1 st1 of
             (st2, _, Some err) \<Rightarrow> (st2, tx, bad err)
           | (st2, _, None) \<Rightarrow>
               (case txExecContext db tx ctx q2 st2 of
                  (st3, _, Some err) \<Rightarrow> (st3, tx, bad err)
                | (st3, _, None) \<Rightarrow>
                    (case txCommitCall db tx st3 of
                       (st4, tx', Some err) \<Rightarrow> (st4, tx', bad err)
                     | (st4, tx', None) \<Rightarrow> (st4, tx', ok)))))"

lemma pairs:
  "createUserNonAtomic db rq = execPair db (rqContext rq) insertUser (insertAudit ''user created'') internalError
    (createdResponse ''user created (non-atomically!)'')"
  "createOrderAtomic db rq = txPair db (rqContext rq) insertOrder (insertAudit ''order created'') internalError
    (createdResponse ''order created (atomically)'')"
  "resolveCreateUser db p = execPair db (rpContext p) insertUser (insertAudit ''user created'')
    (\<lambda>e. (AnyNil, Some e)) (AnyBool True, None)"
  "resolveCreateOrder db p = txPair db (rpContext p) insertOrder (insertAudit ''order created'')
    (\<lambda>e. (AnyNil, Some e)) (AnyBool True, None)"
  by ((rule ext, simp only: createUserNonAtomic_def createOrderAtomic_def resolveCreateUser_def
      resolveCreateOrder_def execPair_def txPair_def Let_def)+)

lemma execPair_told:
  assumes "execPair db ctx q1 q2 bad ok (u, idle d, w) = ((u', ss', w'), a)"
    and "dClassify (wDets w d) q1 = KindWrite" and "dClassify (wDets w d) q2 = KindWrite"
    and "boundaryOf ctx = Some r"
  shows "ss' = idle d \<and>
    ((\<exists>t1 t2. told 0 r [writeEvent (wDets w d) q1 0 t1, writeEvent (wDets w d) q2 0 t2] w w') \<or>
     (\<exists>e. a = bad e) \<and> (told 0 r [] w w' \<or> (\<exists>t1. told 0 r [writeEvent (wDets w d) q1 0 t1] w w')))"
proof -
  obtain u1 ss1 w1 res1 err1 where one: "dbExecContext db ctx q1 (u, idle d, w) = ((u1, ss1, w1), res1, err1)"
    by (cases "dbExecContext db ctx q1 (u, idle d, w)") auto
  from dbExec_told [OF one assms(2,4)]
  have ss1: "ss1 = idle d" and first: "told 0 r [] w w1 \<and> err1 \<noteq> None \<or>
      (\<exists>t. told 0 r [writeEvent (wDets w d) q1 0 t] w w1)" by auto
  show ?thesis
  proof (cases err1)
    case (Some e)
    then show ?thesis using assms(1) one ss1 first by (auto simp: execPair_def)
  next
    case None
    with first obtain t1 where t1: "told 0 r [writeEvent (wDets w d) q1 0 t1] w w1" by blast
    obtain u2 ss2 w2 res2 err2 where two: "dbExecContext db ctx q2 (u1, idle d, w1) = ((u2, ss2, w2), res2, err2)"
      by (cases "dbExecContext db ctx q2 (u1, idle d, w1)") auto
    have "dClassify (wDets w1 d) q2 = KindWrite" using assms(3) told_frame(1) [OF t1] by simp
    from dbExec_told [OF two this assms(4)]
    have ss2: "ss2 = idle d" and "told 0 r [] w1 w2 \<and> err2 \<noteq> None \<or>
        (\<exists>t. told 0 r [writeEvent (wDets w d) q2 0 t] w1 w2)"
      by (simp_all add: writeEvent_told [OF t1])
    then have "told 0 r [writeEvent (wDets w d) q1 0 t1] w w2 \<and> err2 \<noteq> None \<or>
        (\<exists>t. told 0 r [writeEvent (wDets w d) q1 0 t1, writeEvent (wDets w d) q2 0 t] w w2)"
      using told_trans [OF t1] by fastforce
    then show ?thesis
      using assms(1) one two ss1 ss2 None by (cases err2) (auto simp: execPair_def)
  qed
qed

text \<open>A statement of a transaction and the rest \<open>k\<close> of the function: the statement fails and the
  transaction is rolled back, or \<open>k\<close> goes on.\<close>

definition execThen where
  "execThen db tx ctx q bad k st = deferRollback
     (case txExecContext db tx ctx q st of
        (st1, _, Some err) \<Rightarrow> (st1, tx, bad err) | (st1, _, None) \<Rightarrow> k st1)"

lemma execThen_told:
  assumes "openTx tx" and "dClassify (wDets w d) q = KindWrite" and "boundaryOf ctx = Some r"
  obtains (failed) v w' e where "execThen db tx ctx q bad k (u, inTx d (txConn tx) i, w) = ((v, idle d, w'), bad e)"
      "told 0 r [] w w' \<or> (\<exists>t. told 0 r [writeEvent (wDets w d) q i t] w w')"
    | (ran) v w' t where "told 0 r [writeEvent (wDets w d) q i t] w w'"
      "execThen db tx ctx q bad k (u, inTx d (txConn tx) i, w) = deferRollback (k (v, inTx d (txConn tx) i, w'))"
proof -
  let ?tx = "inTx d (txConn tx) i"
  obtain v ss w' res err where run: "txExecContext db tx ctx q (u, ?tx, w) = ((v, ss, w'), res, err)"
    by (cases "txExecContext db tx ctx q (u, ?tx, w)") auto
  note told = txExec_told [OF run assms(2,3)]
  show thesis
  proof (cases err)
    case None
    with told obtain t where "told 0 r [writeEvent (wDets w d) q i t] w w'" by blast
    with run told None show thesis by (intro ran [of t w' v]) (simp_all add: execThen_def)
  next
    case (Some e)
    have "openTx tx \<and> ?tx = inTx d (txConn tx) i" using assms(1) by simp
    then obtain v' where "deferRollback ((v, ?tx, w'), tx, bad e) = ((v', idle d, w'), bad e)"
      by (rule deferRollback_effect [OF disjI2])
    with run told Some show thesis by (intro failed [of v' w' e]) (auto simp: execThen_def)
  qed
qed

lemma commit_told:
  assumes "openTx tx"
  obtains v a where "deferRollback
      (case txCommitCall db tx (u, inTx d (txConn tx) i, w) of
         (st', tx', Some err) \<Rightarrow> (st', tx', bad err) | (st', tx', None) \<Rightarrow> (st', tx', ok))
    = ((v, idle d, w), a)"
proof -
  obtain u4 ss4 w4 tx' err where commit: "txCommitCall db tx (u, inTx d (txConn tx) i, w) = ((u4, ss4, w4), tx', err)"
    by (cases "txCommitCall db tx (u, inTx d (txConn tx) i, w)") auto
  have "w4 = w" "txDone tx' \<and> ss4 = idle d \<or> openTx tx' \<and> ss4 = inTx d (txConn tx') i"
    using txCommit_effect [OF commit assms] assms by (auto split: if_splits)
  then obtain v where "deferRollback ((u4, ss4, w4), tx', case err of Some e \<Rightarrow> bad e | None \<Rightarrow> ok)
      = ((v, idle d, w), case err of Some e \<Rightarrow> bad e | None \<Rightarrow> ok)"
    using deferRollback_effect by metis
  with commit show thesis
    by (intro that [of v "case err of Some e \<Rightarrow> bad e | None \<Rightarrow> ok"]) (cases err; simp)
qed

text \<open>All of a transaction's records carry its one identity.\<close>

lemma txPair_execThen:
  "txPair db ctx q1 q2 bad ok st =
    (case dbBeginTx db ctx st of
       (st1, Inl err) \<Rightarrow> (st1, bad err)
     | (st1, Inr tx) \<Rightarrow> execThen db tx ctx q1 bad
         (\<lambda>st2. case txExecContext db tx ctx q2 st2 of
            (st3, _, Some err) \<Rightarrow> (st3, tx, bad err)
          | (st3, _, None) \<Rightarrow> (case txCommitCall db tx st3 of
               (st4, tx', Some err) \<Rightarrow> (st4, tx', bad err) | (st4, tx', None) \<Rightarrow> (st4, tx', ok))) st1)"
  by (simp only: txPair_def execThen_def)

lemma txPair_told:
  assumes "txPair db ctx q1 q2 bad ok (u, idle d, w) = ((u', ss', w'), a)"
    and "dClassify (wDets w d) q1 = KindWrite" and "dClassify (wDets w d) q2 = KindWrite"
    and "boundaryOf ctx = Some r"
  shows "ss' = idle d \<and> (\<exists>ws. length ws \<le> 2 \<and>
    told 1 r [writeEvent (wDets w d) q (dTxSeq (wDets w d) + 1) t. (q, t) \<leftarrow> ws] w w')"
proof -
  let ?i = "dTxSeq (wDets w d) + 1" and ?D = "wDets w d"
  have one: "\<exists>ws. length ws \<le> 2 \<and> told 1 r [writeEvent ?D q ?i t. (q, t) \<leftarrow> ws] w w'" if "told 1 r [writeEvent ?D q ?i t] w w'" for q t w'
    using that by (intro exI [of _ "[(q, t)]"]) simp
  have two: "\<exists>ws. length ws \<le> 2 \<and> told 1 r [writeEvent ?D q ?i t. (q, t) \<leftarrow> ws] w w'"
    if "told 1 r [writeEvent ?D q1 ?i t1, writeEvent ?D q2 ?i t2] w w'" for q1 q2 t1 t2 w'
    using that by (intro exI [of _ "[(q1, t1), (q2, t2)]"]) simp
  have none: "\<exists>ws. length ws \<le> 2 \<and> told 1 r [writeEvent ?D q ?i t. (q, t) \<leftarrow> ws] w w'" if "told 1 r [] w w'" for w'
    using that by (intro exI [of _ "[]"]) simp
  obtain u1 ss1 w1 r1 where started: "dbBeginTx db ctx (u, idle d, w) = ((u1, ss1, w1), r1)"
    by (cases "dbBeginTx db ctx (u, idle d, w)") auto
  note start = dbBegin_told [OF started, of r]
  show ?thesis
  proof (cases r1)
    case (Inl e)
    then show ?thesis using assms(1) started start none told_refl [of 1 r w] by (auto simp: txPair_def)
  next
    case (Inr tx)
    with start have tx: "openTx tx" and b1: "told 1 r [] w w1" and ss1: "ss1 = inTx d (txConn tx) ?i" by simp_all
    have k1: "dClassify (wDets w1 d) q1 = KindWrite" using assms(2) told_frame(1) [OF b1] by simp
    let ?fin = "\<lambda>st3. case txCommitCall db tx st3 of
        (st4, tx', Some err) \<Rightarrow> (st4, tx', bad err) | (st4, tx', None) \<Rightarrow> (st4, tx', ok)"
    let ?rest = "\<lambda>st2. case txExecContext db tx ctx q2 st2 of
        (st3, _, Some err) \<Rightarrow> (st3, tx, bad err) | (st3, _, None) \<Rightarrow> ?fin st3"
    have run: "execThen db tx ctx q1 bad ?rest (u1, inTx d (txConn tx) ?i, w1) = ((u', ss', w'), a)"
      using assms(1) by (simp add: txPair_execThen started Inr ss1)
    show ?thesis
    proof (cases rule: execThen_told [OF tx k1 assms(4), where db = db and bad = bad and k = ?rest and u = u1 and i = ?i])
      case (1 v w2 e)
      with run have "ss' = idle d" "w' = w2" by simp_all
      moreover have "told 1 r [] w w2 \<or> (\<exists>t. told 1 r [writeEvent ?D q1 ?i t] w w2)"
        using 1(2) by (auto simp: writeEvent_told [OF b1] dest: told_trans [OF b1])
      ultimately show ?thesis using one none by blast
    next
      case (2 v w2 t1)
      have b2: "told 1 r [writeEvent ?D q1 ?i t1] w w2"
        using told_trans [OF b1 2(1)] by (simp add: writeEvent_told [OF b1])
      have k2: "dClassify (wDets w2 d) q2 = KindWrite" using assms(3) told_frame(1) [OF b2] by simp
      have run2: "execThen db tx ctx q2 bad ?fin (v, inTx d (txConn tx) ?i, w2) = ((u', ss', w'), a)"
        using run 2(2) by (simp add: execThen_def)
      show ?thesis
      proof (cases rule: execThen_told [OF tx k2 assms(4), where db = db and bad = bad and k = ?fin and u = v and i = ?i])
        case (1 v3 w3 e)
        with run2 have "ss' = idle d" "w' = w3" by simp_all
        moreover have "told 1 r [writeEvent ?D q1 ?i t1] w w3 \<or>
            (\<exists>t. told 1 r [writeEvent ?D q1 ?i t1, writeEvent ?D q2 ?i t] w w3)"
          using 1(2) by (auto simp: writeEvent_told [OF b2] dest: told_trans [OF b2])
        ultimately show ?thesis using one two by blast
      next
        case (2 v3 w3 t2)
        obtain v4 a4 where "deferRollback (?fin (v3, inTx d (txConn tx) ?i, w3)) = ((v4, idle d, w3), a4)"
          by (rule commit_told [OF tx])
        with run2 2(2) have "ss' = idle d" "w' = w3" by simp_all
        moreover have "told 1 r [writeEvent ?D q1 ?i t1, writeEvent ?D q2 ?i t2] w w3"
          using told_trans [OF b2 2(1)] by (simp add: writeEvent_told [OF b2])
        ultimately show ?thesis using two by simp
      qed
    qed
  qed
qed

lemma signup_execThen:
  "createSignupIntentionallyNonAtomic db rq st =
    (case dbBeginTx db (rqContext rq) st of
       (st1, Inl err) \<Rightarrow> (st1, internalError err)
     | (st1, Inr tx) \<Rightarrow> execThen db tx (rqContext rq) insertSignup internalError
         (\<lambda>st2. case txCommitCall db tx st2 of
            (st3, tx', Some err) \<Rightarrow> (st3, tx', internalError err)
          | ((u3, ss3, w3), tx', None) \<Rightarrow>
              (case dbExecContext db (rqContext rq) insertAnalytics
                   (u3, ss3, AllowNonAtomicHere (rqContext rq) signupReason [2] w3) of
                 (st4, _, Some err) \<Rightarrow> (st4, tx', internalError err)
               | (st4, _, None) \<Rightarrow>
                   (st4, tx', createdResponse ''signup created (non-atomically, on purpose)''))) st1)"
  by (simp only: createSignupIntentionallyNonAtomic_def execThen_def Let_def)

lemma deferRollback_closed: "txDone tx \<Longrightarrow> deferRollback (st, tx, a) = (st, a)"
  by (simp add: deferRollback_def txRollbackCall_def)

text \<open>After the signup: the commit fails, or the mark is made and the write follows or fails.\<close>

lemma signup_rest_told:
  fixes q t
  assumes "openTx tx" and "boundaryOf ctx = Some r" and "dClassify (wDets w d) insertAnalytics = KindWrite"
    and run: "deferRollback
       (case txCommitCall db tx (u, inTx d (txConn tx) i, w) of
          (st3, tx', Some err) \<Rightarrow> (st3, tx', internalError err)
        | ((u3, ss3, w3), tx', None) \<Rightarrow>
            (case dbExecContext db ctx insertAnalytics (u3, ss3, AllowNonAtomicHere ctx signupReason [2] w3) of
               (st4, _, Some err) \<Rightarrow> (st4, tx', internalError err)
             | (st4, _, None) \<Rightarrow> (st4, tx', ok))) = ((u', ss', w'), a)"
  shows "ss' = idle d \<and>
    ((told 0 r [] w w' \<or> told 0 r [Marked signupReason [2]] w w') \<and> (\<exists>e. a = internalError e) \<or>
     (\<exists>t. told 0 r [Marked signupReason [2], writeEvent (wDets w d) insertAnalytics 0 t] w w'))"
proof -
  obtain u3 ss3 w3 tx' err where commit: "txCommitCall db tx (u, inTx d (txConn tx) i, w) = ((u3, ss3, w3), tx', err)"
    by (cases "txCommitCall db tx (u, inTx d (txConn tx) i, w)") auto
  note ended = txCommit_effect [OF commit assms(1)]
  show ?thesis
  proof (cases err)
    case (Some e)
    have "txDone tx' \<and> ss3 = idle d \<or> openTx tx' \<and> ss3 = inTx d (txConn tx') i"
      using ended assms(1) by (auto split: if_splits)
    then obtain v where "deferRollback ((u3, ss3, w3), tx', internalError e) = ((v, idle d, w3), internalError e)"
      by (rule deferRollback_effect)
    then show ?thesis using run commit Some ended told_refl [of 0 r w] by auto
  next
    case None
    let ?w = "AllowNonAtomicHere ctx signupReason [2] w"
    note mark = told_mark [OF assms(2), of signupReason "[2]" w]
    have closed: "txDone tx'" "ss3 = idle d" "w3 = w" using ended None by (auto split: if_splits)
    obtain u4 ss4 w4 res err4 where last: "dbExecContext db ctx insertAnalytics (u3, idle d, ?w) = ((u4, ss4, w4), res, err4)"
      by (cases "dbExecContext db ctx insertAnalytics (u3, idle d, ?w)") auto
    have "dClassify (wDets ?w d) insertAnalytics = KindWrite" using assms(3) told_frame(1) [OF mark] by simp
    note told = dbExec_told [OF last this assms(2)]
    have "ss' = ss4 \<and> w' = w4 \<and> (err4 \<noteq> None \<longrightarrow> (\<exists>e. a = internalError e))"
      using run commit None closed last by (cases err4) (auto simp: deferRollback_closed)
    moreover have "told 0 r [Marked signupReason [2]] w w4 \<and> err4 \<noteq> None \<or>
        (\<exists>t. told 0 r [Marked signupReason [2], writeEvent (wDets w d) insertAnalytics 0 t] w w4)"
      using told by (auto simp: writeEvent_told [OF mark] dest: told_trans [OF mark])
    ultimately show ?thesis using told by blast
  qed
qed

lemma signup_told:
  assumes "createSignupIntentionallyNonAtomic db rq (u, idle d, w) = ((u', ss', w'), a)"
    and "dClassify (wDets w d) insertSignup = KindWrite" and "dClassify (wDets w d) insertAnalytics = KindWrite"
    and "boundaryOf (rqContext rq) = Some r"
  defines "i \<equiv> dTxSeq (wDets w d) + 1" and "mark \<equiv> Marked signupReason [2]"
  shows "ss' = idle d \<and>
    ((told 1 r [] w w' \<or> (\<exists>t. told 1 r [writeEvent (wDets w d) insertSignup i t] w w' \<or>
        told 1 r [writeEvent (wDets w d) insertSignup i t, mark] w w')) \<and> (\<exists>e. a = internalError e) \<or>
     (\<exists>t1 t2. told 1 r [writeEvent (wDets w d) insertSignup i t1, mark,
        writeEvent (wDets w d) insertAnalytics 0 t2] w w'))"
proof -
  let ?D = "wDets w d" and ?ctx = "rqContext rq"
  obtain u1 ss1 w1 r1 where started: "dbBeginTx db ?ctx (u, idle d, w) = ((u1, ss1, w1), r1)"
    by (cases "dbBeginTx db ?ctx (u, idle d, w)") auto
  note start = dbBegin_told [OF started, of r, folded i_def]
  show ?thesis
  proof (cases r1)
    case (Inl e)
    then show ?thesis using assms(1) started start told_refl [of 1 r w] by (auto simp: signup_execThen)
  next
    case (Inr tx)
    with start have tx: "openTx tx" and b1: "told 1 r [] w w1" and ss1: "ss1 = inTx d (txConn tx) i" by simp_all
    have k1: "dClassify (wDets w1 d) insertSignup = KindWrite" using assms(2) told_frame(1) [OF b1] by simp
    let ?rest = "\<lambda>st2. case txCommitCall db tx st2 of
            (st3, tx', Some err) \<Rightarrow> (st3, tx', internalError err)
          | ((u3, ss3, w3), tx', None) \<Rightarrow>
              (case dbExecContext db ?ctx insertAnalytics
                   (u3, ss3, AllowNonAtomicHere ?ctx signupReason [2] w3) of
                 (st4, _, Some err) \<Rightarrow> (st4, tx', internalError err)
               | (st4, _, None) \<Rightarrow>
                   (st4, tx', createdResponse ''signup created (non-atomically, on purpose)''))"
    have run: "execThen db tx ?ctx insertSignup internalError ?rest (u1, inTx d (txConn tx) i, w1) = ((u', ss', w'), a)"
      using assms(1) by (simp add: signup_execThen started Inr ss1)
    show ?thesis
    proof (cases rule: execThen_told [OF tx k1 assms(4), where db = db and bad = internalError and k = ?rest and u = u1 and i = i])
      case (1 v w2 e)
      with run have "ss' = idle d" "w' = w2" "a = internalError e" by simp_all
      moreover have "told 1 r [] w w2 \<or> (\<exists>t. told 1 r [writeEvent ?D insertSignup i t] w w2)"
        using 1(2) by (auto simp: writeEvent_told [OF b1] dest: told_trans [OF b1])
      ultimately show ?thesis by blast
    next
      case (2 v w2 t1)
      have b2: "told 1 r [writeEvent ?D insertSignup i t1] w w2"
        using told_trans [OF b1 2(1)] by (simp add: writeEvent_told [OF b1])
      have k2: "dClassify (wDets w2 d) insertAnalytics = KindWrite" using assms(3) told_frame(1) [OF b2] by simp
      have "deferRollback (?rest (v, inTx d (txConn tx) i, w2)) = ((u', ss', w'), a)" using run 2(2) by simp
      from signup_rest_told [OF tx assms(4) k2 this] show ?thesis
        unfolding mark_def writeEvent_told [OF b2]
        using told_trans [OF b2] by fastforce
    qed
  qed
qed

section \<open>The reports\<close>

text \<open>Both wrappers run something in a boundary and finish it.\<close>

definition inBoundary where
  "inBoundary clk d ctx name f st =
     (let (u, ss, w) = st; (w1, c, b) = StartBoundary d ctx name [] (clk u) w;
          ((u', ss', w'), a) = f c (u, ss, w1)
      in ((u', ss', finishBoundary b w'), a))"

lemma TxnProofMiddleware_inBoundary:
  "muxEntry mux rq = Some (p, h) \<Longrightarrow> p \<noteq> [] \<Longrightarrow>
    TxnProofMiddleware clk d mux rq st =
      inBoundary clk d (rqContext rq) p (\<lambda>ctx. h (rq\<lparr>rqContext := ctx\<rparr>)) st"
  by (simp add: TxnProofMiddleware_def inBoundary_def muxServe_def muxEntry_def split_def Let_def)

lemma TxnProofMiddleware_unmatched:
  "muxEntry mux rq = None \<Longrightarrow>
    TxnProofMiddleware clk d mux rq st =
      inBoundary clk d (rqContext rq) (rqMethod rq @ '' '' @ rqPath rq) (\<lambda>ctx st. (st, unmatched mux rq)) st"
  by (simp add: TxnProofMiddleware_def inBoundary_def muxServe_def muxEntry_def unmatched_def split_def Let_def)

lemma WithBoundary_inBoundary:
  "WithBoundary clk d resolve p st =
    inBoundary clk d (rpContext p) (rpParentType p @ ''.'' @ rpFieldName p)
      (\<lambda>ctx. resolve (p\<lparr>rpContext := ctx\<rparr>)) st"
  by (simp add: WithBoundary_def InBoundary_def inBoundary_def split_def Let_def)

text \<open>The detector of both programs, after any number of transactions.\<close>

abbreviation demoState :: "Reporter list \<Rightarrow> u64 \<Rightarrow> Detector" where
  "demoState reporters n \<equiv> (demoDetector reporters)\<lparr>dTxSeq := n\<rparr>"

lemma demoState_fields:
  "dReporters (demoState rs n) = rs" "dAllowlist (demoState rs n) = None"
  "dClassify (demoState rs n) = DefaultClassifier" "dReportNested (demoState rs n) = False"
  "dMaxRecordedStatements (demoState rs n) = 200" "dAttrsFunc (demoState rs n) = None"
  "dTxSeq (demoState rs n) = n"
  by (simp_all add: demoDetector_def New_def WithReporter_def)

lemma length_recordsOf: "length (recordsOf evs) \<le> length evs"
proof (induction evs)
  case (Cons e evs)
  then show ?case by (cases e) simp_all
qed simp

definition reportTo :: "Reporter list \<Rightarrow> Ctx \<Rightarrow> Report \<Rightarrow> ReporterCall list" where
  "reportTo rs ctx rep = map (\<lambda>r. (rRef r, ctx, rep)) (filter (\<lambda>r. implements (rIface r) rep) rs)"

text \<open>The reports for a boundary with no options, when none of its statements was dropped.\<close>

definition reportsFor :: "Reporter list \<Rightarrow> Ctx \<Rightarrow> string \<Rightarrow> BoundaryEvent list \<Rightarrow> ReporterCall list" where
  "reportsFor rs ctx name evs =
     (case expectedReport name [] (writeUnitsOf (recordsOf evs)) (lastMark None evs) None (recordsOf evs) 0 of
        None \<Rightarrow> [] | Some rep \<Rightarrow> reportTo rs ctx rep)"

definition shortRun :: "BoundaryEvent list \<Rightarrow> bool" where
  "shortRun evs \<longleftrightarrow> list_all (\<lambda>e. \<exists>r x y. e = Recorded 200 r \<or> e = Marked x y) evs \<and> length evs \<le> 200"

text \<open>The detector afterwards, when at most \<open>k\<close> transactions began.\<close>

definition demoAfter :: "Reporter list \<Rightarrow> u64 \<Rightarrow> nat \<Rightarrow> Detector \<Rightarrow> bool" where
  "demoAfter rs n k D \<longleftrightarrow> (\<exists>j\<le>k. D = demoState rs (n + of_nat j))"

definition judged where
  "judged rs n d c name w w1 w2 w' \<longleftrightarrow>
     (\<forall>k evs. shortRun evs \<longrightarrow> told k (wNext w) evs w1 w2 \<longrightarrow>
       wCalls w' = wCalls w @ reportsFor rs c name evs \<and> demoAfter rs n k (wDets w' d))"

lemma inBoundary_calls:
  assumes det: "wDets w d = demoState rs n"
    and run: "inBoundary clk d ctx name f (u, ss, w) = ((u', ss', w'), a)"
  obtains w1 w2 where "f (CtxBoundary (wNext w) ctx) (u, ss, w1) = ((u', ss', w2), a)"
    and "wDets w1 = wDets w"
    and "judged rs n d (CtxBoundary (wNext w) ctx) name w w1 w2 w'"
proof -
  obtain w1 c b where start: "StartBoundary d ctx name [] (clk u) w = (w1, c, b)"
    by (cases "StartBoundary d ctx name [] (clk u) w") auto
  have cb: "c = CtxBoundary (wNext w) ctx" "b = wNext w" using StartBoundary_result [OF start] by simp_all
  obtain w2 where f: "f c (u, ss, w1) = ((u', ss', w2), a)" and w': "w' = finishBoundary b w2"
    using run start by (auto simp: inBoundary_def split: prod.splits)
  have dets: "wDets w1 = wDets w" by (rule StartBoundary_frame(1) [OF start])
  have calls1: "wCalls w1 = wCalls w"
    using start by (auto simp: StartBoundary_def det demoState_fields Let_def)
  have heap1: "wHeap w1 (wNext w) = newBoundary d ctx name"
    using StartBoundary_frame(5) [OF start] by (simp add: det demoState_fields)
  have "wCalls w' = wCalls w @ reportsFor rs (CtxBoundary (wNext w) ctx) name evs \<and> demoAfter rs n k (wDets w' d)"
    if told: "told k (wNext w) evs w1 w2" and short: "shortRun evs" for k evs
  proof -
    let ?b = "fold applyEvent evs (newBoundary d ctx name)"
    have heap: "wHeap w2 (wNext w) = ?b" and calls2: "wCalls w2 = wCalls w"
      using told heap1 calls1 by (simp_all add: told_def)
    obtain j where j: "j \<le> k" "wDets w2 d = (wDets w1 d)\<lparr>dTxSeq := dTxSeq (wDets w1 d) + of_nat j\<rparr>"
      by (rule toldD [OF told])
    let ?m = "n + of_nat j"
    have det2: "wDets w2 d = demoState rs ?m" using j(2) by (simp add: dets det demoState_fields)
    then have after: "demoAfter rs n k (wDets w' d)"
      using j(1) by (auto simp: demoAfter_def w' frame_rules)
    have recs: "length (recordsOf evs) \<le> 200"
      using length_recordsOf [of evs] short by (simp add: shortRun_def)
    have stmts: "bStatements ?b = recordsOf evs" "bTruncated ?b = 0"
      using applyEvents_statements [of "newBoundary d ctx name" 200 evs] short recs
      by (simp_all add: shortRun_def)
    have report: "snd (snd (finishNow ?b None)) =
        expectedReport name [] (writeUnitsOf (recordsOf evs)) (lastMark None evs) None (recordsOf evs) 0"
      by (subst finishNow_report)
        (simp_all add: frame_rules applyEvents_units applyEvents_mark stmts)
    have "wCalls w' = wCalls w @ reportsFor rs (CtxBoundary (wNext w) ctx) name evs"
      unfolding w' cb(2) finishBoundary_calls heap
      by (simp add: frame_rules det2 demoState_fields allowlistOf_def report calls2 notify_def
          reportsFor_def reportTo_def split: option.split)
    with after show ?thesis by simp
  qed
  then have "judged rs n d (CtxBoundary (wNext w) ctx) name w w1 w2 w'"
    by (simp add: judged_def)
  with f dets cb show thesis by (intro that [of w1 w2]) simp_all
qed

lemma demo_kinds:
  "DefaultClassifier insertUser = KindWrite" "DefaultClassifier (insertAudit ''user created'') = KindWrite"
  "DefaultClassifier insertOrder = KindWrite" "DefaultClassifier (insertAudit ''order created'') = KindWrite"
  "DefaultClassifier insertSignup = KindWrite" "DefaultClassifier insertAnalytics = KindWrite"
  "DefaultClassifier ''SELECT name FROM users WHERE id = 1'' \<noteq> KindWrite"
  "plainKind (DefaultClassifier ''SELECT name FROM users WHERE id = 1'')"
  by code_simp+

text \<open>The violation of two auto-commit writes.\<close>

definition twoWrites :: "string \<Rightarrow> string \<Rightarrow> string \<Rightarrow> int \<Rightarrow> int \<Rightarrow> Report" where
  "twoWrites name q1 q2 t1 t2 = ReportViolation
     \<lparr>vBoundary = name, vWriteUnits = 2,
      vStatements = [stmtRecord q1 KindWrite 0 t1, stmtRecord q2 KindWrite 0 t2],
      vTruncatedStatements = 0, vAllowedWriteUnits = [], vAttrs = []\<rparr>"

lemma writeEvent_demo: "writeEvent (demoState rs n) q i t = Recorded 200 (stmtRecord q KindWrite i t)"
  by (simp add: writeEvent_def demoState_fields)

lemma unitsOf_writes:
  "writeUnitsOf [stmtRecord q KindWrite 0 t] = 1"
  "writeUnitsOf [stmtRecord q1 KindWrite 0 t1, stmtRecord q2 KindWrite 0 t2] = 2"
  "i \<noteq> 0 \<Longrightarrow> writeUnitsOf (map (\<lambda>(q, t). stmtRecord q KindWrite i t) ws) = (if ws = [] then 0 else 1)"
proof -
  show "writeUnitsOf [stmtRecord q KindWrite 0 t] = 1"
    "writeUnitsOf [stmtRecord q1 KindWrite 0 t1, stmtRecord q2 KindWrite 0 t2] = 2"
    by (simp_all add: writeUnitsOf_def isAutoCommitWrite_def isWriteTx_def isWriteRecord_def)
  assume "i \<noteq> 0"
  then have "filter isWriteTx (map (\<lambda>(q, t). stmtRecord q KindWrite i t) ws) = map (\<lambda>(q, t). stmtRecord q KindWrite i t) ws"
    "filter isAutoCommitWrite (map (\<lambda>(q, t). stmtRecord q KindWrite i t) ws) = []"
    by (auto simp: filter_id_conv filter_empty_conv isAutoCommitWrite_def isWriteTx_def isWriteRecord_def)
  moreover have "srTxID ` set (map (\<lambda>(q, t). stmtRecord q KindWrite i t) ws) = (if ws = [] then {} else {i})"
    by (cases ws) (auto simp: image_image split_def)
  ultimately show "writeUnitsOf (map (\<lambda>(q, t). stmtRecord q KindWrite i t) ws) = (if ws = [] then 0 else 1)"
    by (simp add: writeUnitsOf_def)
qed

lemma reportsFor_writes:
  "reportsFor rs c name [] = []"
  "reportsFor rs c name [writeEvent (demoState rs' n) q i t] = []"
  "reportsFor rs c name [writeEvent (demoState rs' n) q1 0 t1, writeEvent (demoState rs' n) q2 0 t2] =
    reportTo rs c (twoWrites name q1 q2 t1 t2)"
  "i \<noteq> 0 \<Longrightarrow> reportsFor rs c name [writeEvent (demoState rs' n) q i t. (q, t) \<leftarrow> ws] = []"
proof -
  have one: "writeUnitsOf [stmtRecord q KindWrite i t] = 1"
    by (cases "i = 0") (use unitsOf_writes(1) unitsOf_writes(3) [of i "[(q, t)]"] in simp_all)
  show "reportsFor rs c name [] = []" by (simp add: reportsFor_def expectedReport_def writeUnitsOf_def)
  show "reportsFor rs c name [writeEvent (demoState rs' n) q i t] = []"
    by (simp add: reportsFor_def expectedReport_def writeEvent_demo one)
  show "reportsFor rs c name [writeEvent (demoState rs' n) q1 0 t1, writeEvent (demoState rs' n) q2 0 t2] =
    reportTo rs c (twoWrites name q1 q2 t1 t2)"
    by (simp add: reportsFor_def expectedReport_def writeEvent_demo unitsOf_writes markCovers_def
        allowlistCovers_def declinedCounts_def twoWrites_def)
  assume "i \<noteq> 0"
  have "recordsOf [writeEvent (demoState rs' n) q i t. (q, t) \<leftarrow> ws] = map (\<lambda>(q, t). stmtRecord q KindWrite i t) ws"
    and "lastMark None [writeEvent (demoState rs' n) q i t. (q, t) \<leftarrow> ws] = None"
    by (induction ws) (auto simp: writeEvent_demo)
  then show "reportsFor rs c name [writeEvent (demoState rs' n) q i t. (q, t) \<leftarrow> ws] = []"
    using unitsOf_writes(3) [OF \<open>i \<noteq> 0\<close>, of ws] by (simp add: reportsFor_def expectedReport_def)
qed

lemma execPair_calls:
  assumes det: "wDets w d = demoState rs n"
    and kinds: "DefaultClassifier q1 = KindWrite" "DefaultClassifier q2 = KindWrite"
    and run: "inBoundary clk d ctx name (\<lambda>ctx. execPair db ctx q1 q2 bad ok) (u, idle d, w) = ((u', ss', w'), a)"
  shows "ss' = idle d \<and> demoAfter rs n 0 (wDets w' d) \<and>
    ((\<exists>t1 t2. wCalls w' = wCalls w @ reportTo rs (CtxBoundary (wNext w) ctx) (twoWrites name q1 q2 t1 t2)) \<or>
     (\<exists>e. a = bad e) \<and> wCalls w' = wCalls w)"
proof (rule inBoundary_calls [OF det run])
  fix w1 w2
  let ?r = "wNext w"
  assume f: "execPair db (CtxBoundary ?r ctx) q1 q2 bad ok (u, idle d, w1) = ((u', ss', w2), a)"
    and dets: "wDets w1 = wDets w"
    and judged: "judged rs n d (CtxBoundary ?r ctx) name w w1 w2 w'"
  let ?e = "writeEvent (demoState rs n)"
  have "boundaryOf (CtxBoundary ?r ctx) = Some ?r" by simp
  from execPair_told [OF f _ _ this] kinds
  have "ss' = idle d \<and> ((\<exists>t1 t2. told 0 ?r [?e q1 0 t1, ?e q2 0 t2] w1 w2) \<or>
     (\<exists>e. a = bad e) \<and> (told 0 ?r [] w1 w2 \<or> (\<exists>t1. told 0 ?r [?e q1 0 t1] w1 w2)))"
    by (simp add: dets det demoState_fields)
  moreover have "shortRun [?e q1 0 t1, ?e q2 0 t2]" "shortRun [?e q1 0 t1]" "shortRun []" for t1 t2
    by (simp_all add: shortRun_def writeEvent_demo)
  ultimately show ?thesis
    using judged [unfolded judged_def] reportsFor_writes(1-3) by (metis append.right_neutral)
qed

lemma txPair_calls:
  assumes det: "wDets w d = demoState rs n" and fresh: "n + 1 \<noteq> 0"
    and kinds: "DefaultClassifier q1 = KindWrite" "DefaultClassifier q2 = KindWrite"
    and run: "inBoundary clk d ctx name (\<lambda>ctx. txPair db ctx q1 q2 bad ok) (u, idle d, w) = ((u', ss', w'), a)"
  shows "ss' = idle d \<and> demoAfter rs n 1 (wDets w' d) \<and> wCalls w' = wCalls w"
proof (rule inBoundary_calls [OF det run])
  fix w1 w2
  let ?r = "wNext w"
  assume f: "txPair db (CtxBoundary ?r ctx) q1 q2 bad ok (u, idle d, w1) = ((u', ss', w2), a)"
    and dets: "wDets w1 = wDets w"
    and judged: "judged rs n d (CtxBoundary ?r ctx) name w w1 w2 w'"
  let ?evs = "\<lambda>ws. [writeEvent (demoState rs n) q (n + 1) t. (q, t) \<leftarrow> ws]"
  have "boundaryOf (CtxBoundary ?r ctx) = Some ?r" by simp
  from txPair_told [OF f _ _ this] kinds
  obtain ws where "ss' = idle d" "length ws \<le> 2" "told 1 ?r (?evs ws) w1 w2"
    by (auto simp: dets det demoState_fields)
  moreover have "shortRun (?evs ws)" if "length ws \<le> 2"
    using that by (auto simp: shortRun_def writeEvent_demo list_all_iff)
  ultimately show ?thesis
    using judged [unfolded judged_def] reportsFor_writes(4) [OF fresh] by simp
qed

text \<open>The signup: when the write after the mark did not happen, the mark is stale.\<close>

definition staleSignup :: "string \<Rightarrow> Report" where
  "staleSignup name = ReportStaleAllow \<lparr>saBoundary = name, saReason = signupReason, saWriteUnits = 1\<rparr>"

lemma reportsFor_signup:
  fixes rs' :: "Reporter list" and n :: u64
  assumes "i \<noteq> 0"
  defines "e \<equiv> writeEvent (demoState rs' n)" and "mark \<equiv> Marked signupReason [2]"
  shows "reportsFor rs c name [e q1 i t1, mark] = reportTo rs c (staleSignup name)"
    and "reportsFor rs c name [e q1 i t1, mark, e q2 0 t2] = []"
proof -
  have units: "writeUnitsOf [stmtRecord q1 KindWrite i t1] = 1"
    "writeUnitsOf [stmtRecord q1 KindWrite i t1, stmtRecord q2 KindWrite 0 t2] = 2"
    using assms(1) by (simp_all add: writeUnitsOf_def isAutoCommitWrite_def isWriteTx_def isWriteRecord_def)
  show "reportsFor rs c name [e q1 i t1, mark] = reportTo rs c (staleSignup name)"
    "reportsFor rs c name [e q1 i t1, mark, e q2 0 t2] = []"
    by (simp_all add: reportsFor_def expectedReport_def e_def mark_def writeEvent_demo units markCovers_def
        staleSignup_def)
qed

lemma signup_calls:
  assumes det: "wDets w d = demoState rs n" and fresh: "n + 1 \<noteq> 0"
    and run: "inBoundary clk d ctx name (\<lambda>ctx. createSignupIntentionallyNonAtomic db (rq\<lparr>rqContext := ctx\<rparr>))
      (u, idle d, w) = ((u', ss', w'), a)"
  shows "ss' = idle d \<and> demoAfter rs n 1 (wDets w' d) \<and> (wCalls w' = wCalls w \<or> rsStatus a = 500 \<and>
    wCalls w' = wCalls w @ reportTo rs (CtxBoundary (wNext w) ctx) (staleSignup name))"
proof (rule inBoundary_calls [OF det run])
  fix w1 w2
  let ?r = "wNext w"
  assume f: "createSignupIntentionallyNonAtomic db (rq\<lparr>rqContext := CtxBoundary ?r ctx\<rparr>) (u, idle d, w1) =
      ((u', ss', w2), a)"
    and dets: "wDets w1 = wDets w"
    and judged: "judged rs n d (CtxBoundary ?r ctx) name w w1 w2 w'"
  let ?e = "writeEvent (demoState rs n)" and ?mark = "Marked signupReason [2]"
  have bd: "boundaryOf (rqContext (rq\<lparr>rqContext := CtxBoundary ?r ctx\<rparr>)) = Some ?r" by simp
  have told: "ss' = idle d \<and>
    ((told 1 ?r [] w1 w2 \<or> (\<exists>t. told 1 ?r [?e insertSignup (n + 1) t] w1 w2 \<or>
        told 1 ?r [?e insertSignup (n + 1) t, ?mark] w1 w2)) \<and> (\<exists>e. a = internalError e) \<or>
     (\<exists>t1 t2. told 1 ?r [?e insertSignup (n + 1) t1, ?mark, ?e insertAnalytics 0 t2] w1 w2))"
    using signup_told [OF f _ _ bd] by (simp add: dets det demoState_fields demo_kinds)
  have short: "shortRun [?e insertSignup (n + 1) t1, ?mark, ?e insertAnalytics 0 t2]"
      "shortRun [?e insertSignup (n + 1) t1, ?mark]" "shortRun [?e insertSignup (n + 1) t1]" "shortRun []" for t1 t2
    by (simp_all add: shortRun_def writeEvent_demo)
  have failed: "rsStatus (internalError e) = 500" for e by (simp add: internalError_def httpError_def)
  note report = judged [unfolded judged_def, rule_format, OF short(1)] judged [unfolded judged_def, rule_format, OF short(2)]
    judged [unfolded judged_def, rule_format, OF short(3)] judged [unfolded judged_def, rule_format, OF short(4)]
  show ?thesis
    using told report reportsFor_signup [OF fresh] reportsFor_writes(1,2) failed by (metis append.right_neutral)
qed

section \<open>Properties\<close>

lemma implements_two: "implements allIfaces (twoWrites name q1 q2 t1 t2)"
  by (simp add: twoWrites_def)

text \<open>One request, of any method and path.\<close>

definition routeOf :: "Request \<Rightarrow> string" where
  "routeOf rq = rqMethod rq @ '' '' @ rqPath rq"

lemma muxEntry_demo:
  "muxEntry (demoMux db) rq =
    (if routeOf rq = ''POST /users'' then Some (''POST /users'', createUserNonAtomic db)
     else if routeOf rq = ''POST /orders'' then Some (''POST /orders'', createOrderAtomic db)
     else if routeOf rq = ''POST /signups'' then Some (''POST /signups'', createSignupIntentionallyNonAtomic db)
     else None)"
  by (auto simp: muxEntry_def demoMux_def routeOf_def)

lemma other_route_calls:
  assumes det: "wDets w d = demoState rs n"
    and run: "inBoundary clk d ctx name (\<lambda>ctx st. (st, a0)) (u, idle d, w) = ((u', ss', w'), a)"
  shows "ss' = idle d \<and> demoAfter rs n 1 (wDets w' d) \<and> wCalls w' = wCalls w"
proof (rule inBoundary_calls [OF det run])
  fix w1 w2
  assume f: "((u, idle d, w1), a0) = ((u', ss', w2), a)"
    and judged: "judged rs n d (CtxBoundary (wNext w) ctx) name w w1 w2 w'"
  have "told 1 (wNext w) [] w1 w2" using f told_refl by simp
  then show ?thesis
    using f judged [unfolded judged_def, rule_format, of "[]" 1] by (simp add: shortRun_def reportsFor_writes)
qed

text \<open>What a request may be reported for: the two-write route as a violation, and as nothing only when it
  failed; the signup as a stale allow, only when it failed; everything else as nothing.\<close>

definition routeReports :: "Reporter list \<Rightarrow> Request \<Rightarrow> Response \<Rightarrow> ReporterCall list \<Rightarrow> bool" where
  "routeReports rs rq resp calls \<longleftrightarrow>
     (if routeOf rq = ''POST /users'' then
        rsStatus resp = 500 \<and> calls = [] \<or>
        (\<exists>b t1 t2. calls = reportTo rs (CtxBoundary b (rqContext rq))
           (twoWrites ''POST /users'' insertUser (insertAudit ''user created'') t1 t2))
      else if routeOf rq = ''POST /signups'' then
        calls = [] \<or> rsStatus resp = 500 \<and>
        (\<exists>b. calls = reportTo rs (CtxBoundary b (rqContext rq)) (staleSignup ''POST /signups''))
      else calls = [])"

lemma request_calls:
  assumes det: "wDets w d = demoState rs n" and fresh: "n + 1 \<noteq> 0"
    and run: "demoHandler db d rq (u, idle d, w) = ((u', ss', w'), resp)"
  shows "ss' = idle d \<and> demoAfter rs n 1 (wDets w' d) \<and>
    (\<exists>calls. wCalls w' = wCalls w @ calls \<and> routeReports rs rq resp calls)"
proof -
  have widen: "demoAfter rs n 0 D \<Longrightarrow> demoAfter rs n 1 D" for D by (auto simp: demoAfter_def)
  consider (users) "routeOf rq = ''POST /users''" | (orders) "routeOf rq = ''POST /orders''"
    | (signups) "routeOf rq = ''POST /signups''" | (other) "muxEntry (demoMux db) rq = None"
      "routeOf rq \<noteq> ''POST /users''" "routeOf rq \<noteq> ''POST /signups''"
    by (cases "routeOf rq = ''POST /users''"; cases "routeOf rq = ''POST /orders''";
        cases "routeOf rq = ''POST /signups''") (simp_all add: muxEntry_demo)
  then show ?thesis
  proof cases
    case users
    then have "inBoundary (dbClock db) d (rqContext rq) ''POST /users'' (\<lambda>ctx. execPair db ctx insertUser
        (insertAudit ''user created'') internalError (createdResponse ''user created (non-atomically!)''))
        (u, idle d, w) = ((u', ss', w'), resp)"
      using run by (simp add: demoHandler_def TxnProofMiddleware_inBoundary muxEntry_demo pairs)
    from execPair_calls [OF det demo_kinds(1,2) this] widen users show ?thesis
      by (auto simp: routeReports_def internalError_def httpError_def)
  next
    case orders
    then have "inBoundary (dbClock db) d (rqContext rq) ''POST /orders'' (\<lambda>ctx. txPair db ctx insertOrder
        (insertAudit ''order created'') internalError (createdResponse ''order created (atomically)''))
        (u, idle d, w) = ((u', ss', w'), resp)"
      using run by (simp add: demoHandler_def TxnProofMiddleware_inBoundary muxEntry_demo pairs)
    from txPair_calls [OF det fresh demo_kinds(3,4) this] orders show ?thesis by (simp add: routeReports_def)
  next
    case signups
    then have "inBoundary (dbClock db) d (rqContext rq) ''POST /signups''
        (\<lambda>ctx. createSignupIntentionallyNonAtomic db (rq\<lparr>rqContext := ctx\<rparr>)) (u, idle d, w) = ((u', ss', w'), resp)"
      using run by (simp add: demoHandler_def TxnProofMiddleware_inBoundary muxEntry_demo)
    from signup_calls [OF det fresh this] signups show ?thesis by (auto simp: routeReports_def)
  next
    case other
    then have "inBoundary (dbClock db) d (rqContext rq) (rqMethod rq @ '' '' @ rqPath rq)
        (\<lambda>ctx st. (st, unmatched (demoMux db) rq)) (u, idle d, w) = ((u', ss', w'), resp)"
      using run by (simp only: demoHandler_def TxnProofMiddleware_unmatched)
    from other_route_calls [OF det this] other(2,3) show ?thesis by (simp add: routeReports_def)
  qed
qed

text \<open>C6. The example server over its life. For any driver, any connections handed out and any failure of
  any call, and for any requests (any method, path and context), the calls on the reporters are one batch per
  request, in order: \<open>POST /users\<close> is reported to each reporter as a violation of its two writes, and may be left out
  only when it answered 500; \<open>POST /signups\<close> is never a violation, at most a stale allow with a 500;
  \<open>POST /orders\<close> and everything else is never reported. No request leaves a connection in a transaction.\<close>

theorem server_reports_each_request:
  assumes "wDets w d = demoState rs n" and "unat n + length rqs < 2 ^ 64"
  shows "case serveAll db d rqs (u, idle d, w) of ((u', ss', w'), resps) \<Rightarrow> ss' = idle d \<and>
    (\<exists>batches. wCalls w' = wCalls w @ concat batches \<and> length batches = length rqs \<and> length resps = length rqs \<and>
      list_all (\<lambda>(rq, resp, calls). routeReports rs rq resp calls) (zip rqs (zip resps batches)))"
  using assms
proof (induction rqs arbitrary: u w n)
  case (Cons rq rqs)
  obtain u1 ss1 w1 resp where one: "demoHandler db d rq (u, idle d, w) = ((u1, ss1, w1), resp)"
    by (cases "demoHandler db d rq (u, idle d, w)") auto
  have bound: "unat n + 1 < 2 ^ 64" using Cons.prems(2) by simp
  from request_calls [OF Cons.prems(1) next_id(2) [OF bound] one]
  obtain j calls where ss1: "ss1 = idle d" and j: "j \<le> 1" "wDets w1 d = demoState rs (n + of_nat j)"
    and calls: "wCalls w1 = wCalls w @ calls" "routeReports rs rq resp calls"
    by (auto simp: demoAfter_def)
  have "unat (n + of_nat j) \<le> unat n + 1"
    using j(1) next_id(3) [OF bound] by (cases j) auto
  then have "unat (n + of_nat j) + length rqs < 2 ^ 64" using Cons.prems(2) by simp
  note rest = Cons.IH [OF j(2) this, of u1]
  obtain u2 ss2 w2 resps where run: "serveAll db d rqs (u1, idle d, w1) = ((u2, ss2, w2), resps)"
    by (cases "serveAll db d rqs (u1, idle d, w1)") auto
  from rest [unfolded run] obtain batches where "ss2 = idle d" "wCalls w2 = wCalls w1 @ concat batches"
    "length batches = length rqs" "length resps = length rqs"
    "list_all (\<lambda>(rq, resp, calls). routeReports rs rq resp calls) (zip rqs (zip resps batches))" by auto
  then show ?case
    using one run ss1 calls by (auto intro!: exI [of _ "calls # batches"])
qed simp

lemma demoWorld_det: "wDets (demoWorld rs) d = demoState rs 0"
  by (simp add: demoWorld_def demoDetector_def New_def WithReporter_def)

lemma demoWorld_fields: "wCalls (demoWorld rs) = []" "wNext (demoWorld rs) = 0"
  by (simp_all add: demoWorld_def)

theorem server_reports_each_request_witness:
  "let (st, resps) = serveAll nullSqlDB 0 [post ''/orders'', post ''/users''] (0, idle 0, demoWorld [\<lparr>rRef = 7, rIface = allIfaces\<rparr>])
   in length resps = 2 \<and> length (wCalls (snd (snd st))) \<le> 1"
proof -
  let ?rs = "[\<lparr>rRef = 7, rIface = allIfaces\<rparr>]"
  have orders: "routeReports ?rs (post ''/orders'') r c \<longleftrightarrow> c = []"
    and users: "routeReports ?rs (post ''/users'') r c \<Longrightarrow> length c \<le> 1" for r c
    by (auto simp: routeReports_def routeOf_def post_def reportTo_def)
  then show ?thesis
    using server_reports_each_request [OF demoWorld_det, where db = nullSqlDB and u = 0 and d = 0
        and rs = ?rs and rqs = "[post ''/orders'', post ''/users'']"]
    by (auto simp: split_def demoWorld_fields length_Suc_conv orders dest: users simp del: serveAll.simps)
qed

text \<open>A resolver that only reads.\<close>

lemma resolveUser_calls:
  assumes det: "wDets w d = demoState rs n"
    and run: "inBoundary clk d ctx name (\<lambda>ctx. resolveUser db (p\<lparr>rpContext := ctx\<rparr>)) (u, idle d, w) =
      ((u', ss', w'), a)"
  shows "ss' = idle d \<and> demoAfter rs n 0 (wDets w' d) \<and> wCalls w' = wCalls w"
proof (rule inBoundary_calls [OF det run])
  fix w1 w2
  let ?c = "CtxBoundary (wNext w) ctx" and ?q = "''SELECT name FROM users WHERE id = 1''"
  let ?k = "DefaultClassifier ?q"
  assume f: "resolveUser db (p\<lparr>rpContext := ?c\<rparr>) (u, idle d, w1) = ((u', ss', w2), a)"
    and dets: "wDets w1 = wDets w"
    and judged: "judged rs n d ?c name w w1 w2 w'"
  obtain u1 ss1 w3 res err where query: "dbQueryContext db ?c ?q (u, idle d, w1) = ((u1, ss1, w3), res, err)"
    by (cases "dbQueryContext db ?c ?q (u, idle d, w1)") auto
  have "ss1 = idle d \<and> oneRecord d ?c ?q ?k 0 w1 w3 err"
    using dbQuery_effect [OF query _ demo_kinds(8)] by (simp add: dets det demoState_fields)
  moreover have "boundaryOf ?c = Some (wNext w)" by simp
  ultimately have told: "told 0 (wNext w) [] w1 w3 \<or> (\<exists>t. told 0 (wNext w) [Recorded 200 (stmtRecord ?q ?k 0 t)] w1 w3)"
    and ss1: "ss1 = idle d"
    using told_record [of ?c "wNext w" d ?q ?k 0 w1 w3 err] by (auto simp: dets det demoState_fields)
  have same: "ss' = ss1" "w2 = w3"
    using f query by (auto simp: resolveUser_def rowsClose_def split: option.splits)
  have "isWriteRecord (stmtRecord ?q ?k 0 t) = False" for t
    using demo_kinds(7) by (simp add: isWriteRecord_def)
  then have "writeUnitsOf [stmtRecord ?q ?k 0 t] = 0" for t
    by (simp add: writeUnitsOf_def isAutoCommitWrite_def isWriteTx_def)
  then have "reportsFor rs ?c name [Recorded 200 (stmtRecord ?q ?k 0 t)] = []" for t
    by (simp add: reportsFor_def expectedReport_def)
  moreover have "shortRun [Recorded 200 (stmtRecord ?q ?k 0 t)]" "shortRun []" for t by (simp_all add: shortRun_def)
  ultimately show ?thesis
    using told judged [unfolded judged_def] reportsFor_writes(1) same ss1 by (metis append.right_neutral)
qed

definition demoParams :: "Ctx \<Rightarrow> string \<Rightarrow> string \<Rightarrow> ResolveParams" where
  "demoParams ctx ty field = \<lparr>rpContext = ctx, rpParentType = ty, rpFieldName = field\<rparr>"

lemma demo_resolvers:
  "resolverOf (buildSchema db d) ''Query'' ''user'' = Some (WithBoundary (dbClock db) d (resolveUser db))"
  "resolverOf (buildSchema db d) ''Mutation'' ''createUser'' = Some (WithBoundary (dbClock db) d (resolveCreateUser db))"
  "resolverOf (buildSchema db d) ''Mutation'' ''createOrder'' = Some (WithBoundary (dbClock db) d (resolveCreateOrder db))"
  by (simp_all add: resolverOf_def buildSchema_def WrapResolvers_def)

text \<open>What a resolver of the schema does, called by the graphql package with a context.\<close>

definition resolveField where
  "resolveField db d ctx ty field st =
     (case resolverOf (buildSchema db d) ty field of
        None \<Rightarrow> (st, AnyNil, None) | Some r \<Rightarrow> r (demoParams ctx ty field) st)"

lemma resolveField_inBoundary:
  "resolveField db d ctx ''Query'' ''user'' = inBoundary (dbClock db) d ctx ''Query.user''
      (\<lambda>c. resolveUser db (demoParams ctx ''Query'' ''user''\<lparr>rpContext := c\<rparr>))"
    "resolveField db d ctx ''Mutation'' ''createOrder'' = inBoundary (dbClock db) d ctx ''Mutation.createOrder''
      (\<lambda>c. txPair db c insertOrder (insertAudit ''order created'') (\<lambda>e. (AnyNil, Some e)) (AnyBool True, None))"
    "resolveField db d ctx ''Mutation'' ''createUser'' = inBoundary (dbClock db) d ctx ''Mutation.createUser''
      (\<lambda>c. execPair db c insertUser (insertAudit ''user created'') (\<lambda>e. (AnyNil, Some e)) (AnyBool True, None))"
  by (simp_all add: fun_eq_iff resolveField_def demo_resolvers WithBoundary_inBoundary demoParams_def pairs)

text \<open>C31. The resolvers of the GraphQL program, on any driver and whatever fails: the reading resolver
  and the one with a transaction make no call on any reporter; the one with two auto-commit writes succeeds only
  if its boundary, named after the type and the field, was reported as a violation of two units.\<close>

theorem resolvers_report_their_boundary:
  assumes "wDets w d = demoState rs n" and "n + 1 \<noteq> 0"
  shows "(case resolveField db d ctx ''Query'' ''user'' (u, idle d, w) of
       ((u', ss', w'), out, err) \<Rightarrow> ss' = idle d \<and> wCalls w' = wCalls w) \<and>
    (case resolveField db d ctx ''Mutation'' ''createOrder'' (u, idle d, w) of
       ((u', ss', w'), out, err) \<Rightarrow> ss' = idle d \<and> wCalls w' = wCalls w) \<and>
    (case resolveField db d ctx ''Mutation'' ''createUser'' (u, idle d, w) of
       ((u', ss', w'), out, err) \<Rightarrow> ss' = idle d \<and>
         (let reported = (\<exists>t1 t2. wCalls w' = wCalls w @ reportTo rs (CtxBoundary (wNext w) ctx)
            (twoWrites ''Mutation.createUser'' insertUser (insertAudit ''user created'') t1 t2))
          in if err = None then reported else reported \<or> wCalls w' = wCalls w))"
  unfolding resolveField_inBoundary
  by (auto simp: Let_def split: prod.split dest!: resolveUser_calls [OF assms(1)]
      txPair_calls [OF assms demo_kinds(3,4)] execPair_calls [OF assms(1) demo_kinds(1,2)])

theorem resolvers_report_their_boundary_witness:
  "wCalls (snd (snd (fst (resolveField nullSqlDB 0 Background ''Mutation'' ''createOrder''
     (0, idle 0, demoWorld [\<lparr>rRef = 7, rIface = allIfaces\<rparr>]))))) = []"
  using resolvers_report_their_boundary [OF demoWorld_det, where db = nullSqlDB and u = 0
      and rs = "[\<lparr>rRef = 7, rIface = allIfaces\<rparr>]" and d = 0 and ctx = Background]
  by (simp add: split_def demoWorld_fields)

end
