(* ===== verification/SlogText.thy ===== *)
theory SlogText
  imports Report
begin

text \<open>
  The text that \<open>SlogReporter\<close> leaves behind \<open>slog.NewTextHandler\<close>: the handler's line for a record, as the
  standard library writes it without a time (the example programs strip it). A logger is the text it
  writes for a record. The lemmas show that a record is one line, whatever its strings contain.
\<close>

section \<open>The text handler\<close>

definition slogSafe :: "char \<Rightarrow> bool" where
  "slogSafe c \<longleftrightarrow> 0x20 \<le> byte c \<and> byte c < 0x80 \<and> c \<noteq> CHR 0x22 \<and> c \<noteq> backslash"

text \<open>\<open>needsQuoting\<close>: a backslash alone does not need quotes, although JSON would escape it.\<close>

definition needsQuoting :: "(nat \<Rightarrow> bool) \<Rightarrow> string \<Rightarrow> bool" where
  "needsQuoting printable s \<longleftrightarrow> s = [] \<or>
     list_ex (\<lambda>(r, b).
       if r < 0x80 then hd b \<noteq> backslash \<and> (hd b = CHR '' '' \<or> hd b = CHR ''='' \<or> \<not> slogSafe (hd b))
       else r = runeError \<or> isSpaceRune r \<or> \<not> printable r) (runes s)"

definition slogString :: "(nat \<Rightarrow> bool) \<Rightarrow> string \<Rightarrow> string" where
  "slogString printable s = (if needsQuoting printable s then goQuote printable s else s)"

fun anyText :: "GoAny \<Rightarrow> string" where
  "anyText AnyNil = ''<nil>''"
| "anyText (AnyBool b) = (if b then ''true'' else ''false'')"
| "anyText (AnyInt i) = intDecimal i"
| "anyText (AnyString s) = s"

definition bracketList :: "string list \<Rightarrow> string" where
  "bracketList ss = ''['' @ joinWith '' '' ss @ '']''"

fun slogValue :: "(nat \<Rightarrow> bool) \<Rightarrow> LogValue \<Rightarrow> string" where
  "slogValue printable (LogString s) = slogString printable s"
| "slogValue printable (LogInt i) = intDecimal i"
| "slogValue printable (LogStrings ss) = slogString printable (bracketList ss)"
| "slogValue printable (LogInts is) = slogString printable (bracketList (map intDecimal is))"
| "slogValue printable (LogAny a) = slogString printable (anyText a)"

fun levelText :: "LogLevel \<Rightarrow> string" where
  "levelText LevelWarn = ''WARN''"
| "levelText LevelError = ''ERROR''"

definition textLine :: "(nat \<Rightarrow> bool) \<Rightarrow> LogRecord \<Rightarrow> string" where
  "textLine printable r =
     ''level='' @ levelText (lrLevel r) @ '' msg='' @ slogString printable (lrMessage r) @
     concat (map (\<lambda>(k, v). '' '' @ slogString printable k @ ''='' @ slogValue printable v) (lrArgs r))"

definition textHandler :: "(nat \<Rightarrow> bool) \<Rightarrow> LogRecord \<Rightarrow> string" where
  "textHandler printable r = textLine printable r @ [newline]"

section \<open>The reporter\<close>

record SlogReporter =
  slLogger :: "LogRecord \<Rightarrow> string"

definition NewSlogReporter :: "(LogRecord \<Rightarrow> string) option \<Rightarrow> (LogRecord \<Rightarrow> string) \<Rightarrow> SlogReporter" where
  "NewSlogReporter l dflt = \<lparr>slLogger = (case l of None \<Rightarrow> dflt | Some l' \<Rightarrow> l')\<rparr>"

definition slogWrites :: "SlogReporter \<Rightarrow> Ctx \<Rightarrow> Report \<Rightarrow> string" where
  "slogWrites r ctx rep = slLogger r (slogReport ctx rep)"

section \<open>A record is one line\<close>

lemma slogString_noBreak: "noBreak (slogString printable s)"
proof (cases "needsQuoting printable s")
  case True
  then show ?thesis by (simp add: slogString_def goQuote_noBreak)
next
  case False
  have plain: "newline \<notin> set b" if "(r, b) \<in> set (runes s)" for r b
  proof
    assume "newline \<in> set b"
    moreover have "wfRune (r, b)" using runes_wf that by blast
    ultimately have "r = 10 \<and> b = [newline]" by (auto simp: wfRune_def)
    moreover have "\<not> (r < 0x80 \<and> hd b \<noteq> backslash \<and> \<not> slogSafe (hd b))"
      using False that by (auto simp: needsQuoting_def list_ex_iff)
    ultimately show False by (simp add: slogSafe_def backslash_def)
  qed
  have "newline \<notin> set (concat (map snd (runes s)))" using plain by auto
  then show ?thesis
    using False by (simp add: slogString_def runes_bytes noBreak_def)
qed

lemma textLine_noBreak: "noBreak (textLine printable r)"
proof -
  have "noBreak (slogValue printable v)" for v
    by (cases v) (simp_all add: slogString_noBreak intDecimal_noBreak)
  moreover have "noBreak (levelText l)" for l by (cases l) (simp_all add: noBreak_def)
  ultimately show ?thesis
    using slogString_noBreak [of printable] by (auto simp: textLine_def noBreak_def)
qed

section \<open>Evaluation on ASCII strings\<close>

lemma slogString_ascii:
  assumes "list_all (\<lambda>c. byte c < 0x80) s"
  shows "slogString printable s =
    (if s = [] \<or> list_ex (\<lambda>c. c \<noteq> backslash \<and> (c = CHR '' '' \<or> c = CHR ''='' \<or> \<not> slogSafe c)) s
     then goQuote printable s else s)"
proof -
  have "list_ex P (map (\<lambda>c. (byte c, [c])) s) = list_ex (\<lambda>c. P (byte c, [c])) s" for P
    by (induction s) simp_all
  moreover have "list_ex (\<lambda>c. if byte c < 0x80 then P c else Q c) s = list_ex P s" for P Q
    using assms by (induction s) simp_all
  ultimately show ?thesis
    by (simp add: slogString_def needsQuoting_def runes_ascii [OF assms])
qed

text \<open>Printable ASCII without quotes and backslashes is quoted as it is.\<close>

lemma goQuote_plain:
  assumes "list_all (\<lambda>c. 0x20 \<le> byte c \<and> byte c < 0x7F \<and> byte c \<noteq> 34 \<and> byte c \<noteq> 92) s"
  shows "goQuote printable s = [CHR 0x22] @ s @ [CHR 0x22]"
proof -
  have "list_all (\<lambda>c. byte c < 0x80) s" using assms by (auto simp: list_all_iff)
  moreover have "concat (map (\<lambda>c. quoteRune printable (byte c, [c])) s) = s"
    using assms by (induction s) (auto simp: quoteRune_def runeError_def)
  ultimately show ?thesis by (simp add: goQuote_def runes_ascii comp_def)
qed

lemma slogString_spaced:
  assumes "list_all (\<lambda>c. 0x20 \<le> byte c \<and> byte c < 0x7F \<and> byte c \<noteq> 34 \<and> byte c \<noteq> 92) s" and "CHR '' '' \<in> set s"
  shows "slogString printable s = [CHR 0x22] @ s @ [CHR 0x22]"
proof -
  have "list_all (\<lambda>c. byte c < 0x80) s" using assms(1) by (auto simp: list_all_iff)
  moreover have "list_ex (\<lambda>c. c \<noteq> backslash \<and> (c = CHR '' '' \<or> c = CHR ''='' \<or> \<not> slogSafe c)) s"
    using assms(2) by (auto simp: list_ex_iff backslash_def intro: bexI [of _ "CHR '' ''"])
  ultimately show ?thesis by (simp add: slogString_ascii goQuote_plain assms(1))
qed

lemma slogString_word:
  assumes "list_all (\<lambda>c. 0x20 < byte c \<and> byte c < 0x7F \<and> byte c \<noteq> 34 \<and> byte c \<noteq> 92 \<and> byte c \<noteq> 61) s" and "s \<noteq> []"
  shows "slogString printable s = s"
proof -
  have "list_all (\<lambda>c. byte c < 0x80) s" using assms(1) by (auto simp: list_all_iff)
  moreover have "\<not> list_ex (\<lambda>c. c \<noteq> backslash \<and> (c = CHR '' '' \<or> c = CHR ''='' \<or> \<not> slogSafe c)) s"
    using assms(1) by (auto simp: list_ex_iff list_all_iff slogSafe_def)
  ultimately show ?thesis using assms(2) by (simp add: slogString_ascii)
qed

end
