(* ===== verification/Programs.thy ===== *)
theory Programs
  imports ExampleReports SlogText
begin

text \<open>
  The \<open>main\<close> functions of the example programs, with what they print: each reports through a
  \<open>SlogReporter\<close> on standard output, works on the null database and prints what it asked for and what
  came back. The HTTP transport, the graphql package and the text of its errors are parameters.

  The properties say that the programs print what their README files show.
\<close>

section \<open>Printing\<close>

text \<open>A step of a program gives the state, what it wrote to standard output, and, when it ended the program,
  what it wrote to standard error and the exit status.\<close>

type_synonym Step = "(NullState DBState, string \<times> (string \<times> nat) option) Call"

fun runSteps :: "Step list \<Rightarrow> Step" where
  "runSteps [] st = (st, [], None)"
| "runSteps (f # fs) st =
     (case f st of
        (st1, out1, Some ended) \<Rightarrow> (st1, out1, Some ended)
      | (st1, out1, None) \<Rightarrow> (let (st2, out2, ended) = runSteps fs st1 in (st2, out1 @ out2, ended)))"

text \<open>What the reporter wrote between two worlds.\<close>

definition wroteBetween :: "SlogReporter \<Rightarrow> World \<Rightarrow> World \<Rightarrow> string" where
  "wroteBetween rep w w' =
     concat (map (\<lambda>(ref, ctx, r). slogWrites rep ctx r) (drop (length (wCalls w)) (wCalls w')))"

definition slogOnStdout :: "(nat \<Rightarrow> bool) \<Rightarrow> SlogReporter" where
  "slogOnStdout printable = NewSlogReporter (Some (textHandler printable)) (textHandler printable)"

definition demoReporter :: Reporter where
  "demoReporter = \<lparr>rRef = 0, rIface = allIfaces\<rparr>"

definition printLn :: "string \<Rightarrow> string" where
  "printLn s = s @ [newline]"

section \<open>nethttp\<close>

text \<open>\<open>net\<close> is the error of the transport for a URL, if any; a request that gets through is served by the
  handler.\<close>

definition postTo ::
    "(string \<Rightarrow> GoError option) \<Rightarrow> SlogReporter \<Rightarrow> string \<Rightarrow> string \<Rightarrow> string \<Rightarrow> Step" where
  "postTo net rep server path comment st =
     (let url = server @ path;
          out = printLn (''-> POST '' @ url @ '' ('' @ comment @ '')'')
      in case net url of
           Some err \<Rightarrow> (st, out, Some (printLn (''request failed: '' @ errorText err), 1))
         | None \<Rightarrow>
             let (st', resp) = demoHandler nullSqlDB 0 (post path) st
             in (st', out @ wroteBetween rep (snd (snd st)) (snd (snd st')) @
                   ''   '' @ natDecimal (rsStatus resp) @ '' '' @ rsBody resp, None))"

definition nethttpMain :: "(string \<Rightarrow> GoError option) \<Rightarrow> (nat \<Rightarrow> bool) \<Rightarrow> string \<Rightarrow> Step" where
  "nethttpMain net printable server =
     (let rep = slogOnStdout printable in
      runSteps
        [postTo net rep server ''/users'' ''two auto-commit INSERTs -> violation expected'',
         postTo net rep server ''/orders'' ''both INSERTs in one transaction -> clean'',
         postTo net rep server ''/signups'' ''non-atomic on purpose, allowed at the write site -> clean''])"

section \<open>graphql\<close>

record GraphQLResult =
  grErrors :: "GoError list"
  grData :: "(string \<times> GoAny) list"

text \<open>\<open>graphql.Do\<close>: a schema, the text of a request and a context.\<close>

type_synonym GraphQLDo = "(string \<times> NullState Fields) list \<Rightarrow> string \<Rightarrow> Ctx \<Rightarrow> (NullState DBState, GraphQLResult) Call"

text \<open>\<open>%v\<close> of a map: its keys in order.\<close>

definition mapText :: "(string \<times> GoAny) list \<Rightarrow> string" where
  "mapText m = ''map'' @ bracketList (map (\<lambda>(k, v). k @ '':'' @ anyText v) (sort_key fst m))"

definition execute ::
    "GraphQLDo \<Rightarrow> (GoError list \<Rightarrow> string) \<Rightarrow> SlogReporter \<Rightarrow> (string \<times> NullState Fields) list \<Rightarrow>
     string \<Rightarrow> string \<Rightarrow> Step" where
  "execute do errorsText rep schema request comment st =
     (let out = printLn (''-> '' @ request @ '' ('' @ comment @ '')'');
          (st', result) = do schema request Background st;
          out' = out @ wroteBetween rep (snd (snd st)) (snd (snd st'))
      in if grErrors result \<noteq> [] then (st', out', Some (printLn (''errors: '' @ errorsText (grErrors result)), 1))
         else (st', out' @ printLn (''   data: '' @ mapText (grData result)), None))"

text \<open>\<open>schemaErr\<close> is the error of \<open>graphql.NewSchema\<close>, if any.\<close>

definition graphqlMain ::
    "GraphQLDo \<Rightarrow> (GoError list \<Rightarrow> string) \<Rightarrow> GoError option \<Rightarrow> (nat \<Rightarrow> bool) \<Rightarrow> Step" where
  "graphqlMain do errorsText schemaErr printable st =
     (let rep = slogOnStdout printable; schema = buildSchema nullSqlDB 0 in
      case schemaErr of
        Some err \<Rightarrow> (st, [], Some (printLn (''schema: '' @ errorText err), 1))
      | None \<Rightarrow>
          runSteps
            [execute do errorsText rep schema ''mutation { createUser }'' ''two auto-commit INSERTs -> violation expected'',
             execute do errorsText rep schema ''mutation { createOrder }'' ''both INSERTs in one transaction -> clean'',
             execute do errorsText rep schema ''{ user }'' ''read-only resolver -> clean''] st)"

section \<open>The null database never fails\<close>

lemma nullSqlDB_fields:
  "dbConn nullSqlDB c = wrappedConn id nullConn" "dbPick nullSqlDB u = [0]" "dbCtxErr nullSqlDB ctx u = None"
  "dbClock nullSqlDB = id" "dbConns nullSqlDB c = nullConn"
  by (simp_all add: dbConn_def nullSqlDB_def)

lemma null_wrapped_exec: "snd (sqlExec ctx q [] (wrappedConn id nullConn) v) = (Some 1, None)"
  by (cases v)
    (simp add: sqlExec_def sqlFallback_def sqlExecDirect_def wrappedConn_def wcExecContext_def wcExecUnderlying_def
      nullConn_def underlying_eq connObserved_eq)

lemma null_exec: "snd (dbExecContext nullSqlDB ctx q st) = (Some 1, None)"
  using null_wrapped_exec [of ctx q]
  by (cases st) (simp add: dbExecContext_def sqlRetry_def nullSqlDB_fields split_def Let_def)

lemma null_query: "snd (dbQueryContext nullSqlDB ctx q st) = (Some (), None)"
  by (cases st)
    (simp add: dbQueryContext_def nullSqlDB_fields split_def Let_def sqlFallback_def sqlQueryDirect_def
      wrappedConn_def wcQueryContext_def wcQueryUnderlying_def nullConn_def underlying_def connObserved_def)

lemma null_begin:
  "snd (dbBeginTx nullSqlDB ctx st) = Inr \<lparr>txConn = 0, txCtx = ctx, txOps = wrappedTx nullTx, txDone = False\<rparr>"
  by (cases st)
    (simp add: dbBeginTx_def nullSqlDB_fields sqlBegin_eq driverBegin_def nullConn_def split_def Let_def)

lemma null_txExec: "\<not> txDone tx \<Longrightarrow> snd (txExecContext nullSqlDB tx ctx q st) = (Some 1, None)"
  using null_wrapped_exec [of ctx q]
  by (cases st) (simp add: txExecContext_def nullSqlDB_fields onConn_def split_def Let_def)

lemma null_commit:
  "\<not> txDone tx \<Longrightarrow> txOps tx = wrappedTx nullTx \<Longrightarrow>
   snd (txCommitCall nullSqlDB tx st) = (tx\<lparr>txDone := True\<rparr>, None)"
  by (cases st)
    (simp add: txCommitCall_def nullSqlDB_fields onConn_def split_def Let_def wrappedTx_def wtEnd_def nullTx_def
      underlying_def)

lemma snd_deferRollback: "snd (deferRollback r) = snd (snd r)"
  by (simp add: deferRollback_def split_def Let_def)

text \<open>Every handler and resolver gives the answer of its last line.\<close>

lemma null_execPair: "snd (execPair nullSqlDB ctx q1 q2 bad ok st) = ok"
  using null_exec [of ctx]
  by (simp add: execPair_def split_def)

lemma null_txPair: "snd (txPair nullSqlDB ctx q1 q2 bad ok st) = ok"
  using null_begin [of ctx st] null_txExec null_commit
  by (simp add: txPair_def split_def snd_deferRollback)

lemma null_signup:
  "snd (createSignupIntentionallyNonAtomic nullSqlDB rq st) =
    createdResponse ''signup created (non-atomically, on purpose)''"
  using null_begin [of "rqContext rq" st] null_txExec null_commit null_exec [of "rqContext rq" insertAnalytics]
  by (simp add: createSignupIntentionallyNonAtomic_def split_def snd_deferRollback Let_def)

lemma snd_inBoundary: "(\<And>c st. snd (f c st) = a) \<Longrightarrow> snd (inBoundary clk d ctx name f st) = a"
  by (simp add: inBoundary_def split_def Let_def)

lemma null_handler:
  "snd (demoHandler nullSqlDB d (post ''/users'') st) = createdResponse ''user created (non-atomically!)''"
  "snd (demoHandler nullSqlDB d (post ''/orders'') st) = createdResponse ''order created (atomically)''"
  "snd (demoHandler nullSqlDB d (post ''/signups'') st) =
    createdResponse ''signup created (non-atomically, on purpose)''"
  by (simp_all add: demoHandler_def TxnProofMiddleware_inBoundary muxEntry_demo routeOf_def post_def pairs
      snd_inBoundary null_execPair null_txPair null_signup)

section \<open>The log lines\<close>

definition dquoted :: "string \<Rightarrow> string" where
  "dquoted s = [CHR 0x22] @ s @ [CHR 0x22]"

text \<open>The one line both programs log, for a boundary of a given rendered name.\<close>

definition violationLine :: "string \<Rightarrow> string" where
  "violationLine name =
     ''level=ERROR msg='' @ dquoted ''txnproof: non-atomic SQL execution detected'' @ '' boundary='' @ name @
     '' write_units=2 writes='' @
     dquoted (''[[auto-commit] INSERT INTO users (name) VALUES ('' @ quoted ''alice'' @
       '') [auto-commit] INSERT INTO audit_log (event) VALUES ('' @ quoted ''user created'' @ '')]'')"

lemma demo_oneLine: "oneLine insertUser = insertUser" "oneLine (insertAudit ''user created'') = insertAudit ''user created''"
  by (simp_all add: oneLine_def GoUnicode.fields_def runes_ascii insertUser_def insertAudit_def quoted_def isSpaceRune_def)

lemma violation_logged:
  "slogWrites (slogOnStdout printable) ctx (twoWrites name insertUser (insertAudit ''user created'') t1 t2) =
    printLn (violationLine (slogString printable name))"
proof -
  let ?writes = "bracketList [''[auto-commit] '' @ insertUser, ''[auto-commit] '' @ insertAudit ''user created'']"
  have msg: "slogString printable ''txnproof: non-atomic SQL execution detected''
      = dquoted ''txnproof: non-atomic SQL execution detected''"
    by (simp add: slogString_spaced dquoted_def)
  have writes: "slogString printable ?writes = dquoted ?writes"
    by (simp add: slogString_spaced dquoted_def bracketList_def insertUser_def insertAudit_def quoted_def)
  have keys: "slogString printable ''boundary'' = ''boundary''"
    "slogString printable ''write_units'' = ''write_units''" "slogString printable ''writes'' = ''writes''"
    by (simp_all add: slogString_word)
  have two: "intDecimal 2 = ''2''" by code_simp
  show ?thesis
    by (simp add: slogWrites_def slogOnStdout_def NewSlogReporter_def textHandler_def textLine_def twoWrites_def
        isWriteRecord_def writeEntry_def txLabel_def demo_oneLine msg writes [simplified] keys two
        printLn_def violationLine_def SlogAttrs_def)
      (simp add: bracketList_def insertUser_def insertAudit_def quoted_def dquoted_def)
qed

section \<open>Runs of the programs\<close>

text \<open>Between two steps: no connection is in a transaction, and at most \<open>k\<close> transactions began.\<close>

definition betweenSteps :: "nat \<Rightarrow> NullState DBState \<Rightarrow> bool" where
  "betweenSteps k st \<longleftrightarrow> fst (snd st) = idle 0 \<and>
     (\<exists>j\<le>k. wDets (snd (snd st)) 0 = demoState [demoReporter] (of_nat j))"

lemma betweenSteps_start: "betweenSteps 0 (u, idle 0, demoWorld [demoReporter])"
proof -
  have "demoState [demoReporter] 0 = demoDetector [demoReporter]"
    by (simp add: demoDetector_def New_def WithReporter_def)
  then show ?thesis by (simp add: betweenSteps_def demoWorld_def)
qed

lemma betweenSteps_next:
  assumes "betweenSteps k (u, idle 0, w)" and "k < 10"
  obtains n where "wDets w 0 = demoState [demoReporter] n" "n + 1 \<noteq> (0 :: u64)"
    "\<And>D. demoAfter [demoReporter] n 1 D \<Longrightarrow> \<exists>j\<le>Suc k. D = demoState [demoReporter] (of_nat j)"
proof -
  obtain j where j: "j \<le> k" "wDets w 0 = demoState [demoReporter] (of_nat j)"
    using assms(1) by (auto simp: betweenSteps_def)
  have "of_nat (Suc j) \<noteq> (0 :: u64)"
    using of_nat_u64_inj [of "Suc j" 0] j(1) assms(2) by simp
  moreover have "\<exists>i\<le>Suc k. D = demoState [demoReporter] (of_nat i)" if after: "demoAfter [demoReporter] (of_nat j) 1 D" for D
  proof -
    obtain i where "i \<le> 1" "D = demoState [demoReporter] (of_nat (j + i))"
      using after by (auto simp: demoAfter_def)
    then show ?thesis using j(1) by (intro exI [of _ "j + i"]) simp
  qed
  ultimately show thesis using that j(2) by (simp add: add.commute)
qed

lemma wroteBetween_calls:
  "wCalls w' = wCalls w @ calls \<Longrightarrow>
   wroteBetween rep w w' = concat (map (\<lambda>(ref, ctx, r). slogWrites rep ctx r) calls)"
  by (simp add: wroteBetween_def)

lemma post_step:
  assumes start: "betweenSteps k st" and "k < 10"
  obtains st' calls where
    "postTo (\<lambda>_. None) rep server path comment st = (st',
       printLn (''-> POST '' @ server @ path @ '' ('' @ comment @ '')'') @
       concat (map (\<lambda>(ref, ctx, r). slogWrites rep ctx r) calls) @
       ''   '' @ natDecimal (rsStatus (snd (demoHandler nullSqlDB 0 (post path) st))) @ '' '' @
       rsBody (snd (demoHandler nullSqlDB 0 (post path) st)), None)"
    "betweenSteps (Suc k) st'"
    "routeReports [demoReporter] (post path) (snd (demoHandler nullSqlDB 0 (post path) st)) calls"
proof -
  obtain u w where st: "st = (u, idle 0, w)" using start by (cases st) (auto simp: betweenSteps_def)
  obtain n where n: "wDets w 0 = demoState [demoReporter] n" "n + 1 \<noteq> (0 :: u64)"
    "\<And>D. demoAfter [demoReporter] n 1 D \<Longrightarrow> \<exists>j\<le>Suc k. D = demoState [demoReporter] (of_nat j)"
    using betweenSteps_next [OF start [unfolded st] assms(2)] by blast
  obtain u' ss' w' resp where run: "demoHandler nullSqlDB 0 (post path) (u, idle 0, w) = ((u', ss', w'), resp)"
    by (cases "demoHandler nullSqlDB 0 (post path) (u, idle 0, w)") auto
  from request_calls [OF n(1,2) run] n(3)
  obtain calls where "betweenSteps (Suc k) (u', ss', w')" "wCalls w' = wCalls w @ calls"
    "routeReports [demoReporter] (post path) resp calls"
    by (auto simp: betweenSteps_def)
  then show thesis
    using that [of "(u', ss', w')" calls] run by (simp add: postTo_def st Let_def wroteBetween_calls)
qed

lemma created_fields: "rsStatus (createdResponse line) = 201" "rsBody (createdResponse line) = printLn line"
  by (simp_all add: createdResponse_def printLn_def)

lemma post_fields: "routeOf (post path) = ''POST '' @ path" "rqContext (post path) = Background"
  by (simp_all add: routeOf_def post_def)

lemma natDecimal_201: "natDecimal 201 = ''201''"
  by code_simp

lemma post_users:
  assumes "betweenSteps k st" and "k < 10"
  obtains st' where "postTo (\<lambda>_. None) (slogOnStdout printable) server ''/users'' comment st = (st',
      printLn (''-> POST '' @ server @ ''/users ('' @ comment @ '')'') @
      printLn (violationLine (dquoted ''POST /users'')) @
      printLn (''   201 user created (non-atomically!)''), None)" "betweenSteps (Suc k) st'"
proof -
  obtain st' calls where run: "postTo (\<lambda>_. None) (slogOnStdout printable) server ''/users'' comment st = (st',
       printLn (''-> POST '' @ server @ ''/users'' @ '' ('' @ comment @ '')'') @
       concat (map (\<lambda>(ref, ctx, r). slogWrites (slogOnStdout printable) ctx r) calls) @
       ''   '' @ natDecimal (rsStatus (snd (demoHandler nullSqlDB 0 (post ''/users'') st))) @ '' '' @
       rsBody (snd (demoHandler nullSqlDB 0 (post ''/users'') st)), None)"
    and st': "betweenSteps (Suc k) st'"
    and calls: "routeReports [demoReporter] (post ''/users'') (snd (demoHandler nullSqlDB 0 (post ''/users'') st)) calls"
    using assms by (rule post_step)
  obtain b t1 t2 where "calls = reportTo [demoReporter] (CtxBoundary b Background)
      (twoWrites ''POST /users'' insertUser (insertAudit ''user created'') t1 t2)"
    using calls by (auto simp: routeReports_def null_handler created_fields post_fields)
  then have "concat (map (\<lambda>(ref, ctx, r). slogWrites (slogOnStdout printable) ctx r) calls) =
      printLn (violationLine (dquoted ''POST /users''))"
    by (simp add: reportTo_def demoReporter_def implements_two violation_logged slogString_spaced dquoted_def)
  with run st' that show thesis
    by (simp add: null_handler created_fields natDecimal_201 printLn_def)
qed

lemma post_quiet:
  assumes "betweenSteps k st" and "k < 10" and "path \<in> {''/orders'', ''/signups''}"
  obtains st' where "postTo (\<lambda>_. None) rep server path comment st = (st',
      printLn (''-> POST '' @ server @ path @ '' ('' @ comment @ '')'') @
      printLn (''   201 '' @ (if path = ''/orders'' then ''order created (atomically)''
        else ''signup created (non-atomically, on purpose)'')), None)" "betweenSteps (Suc k) st'"
proof -
  obtain st' calls where run: "postTo (\<lambda>_. None) rep server path comment st = (st',
       printLn (''-> POST '' @ server @ path @ '' ('' @ comment @ '')'') @
       concat (map (\<lambda>(ref, ctx, r). slogWrites rep ctx r) calls) @
       ''   '' @ natDecimal (rsStatus (snd (demoHandler nullSqlDB 0 (post path) st))) @ '' '' @
       rsBody (snd (demoHandler nullSqlDB 0 (post path) st)), None)"
    and st': "betweenSteps (Suc k) st'"
    and calls: "routeReports [demoReporter] (post path) (snd (demoHandler nullSqlDB 0 (post path) st)) calls"
    using assms(1,2) by (rule post_step)
  have "calls = []"
    using calls assms(3) by (auto simp: routeReports_def null_handler created_fields post_fields)
  with run st' that assms(3) show thesis
    by (auto simp: null_handler created_fields natDecimal_201 printLn_def)
qed

lemma post_orders:
  assumes "betweenSteps k st" and "k < 10"
  obtains st' where "postTo (\<lambda>_. None) rep server ''/orders'' comment st = (st',
      printLn (''-> POST '' @ server @ ''/orders ('' @ comment @ '')'') @
      printLn (''   201 order created (atomically)''), None)" "betweenSteps (Suc k) st'"
proof (rule post_quiet [OF assms, of "''/orders''" rep server comment])
  fix st'
  assume "postTo (\<lambda>_. None) rep server ''/orders'' comment st = (st',
      printLn (''-> POST '' @ server @ ''/orders'' @ '' ('' @ comment @ '')'') @
      printLn (''   201 '' @ (if ''/orders'' = ''/orders'' then ''order created (atomically)''
        else ''signup created (non-atomically, on purpose)'')), None)" "betweenSteps (Suc k) st'"
  then show thesis by (intro that [of st']) simp_all
qed simp

lemma post_signups:
  assumes "betweenSteps k st" and "k < 10"
  obtains st' where "postTo (\<lambda>_. None) rep server ''/signups'' comment st = (st',
      printLn (''-> POST '' @ server @ ''/signups ('' @ comment @ '')'') @
      printLn (''   201 signup created (non-atomically, on purpose)''), None)" "betweenSteps (Suc k) st'"
proof (rule post_quiet [OF assms, of "''/signups''" rep server comment])
  fix st'
  assume "postTo (\<lambda>_. None) rep server ''/signups'' comment st = (st',
      printLn (''-> POST '' @ server @ ''/signups'' @ '' ('' @ comment @ '')'') @
      printLn (''   201 '' @ (if ''/signups'' = ''/orders'' then ''order created (atomically)''
        else ''signup created (non-atomically, on purpose)'')), None)" "betweenSteps (Suc k) st'"
  then show thesis by (intro that [of st']) simp_all
qed simp

section \<open>Runs of the GraphQL program\<close>

text \<open>What \<open>graphql.Do\<close> documents of a request for one field: it calls the field's resolver with the
  context, and the result has the value of the field, or the error.\<close>

definition fieldResult ::
    "string \<Rightarrow> string \<Rightarrow> Ctx \<Rightarrow> (NullState DBState, GraphQLResult) Call" where
  "fieldResult ty field ctx st =
     (let (st', out, err) = resolveField nullSqlDB 0 ctx ty field st
      in (st', case err of
           None \<Rightarrow> \<lparr>grErrors = [], grData = [(field, out)]\<rparr>
         | Some e \<Rightarrow> \<lparr>grErrors = [e], grData = [(field, AnyNil)]\<rparr>))"

definition servesField :: "GraphQLDo \<Rightarrow> string \<Rightarrow> string \<Rightarrow> string \<Rightarrow> bool" where
  "servesField do request ty field \<longleftrightarrow> do (buildSchema nullSqlDB 0) request = fieldResult ty field"

lemma execute_step:
  assumes "servesField do request ty field"
    and "resolveField nullSqlDB 0 Background ty field st = (st', out, None)"
    and "wCalls (snd (snd st')) = wCalls (snd (snd st)) @ calls"
  shows "execute do errorsText rep (buildSchema nullSqlDB 0) request comment st = (st',
      printLn (''-> '' @ request @ '' ('' @ comment @ '')'') @
      concat (map (\<lambda>(ref, ctx, r). slogWrites rep ctx r) calls) @
      printLn (''   data: map['' @ field @ '':'' @ anyText out @ '']''), None)"
  using assms
  by (simp add: execute_def servesField_def fieldResult_def Let_def wroteBetween_calls mapText_def bracketList_def)

lemma null_fields:
  "snd (resolveField nullSqlDB 0 ctx ''Mutation'' ''createUser'' st) = (AnyBool True, None)"
  "snd (resolveField nullSqlDB 0 ctx ''Mutation'' ''createOrder'' st) = (AnyBool True, None)"
  "snd (resolveField nullSqlDB 0 ctx ''Query'' ''user'' st) = (AnyString ''alice'', None)"
proof -
  have "snd (resolveUser nullSqlDB p st) = (AnyString ''alice'', None)" for p st
    using null_query [of "rpContext p" "''SELECT name FROM users WHERE id = 1''" st]
    by (cases "dbQueryContext nullSqlDB (rpContext p) ''SELECT name FROM users WHERE id = 1'' st")
      (simp add: resolveUser_def)
  then show "snd (resolveField nullSqlDB 0 ctx ''Query'' ''user'' st) = (AnyString ''alice'', None)"
    by (simp add: resolveField_inBoundary snd_inBoundary)
qed (simp_all add: resolveField_inBoundary snd_inBoundary null_execPair null_txPair)

lemma field_step:
  assumes start: "betweenSteps k st" and "k < 10"
    and "(ty, field) \<in> {(''Mutation'', ''createUser''), (''Mutation'', ''createOrder''), (''Query'', ''user'')}"
  obtains st' calls where
    "resolveField nullSqlDB 0 Background ty field st =
       (st', snd (resolveField nullSqlDB 0 Background ty field st))"
    "betweenSteps (Suc k) st'" "wCalls (snd (snd st')) = wCalls (snd (snd st)) @ calls"
    "if field = ''createUser''
     then \<exists>b t1 t2. calls = reportTo [demoReporter] (CtxBoundary b Background)
       (twoWrites ''Mutation.createUser'' insertUser (insertAudit ''user created'') t1 t2)
     else calls = []"
proof -
  obtain u w where st: "st = (u, idle 0, w)" using start by (cases st) (auto simp: betweenSteps_def)
  obtain n where n: "wDets w 0 = demoState [demoReporter] n" "n + 1 \<noteq> (0 :: u64)"
    "\<And>D. demoAfter [demoReporter] n 1 D \<Longrightarrow> \<exists>j\<le>Suc k. D = demoState [demoReporter] (of_nat j)"
    using betweenSteps_next [OF start [unfolded st] assms(2)] by blast
  have widen: "demoAfter [demoReporter] n 0 D \<Longrightarrow> demoAfter [demoReporter] n (Suc 0) D" for D
    by (auto simp: demoAfter_def)
  obtain u' ss' w' a where run: "resolveField nullSqlDB 0 Background ty field (u, idle 0, w) = ((u', ss', w'), a)"
    by (cases "resolveField nullSqlDB 0 Background ty field (u, idle 0, w)") auto
  have a: "snd a = None"
    using null_fields [of Background "(u, idle 0, w)"] assms(3) run by auto
  have "ss' = idle 0 \<and> demoAfter [demoReporter] n 1 (wDets w' 0) \<and> (\<exists>calls. wCalls w' = wCalls w @ calls \<and>
    (if field = ''createUser''
     then \<exists>b t1 t2. calls = reportTo [demoReporter] (CtxBoundary b Background)
       (twoWrites ''Mutation.createUser'' insertUser (insertAudit ''user created'') t1 t2)
     else calls = []))"
    using assms(3) run a
    by (auto simp: resolveField_inBoundary intro: widen exI dest!: resolveUser_calls [OF n(1)]
        txPair_calls [OF n(1,2) demo_kinds(3,4)] execPair_calls [OF n(1) demo_kinds(1,2)])
      (intro exI, rule refl)
  then obtain calls where "betweenSteps (Suc k) (u', ss', w')" "wCalls w' = wCalls w @ calls"
    "if field = ''createUser''
     then \<exists>b t1 t2. calls = reportTo [demoReporter] (CtxBoundary b Background)
       (twoWrites ''Mutation.createUser'' insertUser (insertAudit ''user created'') t1 t2)
     else calls = []"
    using n(3) by (auto simp: betweenSteps_def)
  then show thesis
    using that [of "(u', ss', w')" calls] run by (simp add: st)
qed

lemma execute_createUser:
  assumes "servesField do request ''Mutation'' ''createUser''" and "betweenSteps k st" and "k < 10"
  obtains st' where "execute do errorsText (slogOnStdout printable) (buildSchema nullSqlDB 0) request comment st = (st',
      printLn (''-> '' @ request @ '' ('' @ comment @ '')'') @ printLn (violationLine ''Mutation.createUser'') @
      printLn ''   data: map[createUser:true]'', None)" "betweenSteps (Suc k) st'"
proof (rule field_step [OF assms(2,3), of "''Mutation''" "''createUser''"])
  fix st' calls
  assume run: "resolveField nullSqlDB 0 Background ''Mutation'' ''createUser'' st =
       (st', snd (resolveField nullSqlDB 0 Background ''Mutation'' ''createUser'' st))"
    and st': "betweenSteps (Suc k) st'" and told: "wCalls (snd (snd st')) = wCalls (snd (snd st)) @ calls"
    and "if ''createUser'' = ''createUser''
     then \<exists>b t1 t2. calls = reportTo [demoReporter] (CtxBoundary b Background)
       (twoWrites ''Mutation.createUser'' insertUser (insertAudit ''user created'') t1 t2)
     else calls = []"
  then have "concat (map (\<lambda>(ref, ctx, r). slogWrites (slogOnStdout printable) ctx r) calls) =
      printLn (violationLine ''Mutation.createUser'')"
    by (auto simp: reportTo_def demoReporter_def implements_two violation_logged slogString_word)
  with execute_step [OF assms(1) run [unfolded null_fields] told] st' that show thesis
    by simp
qed simp

lemma execute_quiet:
  assumes "servesField do request ty field" and "betweenSteps k st" and "k < 10"
    and "(ty, field, shown) \<in> {(''Mutation'', ''createOrder'', ''true''), (''Query'', ''user'', ''alice'')}"
  obtains st' where "execute do errorsText rep (buildSchema nullSqlDB 0) request comment st = (st',
      printLn (''-> '' @ request @ '' ('' @ comment @ '')'') @
      printLn (''   data: map['' @ field @ '':'' @ shown @ '']''), None)" "betweenSteps (Suc k) st'"
proof (rule field_step [OF assms(2,3), of ty field])
  show "(ty, field) \<in> {(''Mutation'', ''createUser''), (''Mutation'', ''createOrder''), (''Query'', ''user'')}"
    using assms(4) by auto
  fix st' calls
  assume run: "resolveField nullSqlDB 0 Background ty field st =
       (st', snd (resolveField nullSqlDB 0 Background ty field st))"
    and st': "betweenSteps (Suc k) st'" and told: "wCalls (snd (snd st')) = wCalls (snd (snd st)) @ calls"
    and "if field = ''createUser''
     then \<exists>b t1 t2. calls = reportTo [demoReporter] (CtxBoundary b Background)
       (twoWrites ''Mutation.createUser'' insertUser (insertAudit ''user created'') t1 t2)
     else calls = []"
  then have calls: "calls = []" using assms(4) by auto
  obtain out where out: "snd (resolveField nullSqlDB 0 Background ty field st) = (out, None)" "anyText out = shown"
    using assms(4) null_fields [of Background st] by auto
  from execute_step [OF assms(1) run [unfolded out(1)] told] st' that show thesis
    by (simp add: calls out(2))
qed

section \<open>Properties\<close>

text \<open>C7. The HTTP program prints what its README shows: on a transport that delivers its requests, standard
  output is, line by line, the announcement of each request, for \<open>POST /users\<close> the violation as the text
  handler renders it, and the answer of the server; the program does not exit early.\<close>

theorem nethttp_prints_its_readme:
  "snd (nethttpMain (\<lambda>_. None) printable server (u, idle 0, demoWorld [demoReporter])) =
    (concat (map printLn
      [''-> POST '' @ server @ ''/users (two auto-commit INSERTs -> violation expected)'',
       violationLine (dquoted ''POST /users''),
       ''   201 user created (non-atomically!)'',
       ''-> POST '' @ server @ ''/orders (both INSERTs in one transaction -> clean)'',
       ''   201 order created (atomically)'',
       ''-> POST '' @ server @ ''/signups (non-atomic on purpose, allowed at the write site -> clean)'',
       ''   201 signup created (non-atomically, on purpose)'']), None)"
proof -
  let ?rep = "slogOnStdout printable" and ?net = "\<lambda>_. None :: GoError option"
  obtain st1 where st1: "betweenSteps (Suc 0) st1"
    and users: "postTo ?net ?rep server ''/users'' ''two auto-commit INSERTs -> violation expected''
      (u, idle 0, demoWorld [demoReporter]) = (st1,
      printLn (''-> POST '' @ server @ ''/users ('' @ ''two auto-commit INSERTs -> violation expected'' @ '')'') @
      printLn (violationLine (dquoted ''POST /users'')) @
      printLn (''   201 user created (non-atomically!)''), None)"
    by (rule post_users [OF betweenSteps_start]) simp
  obtain st2 where st2: "betweenSteps (Suc (Suc 0)) st2"
    and orders: "postTo ?net ?rep server ''/orders'' ''both INSERTs in one transaction -> clean'' st1 = (st2,
      printLn (''-> POST '' @ server @ ''/orders ('' @ ''both INSERTs in one transaction -> clean'' @ '')'') @
      printLn (''   201 order created (atomically)''), None)"
    by (rule post_orders [OF st1]) simp
  obtain st3 where
    signups: "postTo ?net ?rep server ''/signups'' ''non-atomic on purpose, allowed at the write site -> clean'' st2 = (st3,
      printLn (''-> POST '' @ server @ ''/signups ('' @
        ''non-atomic on purpose, allowed at the write site -> clean'' @ '')'') @
      printLn (''   201 signup created (non-atomically, on purpose)''), None)"
    by (rule post_signups [OF st2]) simp
  show ?thesis
    by (simp add: nethttpMain_def Let_def users orders signups)
qed

text \<open>C30. The GraphQL program prints what its README shows: when \<open>graphql.Do\<close> answers each of the three
  requests by calling the resolver of the field it names, standard output is, line by line, the announcement of
  each request, for \<open>createUser\<close> the violation as the text handler renders it, and the data; the program does not
  exit early.\<close>

theorem graphql_prints_its_readme:
  assumes "servesField do ''mutation { createUser }'' ''Mutation'' ''createUser''"
    and "servesField do ''mutation { createOrder }'' ''Mutation'' ''createOrder''"
    and "servesField do ''{ user }'' ''Query'' ''user''"
  shows "snd (graphqlMain do errorsText None printable (u, idle 0, demoWorld [demoReporter])) =
    (concat (map printLn
      [''-> mutation { createUser } (two auto-commit INSERTs -> violation expected)'',
       violationLine ''Mutation.createUser'',
       ''   data: map[createUser:true]'',
       ''-> mutation { createOrder } (both INSERTs in one transaction -> clean)'',
       ''   data: map[createOrder:true]'',
       ''-> { user } (read-only resolver -> clean)'',
       ''   data: map[user:alice]'']), None)"
proof -
  let ?run = "execute do errorsText (slogOnStdout printable) (buildSchema nullSqlDB 0)"
  obtain st1 where st1: "betweenSteps (Suc 0) st1"
    and user: "?run ''mutation { createUser }'' ''two auto-commit INSERTs -> violation expected''
      (u, idle 0, demoWorld [demoReporter]) = (st1,
      printLn (''-> '' @ ''mutation { createUser }'' @ '' ('' @ ''two auto-commit INSERTs -> violation expected'' @ '')'') @
      printLn (violationLine ''Mutation.createUser'') @ printLn ''   data: map[createUser:true]'', None)"
    by (rule execute_createUser [OF assms(1) betweenSteps_start]) simp
  obtain st2 where st2: "betweenSteps (Suc (Suc 0)) st2"
    and order: "?run ''mutation { createOrder }'' ''both INSERTs in one transaction -> clean'' st1 = (st2,
      printLn (''-> '' @ ''mutation { createOrder }'' @ '' ('' @ ''both INSERTs in one transaction -> clean'' @ '')'') @
      printLn (''   data: map['' @ ''createOrder'' @ '':'' @ ''true'' @ '']''), None)"
    by (rule execute_quiet [OF assms(2) st1]) (simp, simp)
  obtain st3 where query: "?run ''{ user }'' ''read-only resolver -> clean'' st2 = (st3,
      printLn (''-> '' @ ''{ user }'' @ '' ('' @ ''read-only resolver -> clean'' @ '')'') @
      printLn (''   data: map['' @ ''user'' @ '':'' @ ''alice'' @ '']''), None)"
    by (rule execute_quiet [OF assms(3) st2]) (simp, simp)
  show ?thesis
    by (simp add: graphqlMain_def Let_def user order query)
qed

text \<open>A \<open>graphql.Do\<close> that knows the three requests.\<close>

definition demoDo :: GraphQLDo where
  "demoDo schema request =
     (if request = ''mutation { createUser }'' then fieldResult ''Mutation'' ''createUser''
      else if request = ''mutation { createOrder }'' then fieldResult ''Mutation'' ''createOrder''
      else fieldResult ''Query'' ''user'')"

theorem graphql_prints_its_readme_witness:
  "snd (snd (graphqlMain demoDo (\<lambda>_. []) None (\<lambda>n. 32 \<le> n) (0, idle 0, demoWorld [demoReporter]))) = None"
  by (subst graphql_prints_its_readme) (simp_all add: servesField_def demoDo_def)

end
