(* ===== verification/Relay.thy ===== *)
theory Relay
  imports Report
begin

text \<open>
  The contract of a reporter that wraps another one (\<open>BaselineReporter\<close>, \<open>ThrottlingReporter\<close>): each
  report it is told of is passed on unchanged or not at all, and only to a wrapped reporter that
  implements the report's interface, so that wrapping neither fabricates nor misroutes a signal.

  A report arrives as an event: the time, the context, the report. The client lemmas of the locale
  speak of any sequence of events; both wrappers interpret it.
\<close>

type_synonym ReportEvent = "int \<times> Ctx \<times> Report"

abbreviation evReport :: "ReportEvent \<Rightarrow> Report" where
  "evReport e \<equiv> snd (snd e)"

text \<open>A whole run: the wrapper's state after it and what reached the wrapped reporter.\<close>

fun relayRun :: "(ReportEvent \<Rightarrow> 's \<Rightarrow> 's \<times> bool) \<Rightarrow> ReportEvent list \<Rightarrow> 's \<Rightarrow> 's \<times> ReportEvent list" where
  "relayRun step [] s = (s, [])"
| "relayRun step (e # es) s =
     (let (s', fwd) = step e s; (s'', out) = relayRun step es s'
      in (s'', (if fwd then [e] else []) @ out))"

locale relay =
  fixes step :: "ReportEvent \<Rightarrow> 's \<Rightarrow> 's \<times> bool"
    and next_of :: "'s \<Rightarrow> ReporterIface"
  assumes next_step: "next_of (fst (step e s)) = next_of s"
    and accepted: "snd (step e s) \<Longrightarrow> implements (next_of s) (evReport e)"
begin

lemma next_run: "next_of (fst (relayRun step es s)) = next_of s"
  by (induction es arbitrary: s) (simp_all add: split_def Let_def next_step)

lemma run_subseq: "subseq (snd (relayRun step es s)) es"
  by (induction es arbitrary: s) (auto simp: split_def Let_def)

lemma run_accepted:
  "list_all (\<lambda>e. implements (next_of s) (evReport e)) (snd (relayRun step es s))"
proof (induction es arbitrary: s)
  case (Cons e es)
  from Cons [of "fst (step e s)"] accepted [of e s] show ?case
    by (auto simp: split_def Let_def next_step)
qed simp

lemma run_append:
  "relayRun step (es @ fs) s =
    (let (s', out) = relayRun step es s; (s'', out') = relayRun step fs s' in (s'', out @ out'))"
  by (induction es arbitrary: s) (simp_all add: split_def Let_def)

end

end
