(* ===== verification/Baseline.thy ===== *)
theory Baseline
  imports Relay Allowlist
begin

text \<open>
  \<open>baseline.go\<close>: the ratchet. State: the map from boundary name to its used flag. The rot discipline
  is the allowlist's, so the baseline interprets \<open>usage_tracker\<close>; the reporter that filters through
  it interprets \<open>relay\<close>. The file that \<open>Save\<close> writes and \<open>LoadBaseline\<close> reads is theory BaselineFile.
\<close>

type_synonym Baseline = "(string, bool) gomap"

definition NewBaseline :: Baseline where
  "NewBaseline = []"

definition baselineOfNames :: "string list \<Rightarrow> Baseline" where
  "baselineOfNames names = fold (\<lambda>n b. gm_put n False b) names NewBaseline"

definition BaselineFromViolations :: "Violation list \<Rightarrow> Baseline" where
  "BaselineFromViolations vs = fold (\<lambda>v b. gm_put (vBoundary v) False b) vs NewBaseline"

definition baselineAdd :: "string \<Rightarrow> Baseline \<Rightarrow> Baseline" where
  "baselineAdd boundary b =
     (case gm_get b boundary of None \<Rightarrow> gm_put boundary False b | Some u \<Rightarrow> b)"

definition baselineBoundaries :: "Baseline \<Rightarrow> string list" where
  "baselineBoundaries b = sort (map fst b)"

definition baselineCovers :: "string \<Rightarrow> Baseline \<Rightarrow> Baseline \<times> bool" where
  "baselineCovers boundary b =
     (case gm_get b boundary of None \<Rightarrow> (b, False) | Some u \<Rightarrow> (gm_put boundary True b, True))"

definition baselineUnused :: "Baseline \<Rightarrow> string list" where
  "baselineUnused b = sorted_names (\<lambda>used. \<not> used) b"

section \<open>Usage\<close>

definition baselineNames :: "Baseline \<Rightarrow> string set" where
  "baselineNames b = fst ` set b"

definition baselineUsed :: "Baseline \<Rightarrow> string set" where
  "baselineUsed b = {n. gm_get b n = Some True}"

definition baselineHit :: "string \<Rightarrow> Baseline \<Rightarrow> Baseline" where
  "baselineHit n b = fst (baselineCovers n b)"

lemma baselineCovers_verdict: "snd (baselineCovers n b) \<longleftrightarrow> n \<in> baselineNames b"
  by (simp add: baselineCovers_def baselineNames_def gm_get_None_iff split: option.split)
    (metis map_of_eq_None_iff option.distinct(1))

lemma baselineHit_get:
  "gm_get (baselineHit n b) k
    = (case gm_get b k of None \<Rightarrow> None | Some u \<Rightarrow> Some (if k = n then True else u))"
  by (auto simp: baselineHit_def baselineCovers_def gm_get_put split: option.split)

lemma baselineHit_names: "baselineNames (baselineHit n b) = baselineNames b"
  using baselineCovers_verdict [of n b]
  by (auto simp: baselineHit_def baselineCovers_def baselineNames_def gm_keys_put split: option.splits)

lemma gm_wf_baselineHit: "gm_wf b \<Longrightarrow> gm_wf (baselineHit n b)"
  by (simp add: baselineHit_def baselineCovers_def split: option.split)

interpretation bl: usage_tracker gm_wf baselineNames baselineUsed "\<lambda>n. n"
  "\<lambda>b n. n \<in> baselineNames b" baselineHit baselineUnused
proof unfold_locales
  fix b :: Baseline and e e' :: string
  assume wf: "gm_wf b"
  have in_names: "k \<in> baselineNames b \<longleftrightarrow> gm_get b k \<noteq> None" for k
    by (simp add: baselineNames_def gm_get_None_iff)
  show "gm_wf (baselineHit e b)" using wf by (rule gm_wf_baselineHit)
  show "baselineNames (baselineHit e b) = baselineNames b" by (rule baselineHit_names)
  show "baselineUsed (baselineHit e b)
      = baselineUsed b \<union> (if e \<in> baselineNames b then {e} else {})"
    by (auto simp: baselineUsed_def baselineHit_get in_names split: option.splits if_splits)
  show "(e' \<in> baselineNames (baselineHit e b)) = (e' \<in> baselineNames b)"
    by (simp add: baselineHit_names)
  show "e \<in> baselineNames b" if "e \<in> baselineNames b" using that .
  have "(\<exists>v. gm_get b k = Some v \<and> \<not> v) \<longleftrightarrow> gm_get b k = Some False" for k
    by (metis (full_types))
  then show "baselineUnused b = sorted_list_of_set (baselineNames b - baselineUsed b)"
    unfolding baselineUnused_def sorted_names_eq [OF wf]
    by (intro arg_cong [where f = sorted_list_of_set]) (auto simp: baselineUsed_def in_names)
  show "finite (baselineNames b)" by (simp add: baselineNames_def)
qed

section \<open>BaselineReporter\<close>

record BaselineReporter =
  brBaseline :: "Baseline option"
  brNext :: ReporterIface

definition NewBaselineReporter :: "Baseline option \<Rightarrow> ReporterIface \<Rightarrow> BaselineReporter" where
  "NewBaselineReporter baseline nxt = \<lparr>brBaseline = baseline, brNext = nxt\<rparr>"

text \<open>The four callbacks: whether the report is passed on.\<close>

fun baselineReport :: "ReportEvent \<Rightarrow> BaselineReporter \<Rightarrow> BaselineReporter \<times> bool" where
  "baselineReport (t, ctx, ReportViolation v) r =
     (case brBaseline r of
        None \<Rightarrow> (r, True)
      | Some b \<Rightarrow> (let (b', covered) = baselineCovers (vBoundary v) b
                  in (r\<lparr>brBaseline := Some b'\<rparr>, \<not> covered)))"
| "baselineReport (t, ctx, ReportUnboundedWrite s) r = (r, isUnboundedWriteReporter (brNext r))"
| "baselineReport (t, ctx, ReportStaleAllow s) r = (r, isStaleAllowReporter (brNext r))"
| "baselineReport (t, ctx, ReportNestedBoundary n) r = (r, isNestedBoundaryReporter (brNext r))"

interpretation br: relay baselineReport brNext
proof unfold_locales
  fix e :: ReportEvent and r :: BaselineReporter
  obtain t ctx rep where e: "e = (t, ctx, rep)" by (cases e) auto
  show "brNext (fst (baselineReport e r)) = brNext r"
    by (cases rep) (simp_all add: e split_def Let_def split: option.split)
  show "implements (brNext r) (evReport e)" if "snd (baselineReport e r)"
    using that by (cases rep) (simp_all add: e)
qed

text \<open>What passes a baseline: violations of other boundaries, and whatever else the wrapped reporter
  accepts.\<close>

fun passesBaseline :: "string set \<Rightarrow> ReporterIface \<Rightarrow> Report \<Rightarrow> bool" where
  "passesBaseline names i (ReportViolation v) \<longleftrightarrow> vBoundary v \<notin> names"
| "passesBaseline names i rep \<longleftrightarrow> implements i rep"

definition violationNames :: "ReportEvent list \<Rightarrow> string list" where
  "violationNames es = [vBoundary v. (t, ctx, ReportViolation v) \<leftarrow> es]"

lemma baselineReport_step:
  assumes "brBaseline r = Some b"
  shows "snd (baselineReport e r) = passesBaseline (baselineNames b) (brNext r) (evReport e)"
    and "brBaseline (fst (baselineReport e r)) = Some (fold baselineHit (violationNames [e]) b)"
    and "brNext (fst (baselineReport e r)) = brNext r"
proof -
  obtain t ctx rep where e: "e = (t, ctx, rep)" by (cases e) auto
  show "snd (baselineReport e r) = passesBaseline (baselineNames b) (brNext r) (evReport e)"
    and "brBaseline (fst (baselineReport e r)) = Some (fold baselineHit (violationNames [e]) b)"
    using assms
    by (cases rep; simp add: e split_def Let_def baselineCovers_verdict violationNames_def
        baselineHit_def)+
  show "brNext (fst (baselineReport e r)) = brNext r" by (rule br.next_step)
qed

lemma baselineRun:
  assumes "brBaseline r = Some b"
  shows "snd (relayRun baselineReport es r)
      = filter (\<lambda>e. passesBaseline (baselineNames b) (brNext r) (evReport e)) es"
    and "brBaseline (fst (relayRun baselineReport es r)) = Some (fold baselineHit (violationNames es) b)"
  using assms
proof (induction es arbitrary: r b)
  case (Cons e es)
  have names: "baselineNames (fold baselineHit ns b) = baselineNames b"
    for ns and b :: Baseline
    by (induction ns arbitrary: b) (simp_all add: baselineHit_names)
  have split: "violationNames (e # es) = violationNames [e] @ violationNames es"
    by (simp add: violationNames_def)
  { case 1
    note one = baselineReport_step [OF 1, of e]
    show ?case
      using Cons.IH(1) [OF one(2)] one(1,3) by (simp add: split_def Let_def names)
  next
    case 2
    note one = baselineReport_step [OF 2, of e]
    show ?case
      using Cons.IH(2) [OF one(2)] by (simp add: split_def Let_def split)
  }
qed (simp_all add: violationNames_def)

lemma baselineOfNames_fold:
  "gm_wf b \<Longrightarrow> gm_wf (fold (\<lambda>n b. gm_put n False b) ns b) \<and>
    baselineNames (fold (\<lambda>n b. gm_put n False b) ns b) = set ns \<union> baselineNames b \<and>
    baselineUsed (fold (\<lambda>n b. gm_put n False b) ns b) = baselineUsed b - set ns"
proof (induction ns arbitrary: b)
  case (Cons n ns)
  have "baselineNames (gm_put n False b) = insert n (baselineNames b)"
    by (simp add: baselineNames_def gm_keys_put)
  moreover have "baselineUsed (gm_put n False b) = baselineUsed b - {n}"
    by (auto simp: baselineUsed_def gm_get_put)
  ultimately show ?case
    using Cons.IH [of "gm_put n False b"] Cons.prems by auto
qed simp

lemma BaselineFromViolations_names:
  "BaselineFromViolations vs = baselineOfNames (map vBoundary vs)"
  by (simp add: BaselineFromViolations_def baselineOfNames_def fold_map comp_def)

lemma baselineOfNames:
  "gm_wf (baselineOfNames ns)" "baselineNames (baselineOfNames ns) = set ns"
  "baselineUsed (baselineOfNames ns) = {}"
  using baselineOfNames_fold [of NewBaseline ns]
  by (simp_all add: baselineOfNames_def NewBaseline_def baselineNames_def baselineUsed_def gm_wf_def)

section \<open>Properties\<close>

text \<open>C32. The ratchet: with a baseline captured from earlier violations, a run forwards, in order,
  exactly the violations of boundaries that had none then, and every other report the wrapped
  reporter implements; afterwards the unused entries are exactly the captured boundaries that no
  longer violate.\<close>

theorem baseline_forwards_exactly_new_violations:
  "(let r = NewBaselineReporter (Some (BaselineFromViolations old)) nxt;
        (r', out) = relayRun baselineReport es r
    in out = filter (\<lambda>e. passesBaseline (vBoundary ` set old) nxt (evReport e)) es \<and>
       (case brBaseline r' of None \<Rightarrow> False
        | Some b \<Rightarrow> baselineUnused b
            = sorted_list_of_set (vBoundary ` set old - set (violationNames es))))"
proof -
  let ?b = "BaselineFromViolations old"
  let ?r = "NewBaselineReporter (Some ?b) nxt"
  have b: "gm_wf ?b" "baselineUsed ?b = {}" "baselineNames ?b = vBoundary ` set old"
    using baselineOfNames [of "map vBoundary old"] by (simp_all add: BaselineFromViolations_names)
  have r: "brBaseline ?r = Some ?b" "brNext ?r = nxt" by (simp_all add: NewBaselineReporter_def)
  have "vBoundary ` set old - {n \<in> set ns. n \<in> vBoundary ` set old} = vBoundary ` set old - set ns"
    for ns by blast
  then show ?thesis
    using baselineRun [OF r(1), of es] bl.unused_hits [OF b(1,2), of "violationNames es"]
    by (simp add: split_def Let_def b r)
qed

end
