(* ===== verification/GoJSON.thy ===== *)
theory GoJSON
  imports GoUnicode
begin

text \<open>
  The part of package \<open>encoding/json\<close> that \<open>baseline.go\<close> uses: the string encoder of \<open>Marshal\<close> (with HTML
  escaping, as \<open>MarshalIndent\<close> has it), and the reader of \<open>Unmarshal\<close> up to a value: tokens, then
  the validating state machine with its stack and nesting limit. A string that is not UTF-8 is
  encoded and decoded with the replacement rune for each ill-formed byte.
\<close>

section \<open>Encoding of strings\<close>

definition dquote :: char where
  "dquote = CHR 0x22"

definition replacementBytes :: string where
  "replacementBytes = [CHR 0xEF, CHR 0xBF, CHR 0xBD]"

definition illFormed :: "nat \<times> string \<Rightarrow> bool" where
  "illFormed rb \<longleftrightarrow> fst rb = runeError \<and> length (snd rb) = 1"

text \<open>\<open>htmlSafeSet\<close>.\<close>

definition htmlSafe :: "char \<Rightarrow> bool" where
  "htmlSafe c \<longleftrightarrow> 0x20 \<le> byte c \<and> byte c < 0x80 \<and> c \<notin> {dquote, backslash, CHR ''<'', CHR ''>'', CHR ''&''}"

definition escapeByte :: "char \<Rightarrow> string" where
  "escapeByte c =
     (if htmlSafe c then [c]
      else if c = backslash \<or> c = dquote then [backslash, c]
      else if c = CHR 0x08 then [backslash, CHR ''b'']
      else if c = CHR 0x0C then [backslash, CHR ''f'']
      else if c = CHR 0x0A then [backslash, CHR ''n'']
      else if c = CHR 0x0D then [backslash, CHR ''r'']
      else if c = CHR 0x09 then [backslash, CHR ''t'']
      else [backslash, CHR ''u'', CHR ''0'', CHR ''0'', hexDigit (byte c div 16), hexDigit (byte c mod 16)])"

definition escapeRune :: "nat \<times> string \<Rightarrow> string" where
  "escapeRune rb =
     (let (r, bs) = rb in
      if r < 0x80 then escapeByte (hd bs)
      else if illFormed rb then backslash # ''ufffd''
      else if r = 0x2028 \<or> r = 0x2029 then backslash # ''u202'' @ [hexDigit (r mod 16)]
      else bs)"

definition jsonQuote :: "string \<Rightarrow> string" where
  "jsonQuote s = [dquote] @ concat (map escapeRune (runes s)) @ [dquote]"

text \<open>The string that a decoder gets back.\<close>

definition wellFormedBytes :: "nat \<times> string \<Rightarrow> string" where
  "wellFormedBytes rb = (if illFormed rb then replacementBytes else snd rb)"

definition toValidUTF8 :: "string \<Rightarrow> string" where
  "toValidUTF8 s = concat (map wellFormedBytes (runes s))"

definition validUTF8 :: "string \<Rightarrow> bool" where
  "validUTF8 s \<longleftrightarrow> list_all (\<lambda>rb. \<not> illFormed rb) (runes s)"

section \<open>Decoding of strings\<close>

definition hexValue :: "char \<Rightarrow> nat option" where
  "hexValue c =
     (if 48 \<le> byte c \<and> byte c \<le> 57 then Some (byte c - 48)
      else if 97 \<le> byte c \<and> byte c \<le> 102 then Some (byte c - 87)
      else if 65 \<le> byte c \<and> byte c \<le> 70 then Some (byte c - 55)
      else None)"

text \<open>\<open>getu4\<close> after the letter \<open>u\<close>: four hexadecimal digits.\<close>

definition hex4 :: "string \<Rightarrow> nat option" where
  "hex4 s =
     (if length s < 4 then None
      else case (hexValue (s ! 0), hexValue (s ! 1), hexValue (s ! 2), hexValue (s ! 3)) of
        (Some a, Some b, Some c, Some d) \<Rightarrow> Some (((a * 16 + b) * 16 + c) * 16 + d)
      | _ \<Rightarrow> None)"

text \<open>\<open>utf8.EncodeRune\<close>.\<close>

definition encodeRune :: "nat \<Rightarrow> string" where
  "encodeRune r =
     (if r < 0x80 then [char_of r]
      else if r < 0x800 then [char_of (0xC0 + r div 64), char_of (0x80 + r mod 64)]
      else if 0xD800 \<le> r \<and> r < 0xE000 \<or> 0x10FFFF < r then replacementBytes
      else if r < 0x10000 then
        [char_of (0xE0 + r div 4096), char_of (0x80 + (r div 64) mod 64), char_of (0x80 + r mod 64)]
      else
        [char_of (0xF0 + r div 262144), char_of (0x80 + (r div 4096) mod 64),
         char_of (0x80 + (r div 64) mod 64), char_of (0x80 + r mod 64)])"

definition surrogate :: "nat \<Rightarrow> bool" where
  "surrogate r \<longleftrightarrow> 0xD800 \<le> r \<and> r < 0xE000"

text \<open>\<open>utf16.DecodeRune\<close>.\<close>

definition pairRune :: "nat \<Rightarrow> nat \<Rightarrow> nat" where
  "pairRune r1 r2 =
     (if 0xD800 \<le> r1 \<and> r1 < 0xDC00 \<and> 0xDC00 \<le> r2 \<and> r2 < 0xE000
      then (r1 - 0xD800) * 1024 + (r2 - 0xDC00) + 0x10000 else runeError)"

definition simpleEscape :: "char \<Rightarrow> char option" where
  "simpleEscape c =
     (if c \<in> {dquote, backslash, CHR ''/''} then Some c
      else if c = CHR ''b'' then Some (CHR 0x08)
      else if c = CHR ''f'' then Some (CHR 0x0C)
      else if c = CHR ''n'' then Some (CHR 0x0A)
      else if c = CHR ''r'' then Some (CHR 0x0D)
      else if c = CHR ''t'' then Some (CHR 0x09)
      else None)"

text \<open>One element of a string literal: the bytes it stands for and the input after it.\<close>

definition readUnicode :: "string \<Rightarrow> (string \<times> string) option" where
  "readUnicode s =
     (case hex4 s of
        None \<Rightarrow> None
      | Some r \<Rightarrow>
          let s' = drop 4 s in
          if surrogate r then
            (case (if hasPrefix s' [backslash, CHR ''u''] then hex4 (drop 2 s') else None) of
               Some r2 \<Rightarrow>
                 if pairRune r r2 \<noteq> runeError then Some (encodeRune (pairRune r r2), drop 6 s')
                 else Some (replacementBytes, s')
             | None \<Rightarrow> Some (replacementBytes, s'))
          else Some (encodeRune r, s'))"

definition readElement :: "string \<Rightarrow> (string \<times> string) option" where
  "readElement s =
     (case s of
        [] \<Rightarrow> None
      | c # t \<Rightarrow>
          if c = backslash then
            (case t of
               [] \<Rightarrow> None
             | d # u \<Rightarrow>
                 if d = CHR ''u'' then readUnicode u
                 else (case simpleEscape d of None \<Rightarrow> None | Some e \<Rightarrow> Some ([e], u)))
          else if byte c < 0x20 then None
          else let n = snd (decodeRune s) in Some (wellFormedBytes (fst (decodeRune s), take n s), drop n s))"

lemma readUnicode_shorter: "readUnicode s = Some (b, t) \<Longrightarrow> length t \<le> length s"
  unfolding readUnicode_def Let_def by (auto split: option.splits if_splits)

lemma readElement_shorter: "readElement s = Some (b, t) \<Longrightarrow> length t < length s"
proof (cases s)
  case (Cons c u)
  assume el: "readElement s = Some (b, t)"
  show ?thesis
  proof (cases "c = backslash")
    case True
    with el Cons show ?thesis
      by (auto simp: readElement_def dest!: readUnicode_shorter
          split: list.splits if_splits option.splits)
  next
    case False
    with el Cons have "t = drop (snd (decodeRune s)) s"
      unfolding readElement_def Let_def by (simp del: decodeRune.simps split: if_splits)
    then show ?thesis using decodeRune_size [of s] Cons by (simp del: decodeRune.simps)
  qed
qed (simp add: readElement_def)

text \<open>The rest of a literal after its opening quote.\<close>

function readString :: "string \<Rightarrow> (string \<times> string) option" where
  "readString s =
     (if s \<noteq> [] \<and> hd s = dquote then Some ([], tl s)
      else case readElement s of
             None \<Rightarrow> None
           | Some (b, t) \<Rightarrow>
               (case readString t of None \<Rightarrow> None | Some (bs, u) \<Rightarrow> Some (b @ bs, u)))"
  by pat_completeness auto
termination
  by (relation "measure length") (auto dest: readElement_shorter)

declare readString.simps [simp del]

section \<open>Encoding and decoding\<close>

lemma byte_hexDigit: "d < 16 \<Longrightarrow> byte (hexDigit d) = (if d < 10 then 48 + d else 87 + d)"
  by (simp add: hexDigit_def of_char_of)

lemma hexValue_hexDigit: "d < 16 \<Longrightarrow> hexValue (hexDigit d) = Some d"
  by (simp add: hexValue_def byte_hexDigit)

lemma hex4_four:
  "hex4 (a # b # c # d # t) =
    (case (hexValue a, hexValue b, hexValue c, hexValue d) of
       (Some a, Some b, Some c, Some d) \<Rightarrow> Some (((a * 16 + b) * 16 + c) * 16 + d)
     | _ \<Rightarrow> None)"
  by (simp add: hex4_def)

text \<open>A well-formed rune is read from its own bytes, whatever follows them.\<close>

lemma decodeRune_own_bytes:
  assumes "s \<noteq> []" and dec: "decodeRune s = (r, n)" and "\<not> (r = runeError \<and> n = 1)"
  shows "decodeRune (take n s @ t) = (r, n)"
proof (cases s)
  case (Cons c u)
  show ?thesis
  proof (cases "byte c < 0x80")
    case True
    with dec Cons show ?thesis by auto
  next
    case False
    then obtain sz lo hi where info: "leadInfo (byte c) = Some (sz, lo, hi)"
      using assms(3) dec Cons by (cases "leadInfo (byte c)") auto
    note ok = dec [unfolded Cons decodeRune.simps info option.case prod.case if_not_P [OF False]]
    have len: "\<not> length u < sz - 1" "\<not> (byte (u ! 0) < lo \<or> hi < byte (u ! 0))"
      using ok assms(3) by (auto split: if_splits)
    from leadInfo_cases [OF info] consider "sz = 2" | "sz = 3" | "sz = 4" by blast
    then show ?thesis
    proof cases
      case 1
      then obtain x v where "u = x # v" using len(1) by (cases u) auto
      with 1 ok len Cons False info show ?thesis by auto
    next
      case 2
      then obtain x y v where "u = x # y # v" using len(1) by (cases u; cases "tl u") auto
      with 2 ok len assms(3) Cons False info show ?thesis by (auto split: if_splits)
    next
      case 3
      then obtain x y z v where "u = x # y # z # v"
        using len(1) by (cases u; cases "tl u"; cases "tl (tl u)") auto
      with 3 ok len assms(3) Cons False info show ?thesis by (auto split: if_splits)
    qed
  qed
qed (use assms in simp)

lemma decodeRune_le: "s \<noteq> [] \<Longrightarrow> snd (decodeRune s) \<le> length s"
proof (cases s)
  case (Cons c u)
  show ?thesis
  proof (cases "leadInfo (byte c)")
    case None
    then show ?thesis using Cons by simp
  next
    case (Some x)
    obtain sz lo hi where info: "leadInfo (byte c) = Some (sz, lo, hi)" using Some by (cases x) auto
    show ?thesis using Cons info leadInfo_cases [OF info] by (auto simp: Suc_le_eq)
  qed
qed simp

definition firstRune :: "string \<Rightarrow> nat \<times> string" where
  "firstRune s = (fst (decodeRune s), take (snd (decodeRune s)) s)"

lemma firstRune_size: "s \<noteq> [] \<Longrightarrow> length (snd (firstRune s)) = snd (decodeRune s) \<and> snd (firstRune s) \<noteq> []"
  using decodeRune_le [of s] decodeRune_size [of s] by (auto simp: firstRune_def)

lemma firstRune_again:
  assumes "s \<noteq> []" and "\<not> illFormed (firstRune s)"
  shows "firstRune (snd (firstRune s) @ t) = firstRune s"
proof -
  have n: "length (snd (firstRune s)) = snd (decodeRune s)" using firstRune_size [OF assms(1)] by simp
  have "decodeRune (snd (firstRune s) @ t) = decodeRune s"
    using decodeRune_own_bytes [of s "fst (decodeRune s)" "snd (decodeRune s)" t] assms n
    by (simp add: illFormed_def firstRune_def)
  then show ?thesis
    using n by (simp add: firstRune_def)
qed

lemma readElement_raw:
  assumes "s \<noteq> []" and "\<not> illFormed (firstRune s)" and "snd (firstRune s) = c # bs"
    and "c \<noteq> backslash" and "\<not> byte c < 0x20"
  shows "readElement ((c # bs) @ t) = Some (c # bs, t)"
proof -
  have again: "firstRune ((c # bs) @ t) = firstRune s"
    using firstRune_again [OF assms(1,2), of t] assms(3) by simp
  have "snd (decodeRune ((c # bs) @ t)) = length (c # bs)"
    using firstRune_size [of "(c # bs) @ t"] again assms(3) by simp
  moreover have "wellFormedBytes (fst (decodeRune ((c # bs) @ t)), take (snd (decodeRune ((c # bs) @ t))) ((c # bs) @ t))
      = c # bs"
    using again assms(2,3) by (simp only: firstRune_def [symmetric] wellFormedBytes_def) simp
  ultimately show ?thesis
    using assms(4,5)
    by (simp only: readElement_def append_Cons list.case if_False Let_def) simp
qed

lemma readUnicode_bmp:
  assumes "hexValue a = Some x" and "hexValue b = Some y" and "hexValue c = Some z" and "hexValue d = Some w"
    and "\<not> surrogate (((x * 16 + y) * 16 + z) * 16 + w)"
  shows "readUnicode (a # b # c # d # t) = Some (encodeRune (((x * 16 + y) * 16 + z) * 16 + w), t)"
  using assms by (simp add: readUnicode_def hex4_four)

lemma readElement_u: "readElement (backslash # CHR ''u'' # s) = readUnicode s"
  by (simp add: readElement_def)

lemma readElement_simple:
  "simpleEscape d = Some e \<Longrightarrow> readElement (backslash # d # s) = Some ([e], s)"
  by (auto simp: readElement_def simpleEscape_def dquote_def backslash_def split: if_splits)

text \<open>An ASCII byte.\<close>

lemma readElement_ascii:
  assumes "byte c < 0x80"
  shows "readElement (escapeByte c @ t) = Some ([c], t)"
proof -
  consider "htmlSafe c" | "\<not> htmlSafe c" "c = backslash \<or> c = dquote"
    | "c = CHR 0x08" | "c = CHR 0x0C" | "c = CHR 0x0A" | "c = CHR 0x0D" | "c = CHR 0x09"
    | "\<not> htmlSafe c" "c \<noteq> backslash" "c \<noteq> dquote" "c \<noteq> CHR 0x08" "c \<noteq> CHR 0x0C" "c \<noteq> CHR 0x0A"
      "c \<noteq> CHR 0x0D" "c \<noteq> CHR 0x09" by blast
  then show ?thesis
  proof cases
    case 1
    then show ?thesis
      using assms
      by (auto simp: escapeByte_def htmlSafe_def readElement_def wellFormedBytes_def illFormed_def
          runeError_def)
  next
    case 2
    then have "escapeByte c = [backslash, c]" by (auto simp: escapeByte_def)
    then show ?thesis using 2 readElement_simple [of c c t] by (auto simp: simpleEscape_def)
  next
    case 8
    have d: "byte c div 16 < 16" "byte c mod 16 < 16" using assms by simp_all
    have zero: "hexValue (CHR ''0'') = Some 0" by (simp add: hexValue_def)
    have "\<not> surrogate (((0 * 16 + 0) * 16 + byte c div 16) * 16 + byte c mod 16)"
      using assms by (simp add: surrogate_def)
    then have "readUnicode (CHR ''0'' # CHR ''0'' # hexDigit (byte c div 16) # hexDigit (byte c mod 16) # t) =
        Some (encodeRune (((0 * 16 + 0) * 16 + byte c div 16) * 16 + byte c mod 16), t)"
      by (intro readUnicode_bmp [OF zero zero hexValue_hexDigit hexValue_hexDigit]) (use d in simp_all)
    moreover have "((0 * 16 + 0) * 16 + byte c div 16) * 16 + byte c mod 16 = byte c" by simp
    ultimately show ?thesis
      using 8 assms by (simp add: escapeByte_def readElement_u encodeRune_def)
  qed (simp_all add: escapeByte_def htmlSafe_def dquote_def backslash_def readElement_def simpleEscape_def)
qed

text \<open>The two line separators have one encoding.\<close>

lemma separator_split:
  fixes a x y k :: nat
  assumes "a * 4096 + x * 64 + y = 8232 + k" and "x < 64" and "y < 64" and "k < 2"
  shows "a = 2 \<and> x = 0 \<and> y = 40 + k"
proof -
  have "a = (a * 4096 + x * 64 + y) div 4096" using assms(2,3) by simp
  then have a: "a = 2" using assms(1,4) by simp
  with assms(1) have xy: "x * 64 + y = 40 + k" by simp
  have "x = (x * 64 + y) div 64" using assms(3) by simp
  then have "x = 0" using xy assms(4) by simp
  with a xy show ?thesis by simp
qed

lemma mod_byte: "m * k \<le> b \<Longrightarrow> b < m * k + m \<Longrightarrow> b = m * k + b mod m" for b m k :: nat
  using mod_window [of k m b] by (simp add: mult.commute)

lemma separator_bytes:
  assumes "s \<noteq> []" and "\<not> illFormed (firstRune s)" and "fst (firstRune s) = 8232 + k" and "k < 2"
  shows "snd (firstRune s) = [CHR 0xE2, CHR 0x80, char_of (168 + k)]"
proof (cases s)
  case (Cons c u)
  have r: "fst (decodeRune (c # u)) = 8232 + k" using assms(3) Cons by (simp add: firstRune_def)
  have n1: "\<not> (fst (decodeRune (c # u)) = runeError)"
    using r assms(4) by (simp add: runeError_def)
  have high: "\<not> byte c < 0x80" using r by auto
  then obtain sz lo hi where info: "leadInfo (byte c) = Some (sz, lo, hi)"
    using n1 by (cases "leadInfo (byte c)") auto
  note dec = decodeRune.simps(2) [of c u, unfolded info option.case prod.case if_not_P [OF high]]
  have len: "\<not> length u < sz - 1" "\<not> (byte (u ! 0) < lo \<or> hi < byte (u ! 0))"
    using n1 dec by (auto split: if_splits)
  from leadInfo_cases [OF info] consider "sz = 2" | "sz = 3" | "sz = 4" by blast
  then show ?thesis
  proof cases
    case 1
    have "(byte c mod 32) * 64 + byte (u ! 0) mod 64 < 32 * 64"
      by (rule order.strict_trans1 [of _ "31 * 64 + 63"]) (simp_all add: add_mono mult_le_mono)
    then show ?thesis using 1 r dec len by simp
  next
    case 3
    have "1 \<le> byte c mod 8 \<or> 16 \<le> byte (u ! 0) mod 64"
      using 3 leadInfo_cases [OF info] high_bits(3) [of "byte c"] high_bits(5) [of "byte (u ! 0)"] len
      by auto
    then have "0x10000 \<le> (byte c mod 8) * 262144 + (byte (u ! 0) mod 64) * 4096 +
        (byte (u ! 1) mod 64) * 64 + byte (u ! 2) mod 64" by auto
    then show ?thesis using 3 r dec len n1 assms(4) by (auto split: if_splits)
  next
    case 2
    then have cont: "continuation (u ! 1)"
      and val: "(byte c mod 16) * 4096 + (byte (u ! 0) mod 64) * 64 + byte (u ! 1) mod 64 = 8232 + k"
      and size: "snd (decodeRune (c # u)) = 3"
      using r dec len n1 by (auto split: if_splits)
    note parts = separator_split [OF val _ _ assms(4)]
    have "byte c mod 16 = 2" "byte (u ! 0) mod 64 = 0" "byte (u ! 1) mod 64 = 40 + k"
      using parts by simp_all
    moreover have "0xE0 \<le> byte c" "byte c \<le> 0xEF" "0x80 \<le> byte (u ! 0)" "byte (u ! 0) \<le> 0xBF"
      using leadInfo_cases [OF info] 2 len by auto
    ultimately have "byte c = 0xE2" "byte (u ! 0) = 0x80" "byte (u ! 1) = 168 + k"
      using mod_byte [of 16 14 "byte c"] mod_byte [of 64 2 "byte (u ! 0)"] mod_byte [of 64 2 "byte (u ! 1)"] cont
      by (simp_all add: continuation_def)
    moreover have "2 \<le> length u" using len 2 by simp
    then obtain x y v where "u = x # y # v" by (cases u; cases "tl u") auto
    ultimately show ?thesis
      using Cons size assms(4) by (simp add: firstRune_def char_eq_iff_byte of_char_of del: decodeRune.simps)
  qed
qed (use assms in simp)

lemma encodeRune_values:
  "encodeRune 65533 = replacementBytes"
  "k < 2 \<Longrightarrow> encodeRune (8232 + k) = [CHR 0xE2, CHR 0x80, char_of (168 + k)]"
proof -
  show "encodeRune 65533 = replacementBytes"
    by (simp add: encodeRune_def replacementBytes_def char_eq_iff_byte of_char_of)
  assume "k < 2"
  then have "k = 0 \<or> k = 1" by auto
  then show "encodeRune (8232 + k) = [CHR 0xE2, CHR 0x80, char_of (168 + k)]"
    by (auto simp: encodeRune_def char_eq_iff_byte of_char_of)
qed

text \<open>Any rune of a string, as the encoder writes it.\<close>

lemma readElement_rune:
  assumes "s \<noteq> []"
  shows "readElement (escapeRune (firstRune s) @ t) = Some (wellFormedBytes (firstRune s), t) \<and>
    escapeRune (firstRune s) \<noteq> [] \<and> hd (escapeRune (firstRune s)) \<noteq> dquote"
proof -
  have wf: "wfRune (firstRune s)" using wfRune_decode [OF assms] by (simp add: firstRune_def)
  then consider c where "snd (firstRune s) = [c]" "byte c < 0x80" "fst (firstRune s) = byte c"
    | "\<forall>c \<in> set (snd (firstRune s)). 0x80 \<le> byte c" "0x80 \<le> fst (firstRune s)"
    by (auto simp: wfRune_def)
  then show ?thesis
  proof cases
    case 1
    then have "escapeRune (firstRune s) = escapeByte c" "wellFormedBytes (firstRune s) = [c]"
      by (simp_all add: escapeRune_def split_def wellFormedBytes_def illFormed_def runeError_def)
    moreover have "escapeByte c \<noteq> [] \<and> hd (escapeByte c) \<noteq> dquote"
      by (auto simp: escapeByte_def htmlSafe_def dquote_def backslash_def)
    ultimately show ?thesis using readElement_ascii [OF 1(2)] by simp
  next
    case 2
    have hex: "hexValue (CHR ''f'') = Some 15" "hexValue (CHR ''d'') = Some 13" "hexValue (CHR ''2'') = Some 2"
        "hexValue (CHR ''0'') = Some 0"
      by (simp_all add: hexValue_def)
    consider "illFormed (firstRune s)"
      | k where "\<not> illFormed (firstRune s)" "fst (firstRune s) = 8232 + k" "k < 2"
      | "\<not> illFormed (firstRune s)" "fst (firstRune s) \<noteq> 8232" "fst (firstRune s) \<noteq> 8233"
    proof (cases "illFormed (firstRune s)")
      case False
      then show ?thesis
        using that(2) [of 0] that(2) [of 1] that(3)
        by (cases "fst (firstRune s) = 8232"; cases "fst (firstRune s) = 8233") simp_all
    qed (rule that(1))
    then show ?thesis
    proof cases
      case 1
      then have "escapeRune (firstRune s) = backslash # CHR ''u'' # ''fffd''"
        using 2 by (simp add: escapeRune_def split_def)
      moreover have "readUnicode (''fffd'' @ t) = Some (encodeRune 65533, t)"
        using readUnicode_bmp [OF hex(1) hex(1) hex(1) hex(2), of t] by (simp add: surrogate_def)
      ultimately show ?thesis
        using 1
        by (simp add: readElement_u [unfolded backslash_def] encodeRune_values wellFormedBytes_def dquote_def
            backslash_def)
    next
      case (2 k)
      then have r: "fst (firstRune s) mod 16 = 8 + k" "fst (firstRune s) = 0x2028 \<or> fst (firstRune s) = 0x2029"
        by (auto simp: less_2_cases_iff)
      then have esc: "escapeRune (firstRune s) = backslash # CHR ''u'' # ''202'' @ [hexDigit (8 + k)]"
        using 2(1) by (auto simp: escapeRune_def split_def)
      have "readUnicode (''202'' @ hexDigit (8 + k) # t) = Some (encodeRune (8232 + k), t)"
        using readUnicode_bmp [OF hex(3) hex(4) hex(3) hexValue_hexDigit [of "8 + k"], of t] 2(3)
        by (simp add: surrogate_def)
      then show ?thesis
        using esc 2 separator_bytes [OF assms 2]
        by (simp add: readElement_u [unfolded backslash_def] encodeRune_values wellFormedBytes_def dquote_def
            backslash_def)
    next
      case 3
      obtain c bs where c: "snd (firstRune s) = c # bs" using firstRune_size [OF assms] by (cases "snd (firstRune s)") auto
      with 2(1) have high: "0x80 \<le> byte c" by simp
      then have "c \<noteq> backslash" "\<not> byte c < 0x20" "c \<noteq> dquote" by (auto simp: backslash_def dquote_def)
      moreover have "escapeRune (firstRune s) = c # bs"
        using 2(2) 3 c by (simp add: escapeRune_def split_def)
      ultimately show ?thesis
        using readElement_raw [OF assms 3(1) c, of t] 3(1) c by (simp add: wellFormedBytes_def)
    qed
  qed
qed

text \<open>A quoted string is read back, ill-formed bytes replaced.\<close>

lemma readString_quoted:
  "readString (concat (map escapeRune (runes s)) @ dquote # t) = Some (toValidUTF8 s, t)"
proof (induction s rule: runes.induct)
  case (1 s)
  show ?case
  proof (cases "s = []")
    case True
    then show ?thesis by (simp add: readString.simps toValidUTF8_def)
  next
    case False
    let ?rest = "concat (map escapeRune (runes (drop (snd (decodeRune s)) s))) @ dquote # t"
    have runes: "runes s = firstRune s # runes (drop (snd (decodeRune s)) s)"
      using False by (simp add: runes.simps [of s] firstRune_def)
    have "readString (escapeRune (firstRune s) @ ?rest) =
        Some (wellFormedBytes (firstRune s) @ toValidUTF8 (drop (snd (decodeRune s)) s), t)"
      using readElement_rune [OF False] 1 [OF False]
      by (subst readString.simps) (simp add: hd_append)
    then show ?thesis by (simp add: runes toValidUTF8_def)
  qed
qed

lemma toValidUTF8_valid: "validUTF8 s \<Longrightarrow> toValidUTF8 s = s"
  using runes_bytes [of s]
  by (simp add: toValidUTF8_def validUTF8_def list_all_iff wellFormedBytes_def cong: map_cong)

section \<open>Tokens\<close>

datatype token =
    TLBrace | TRBrace | TLBracket | TRBracket | TColon | TComma
  | TString string | TNumber string | TTrue | TFalse | TNull

definition jsonSpace :: string where
  "jsonSpace = [CHR '' '', CHR 0x09, CHR 0x0D, CHR 0x0A]"

text \<open>A number: an integer part without leading zeros, a fraction, an exponent.\<close>

definition readDigits :: "string \<Rightarrow> (string \<times> string) option" where
  "readDigits s =
     (let ds = takeWhile isDigit s in if ds = [] then None else Some (ds, dropWhile isDigit s))"

definition readInteger :: "string \<Rightarrow> (string \<times> string) option" where
  "readInteger s =
     (case s of [] \<Rightarrow> None
      | c # t \<Rightarrow> if c = CHR ''0'' then Some ([c], t) else readDigits s)"

definition readFraction :: "string \<Rightarrow> (string \<times> string) option" where
  "readFraction s =
     (case s of
        c # t \<Rightarrow> if c = CHR ''.'' then map_option (\<lambda>(ds, u). (c # ds, u)) (readDigits t) else Some ([], s)
      | [] \<Rightarrow> Some ([], s))"

definition readExponent :: "string \<Rightarrow> (string \<times> string) option" where
  "readExponent s =
     (case s of
        c # t \<Rightarrow>
          if c = CHR ''e'' \<or> c = CHR ''E'' then
            (let (sign, u) = (case t of d # v \<Rightarrow> if d = CHR ''+'' \<or> d = CHR ''-'' then ([d], v) else ([], t)
                              | [] \<Rightarrow> ([], t))
             in map_option (\<lambda>(ds, v). (c # sign @ ds, v)) (readDigits u))
          else Some ([], s)
      | [] \<Rightarrow> Some ([], s))"

definition readNumber :: "string \<Rightarrow> (string \<times> string) option" where
  "readNumber s0 =
     (let (sign, s) = (case s0 of c # t \<Rightarrow> if c = CHR ''-'' then ([c], t) else ([], s0) | [] \<Rightarrow> ([], s0)) in
      case readInteger s of None \<Rightarrow> None
      | Some (i, s1) \<Rightarrow>
          (case readFraction s1 of None \<Rightarrow> None
           | Some (f, s2) \<Rightarrow>
               (case readExponent s2 of None \<Rightarrow> None | Some (e, s3) \<Rightarrow> Some (sign @ i @ f @ e, s3))))"

definition literalWords :: "(string \<times> token) list" where
  "literalWords = [(''true'', TTrue), (''false'', TFalse), (''null'', TNull)]"

definition punctuation :: "char \<Rightarrow> token option" where
  "punctuation c =
     (if c = CHR ''{'' then Some TLBrace else if c = CHR ''}'' then Some TRBrace
      else if c = CHR ''['' then Some TLBracket else if c = CHR '']'' then Some TRBracket
      else if c = CHR '':'' then Some TColon else if c = CHR '','' then Some TComma else None)"

text \<open>One token at the start of a non-empty input that does not start with white space, and the
  input after it.\<close>

definition readToken :: "string \<Rightarrow> (token \<times> string) option" where
  "readToken s =
     (case punctuation (hd s) of
        Some t \<Rightarrow> Some (t, tl s)
      | None \<Rightarrow>
          if hd s = dquote then map_option (\<lambda>(v, u). (TString v, u)) (readString (tl s))
          else
            (case filter (\<lambda>(w, t). hasPrefix s w) literalWords of
               (w, t) # _ \<Rightarrow> Some (t, drop (length w) s)
             | [] \<Rightarrow> map_option (\<lambda>(n, u). (TNumber n, u)) (readNumber s)))"

text \<open>Each call gets at least one byte less, so the length of the input is enough fuel; running out
  of it is not an outcome.\<close>

fun tokensFuel :: "nat \<Rightarrow> string \<Rightarrow> token list option" where
  "tokensFuel 0 s = None"
| "tokensFuel (Suc k) s0 =
     (let s = dropWhile (\<lambda>c. c \<in> set jsonSpace) s0 in
      if s = [] then Some []
      else case readToken s of
             None \<Rightarrow> None
           | Some (t, u) \<Rightarrow> map_option (Cons t) (tokensFuel k u))"

definition tokens :: "string \<Rightarrow> token list option" where
  "tokens s = tokensFuel (Suc (length s)) s"

lemma readString_shorter: "readString s = Some (v, t) \<Longrightarrow> length t < length s"
proof (induction s arbitrary: v t rule: readString.induct)
  case (1 s)
  show ?case
  proof (cases "s \<noteq> [] \<and> hd s = dquote")
    case True
    with 1(2) show ?thesis by (subst (asm) readString.simps) (cases s, auto)
  next
    case False
    with 1(2) obtain b u bs where u: "readElement s = Some (b, u)" "readString u = Some (bs, t)"
      by (subst (asm) readString.simps) (auto split: option.splits)
    with 1(1) [OF False u(1) refl u(2)] readElement_shorter [OF u(1)] show ?thesis by simp
  qed
qed

lemma readDigits_shorter: "readDigits s = Some (ds, t) \<Longrightarrow> length t < length s"
proof -
  assume r: "readDigits s = Some (ds, t)"
  then have "takeWhile isDigit s \<noteq> []" "t = dropWhile isDigit s"
    by (auto simp: readDigits_def Let_def split: if_splits)
  moreover have "length (takeWhile isDigit s) + length (dropWhile isDigit s) = length s"
    by (metis length_append takeWhile_dropWhile_id)
  ultimately show ?thesis by (metis length_greater_0_conv less_add_same_cancel2)
qed

lemma readInteger_shorter: "readInteger s = Some (ds, t) \<Longrightarrow> length t < length s"
  by (auto simp: readInteger_def dest: readDigits_shorter split: list.splits if_splits)

lemma readFraction_shorter: "readFraction s = Some (ds, t) \<Longrightarrow> length t \<le> length s"
  by (force simp: readFraction_def dest: readDigits_shorter split: list.splits if_splits)

lemma readExponent_shorter: "readExponent s = Some (ds, t) \<Longrightarrow> length t \<le> length s"
  by (force simp: readExponent_def Let_def dest: readDigits_shorter split: list.splits if_splits prod.splits)

lemma readNumber_shorter:
  assumes "readNumber s = Some (n, t)"
  shows "length t < length s"
proof -
  obtain sign s' where start:
    "(case s of c # t \<Rightarrow> if c = CHR ''-'' then ([c], t) else ([], s) | [] \<Rightarrow> ([], s)) = (sign, s')"
    by fastforce
  then have "length s' \<le> length s" by (auto split: list.splits if_splits)
  moreover obtain i s1 f s2 e where "readInteger s' = Some (i, s1)"
      and "readFraction s1 = Some (f, s2)" and "readExponent s2 = Some (e, t)"
    using assms unfolding readNumber_def start Let_def by (auto split: option.splits)
  ultimately show ?thesis
    using readInteger_shorter readFraction_shorter readExponent_shorter by (meson le_less_trans less_le_trans)
qed

lemma readToken_shorter:
  assumes "readToken s = Some (tok, u)" and "s \<noteq> []"
  shows "length u < length s"
proof (cases "punctuation (hd s)")
  case None
  show ?thesis
  proof (cases "hd s = dquote")
    case True
    with None assms obtain v where "readString (tl s) = Some (v, u)" by (auto simp: readToken_def)
    then show ?thesis using readString_shorter [of "tl s" v u] assms(2) by (cases s) auto
  next
    case False
    show ?thesis
    proof (cases "filter (\<lambda>(w, t). hasPrefix s w) literalWords")
      case Nil
      with None False assms obtain n where "readNumber s = Some (n, u)" by (auto simp: readToken_def)
      then show ?thesis by (rule readNumber_shorter)
    next
      case (Cons wt rest)
      obtain w t where wt: "wt = (w, t)" by (cases wt)
      then have "(w, t) \<in> set literalWords" using Cons by (metis (no_types) filter_is_subset list.set_intros(1) subsetD)
      then have "w \<noteq> []" by (auto simp: literalWords_def)
      moreover have "u = drop (length w) s" using None False assms Cons wt by (simp add: readToken_def)
      ultimately show ?thesis using assms(2) by (simp add: diff_less)
    qed
  qed
qed (use assms in \<open>cases s, auto simp: readToken_def\<close>)

text \<open>Any fuel above the length gives the same tokens.\<close>

lemma tokensFuel_enough: "length s < k \<Longrightarrow> length s < m \<Longrightarrow> tokensFuel k s = tokensFuel m s"
proof (induction k arbitrary: s m)
  case (Suc k)
  obtain m' where m: "m = Suc m'" using Suc.prems by (cases m) auto
  let ?s = "dropWhile (\<lambda>c. c \<in> set jsonSpace) s"
  have len: "length ?s \<le> length s" by (rule length_dropWhile_le)
  have "tokensFuel k u = tokensFuel m' u" if "?s \<noteq> []" "readToken ?s = Some (t, u)" for t u
    using readToken_shorter [OF that(2,1)] Suc.prems len m by (intro Suc.IH) simp_all
  then show ?case by (auto simp: m Let_def split: option.split)
qed simp

lemma tokens_step:
  "tokens s =
     (let s' = dropWhile (\<lambda>c. c \<in> set jsonSpace) s in
      if s' = [] then Some []
      else case readToken s' of None \<Rightarrow> None | Some (t, u) \<Rightarrow> map_option (Cons t) (tokens u))"
proof -
  let ?s = "dropWhile (\<lambda>c. c \<in> set jsonSpace) s"
  have len: "length ?s \<le> length s" by (rule length_dropWhile_le)
  have "tokensFuel (length s) u = tokens u" if "?s \<noteq> []" "readToken ?s = Some (t, u)" for t u
    unfolding tokens_def
    using readToken_shorter [OF that(2,1)] len by (intro tokensFuel_enough) simp_all
  then show ?thesis
    unfolding tokens_def [of s] by (auto simp: Let_def split: option.split)
qed

lemma tokens_space: "set ws \<subseteq> set jsonSpace \<Longrightarrow> tokens (ws @ s) = tokens s"
  unfolding tokens_step [of "ws @ s"] tokens_step [of s] by (simp only: dropWhile_append2 subset_iff)

lemma tokens_Nil: "tokens [] = Some []"
  by (simp add: tokens_def)

lemma tokens_token:
  assumes "c \<notin> set jsonSpace" and "readToken (c # s) = Some (t, u)"
  shows "tokens (c # s) = map_option (Cons t) (tokens u)"
  unfolding tokens_step [of "c # s"] using assms by simp

lemma tokens_punctuation:
  assumes "punctuation c = Some t"
  shows "tokens (c # s) = map_option (Cons t) (tokens s)"
proof (rule tokens_token)
  show "c \<notin> set jsonSpace" using assms by (auto simp: punctuation_def jsonSpace_def)
  show "readToken (c # s) = Some (t, s)" using assms by (simp add: readToken_def)
qed

lemma tokens_quoted: "tokens (jsonQuote v @ s) = map_option (Cons (TString (toValidUTF8 v))) (tokens s)"
proof -
  have no_punctuation: "punctuation dquote = None" by (simp add: punctuation_def dquote_def)
  then have "readToken (dquote # concat (map escapeRune (runes v)) @ dquote # s) = Some (TString (toValidUTF8 v), s)"
    using no_punctuation by (simp add: readToken_def readString_quoted)
  then have "tokens (dquote # concat (map escapeRune (runes v)) @ dquote # s) =
      map_option (Cons (TString (toValidUTF8 v))) (tokens s)"
    by (rule tokens_token [rotated]) (simp add: jsonSpace_def dquote_def)
  then show ?thesis by (simp add: jsonQuote_def)
qed

section \<open>Values\<close>

datatype json =
    JNull
  | JBool bool
  | JNumber string
  | JString string
  | JArray "json list"
  | JObject "(string \<times> json) list"

text \<open>The scanner's parse state: what is open, innermost first, and what is expected.\<close>

datatype frame =
    InArray "json list"
  | InObject "(string \<times> json) list"
  | InMember "(string \<times> json) list" string

datatype expectation =
    WantValue
  | WantValueOrEnd
  | WantKey
  | WantKeyOrEnd
  | WantColon string
  | AfterValue json

definition maxNestingDepth :: nat where
  "maxNestingDepth = 10000"

definition pushFrame :: "frame \<Rightarrow> expectation \<Rightarrow> frame list \<Rightarrow> (frame list \<times> expectation) option" where
  "pushFrame f e stk = (if length (f # stk) \<le> maxNestingDepth then Some (f # stk, e) else None)"

fun beginValue :: "frame list \<Rightarrow> token \<Rightarrow> (frame list \<times> expectation) option" where
  "beginValue stk TLBrace = pushFrame (InObject []) WantKeyOrEnd stk"
| "beginValue stk TLBracket = pushFrame (InArray []) WantValueOrEnd stk"
| "beginValue stk (TString s) = Some (stk, AfterValue (JString s))"
| "beginValue stk (TNumber n) = Some (stk, AfterValue (JNumber n))"
| "beginValue stk TTrue = Some (stk, AfterValue (JBool True))"
| "beginValue stk TFalse = Some (stk, AfterValue (JBool False))"
| "beginValue stk TNull = Some (stk, AfterValue JNull)"
| "beginValue stk _ = None"

fun scanStep :: "frame list \<Rightarrow> expectation \<Rightarrow> token \<Rightarrow> (frame list \<times> expectation) option" where
  "scanStep stk WantValue t = beginValue stk t"
| "scanStep (InArray vs # stk) WantValueOrEnd TRBracket = Some (stk, AfterValue (JArray vs))"
| "scanStep stk WantValueOrEnd t = beginValue stk t"
| "scanStep stk WantKey (TString k) = Some (stk, WantColon k)"
| "scanStep stk WantKeyOrEnd (TString k) = Some (stk, WantColon k)"
| "scanStep (InObject ms # stk) WantKeyOrEnd TRBrace = Some (stk, AfterValue (JObject ms))"
| "scanStep (InObject ms # stk) (WantColon k) TColon = Some (InMember ms k # stk, WantValue)"
| "scanStep (InArray vs # stk) (AfterValue v) TComma = Some (InArray (vs @ [v]) # stk, WantValue)"
| "scanStep (InArray vs # stk) (AfterValue v) TRBracket = Some (stk, AfterValue (JArray (vs @ [v])))"
| "scanStep (InMember ms k # stk) (AfterValue v) TComma = Some (InObject (ms @ [(k, v)]) # stk, WantKey)"
| "scanStep (InMember ms k # stk) (AfterValue v) TRBrace = Some (stk, AfterValue (JObject (ms @ [(k, v)])))"
| "scanStep _ _ _ = None"

fun scanTokens :: "frame list \<Rightarrow> expectation \<Rightarrow> token list \<Rightarrow> json option" where
  "scanTokens stk e [] =
     (case (stk, e) of ([], AfterValue v) \<Rightarrow> Some v | _ \<Rightarrow> None)"
| "scanTokens stk e (t # ts) =
     (case scanStep stk e t of None \<Rightarrow> None | Some (stk', e') \<Rightarrow> scanTokens stk' e' ts)"

definition parseJSON :: "string \<Rightarrow> json option" where
  "parseJSON s = (case tokens s of None \<Rightarrow> None | Some ts \<Rightarrow> scanTokens [] WantValue ts)"

end
