(* ===== verification/BaselineFile.thy ===== *)
theory BaselineFile
  imports Baseline GoJSON
begin

text \<open>
  The file of \<open>baseline.go\<close>: the JSON text that \<open>Save\<close> writes and what \<open>LoadBaseline\<close> makes of a file.
  Reading and writing the file are arguments (\<open>os.ReadFile\<close>, \<open>os.WriteFile\<close>): a path gives the bytes or
  an error, a write changes the state of the file system and may fail.

  \<open>Unmarshal\<close> into \<open>baselineFile\<close> fills the two fields by key, exact or up to case folding, ignores
  other keys, leaves a field alone on \<open>null\<close> (a slice becomes empty), and fails on any other type.
  When a key is repeated, an element that is \<open>null\<close> keeps what the earlier list had at its index.
  Shown: what \<open>Save\<close> writes, \<open>LoadBaseline\<close> reads.
\<close>

section \<open>The JSON text\<close>

definition baselineFileComment :: string where
  "baselineFileComment =
     ''txnproof baseline: boundaries that already executed non-atomic writes when txnproof was adopted. '' @
     ''Their violations are tolerated until fixed; new violations still fail. '' @
     ''Remove entries as boundaries get fixed (the ratchet only goes down); '' @
     ''regenerate deliberately with Baseline.Save, never automatically.''"

record BaselineFile =
  bfComment :: string
  bfBoundaries :: "string list"

text \<open>\<open>json.MarshalIndent(f, "", "  ")\<close>.\<close>

definition marshalNames :: "string list \<Rightarrow> string" where
  "marshalNames names =
     (if names = [] then ''[]''
      else ''['' @ newline # ''    '' @ joinWith ('','' @ newline # ''    '') (map jsonQuote names) @
           newline # ''  ]'')"

definition marshalIndent :: "BaselineFile \<Rightarrow> string" where
  "marshalIndent f =
     ''{'' @ newline # ''  '' @ jsonQuote ''comment'' @ '': '' @ jsonQuote (bfComment f) @ '','' @
     newline # ''  '' @ jsonQuote ''boundaries'' @ '': '' @ marshalNames (bfBoundaries f) @ newline # ''}''"

definition baselineText :: "Baseline \<Rightarrow> string" where
  "baselineText b =
     marshalIndent \<lparr>bfComment = baselineFileComment, bfBoundaries = baselineBoundaries b\<rparr> @ [newline]"

datatype FileError = ReadError string | ParseError string | WriteError string

definition baselineSave ::
    "(string \<Rightarrow> string \<Rightarrow> 'fs \<Rightarrow> 'fs \<times> string option) \<Rightarrow> string \<Rightarrow> Baseline \<Rightarrow> 'fs \<Rightarrow> 'fs \<times> FileError option" where
  "baselineSave writeFile path b fs =
     (let (fs', err) = writeFile path (baselineText b) fs in
      (fs', case err of None \<Rightarrow> None | Some e \<Rightarrow> Some (WriteError e)))"

section \<open>Decoding\<close>

text \<open>\<open>foldName\<close>: letters to upper case; two runes outside ASCII fold to ASCII letters.\<close>

definition foldRune :: "nat \<times> string \<Rightarrow> string" where
  "foldRune rb =
     (if fst rb < 0x80 then map asciiUpper (snd rb)
      else if fst rb = 0x17F then ''S''
      else if fst rb = 0x212A then ''K''
      else snd rb)"

definition foldName :: "string \<Rightarrow> string" where
  "foldName s = concat (map foldRune (runes s))"

definition decodeText :: "json \<Rightarrow> string \<Rightarrow> string option" where
  "decodeText v old = (case v of JString s \<Rightarrow> Some s | JNull \<Rightarrow> Some old | _ \<Rightarrow> None)"

fun decodeNames :: "json list \<Rightarrow> string list \<Rightarrow> string list option" where
  "decodeNames [] old = Some []"
| "decodeNames (v # vs) old =
     (case (decodeText v (case old of [] \<Rightarrow> [] | x # _ \<Rightarrow> x), decodeNames vs (tl old)) of
        (Some s, Some ss) \<Rightarrow> Some (s # ss) | _ \<Rightarrow> None)"

text \<open>\<open>spare\<close>: what the array behind the slice holds after the slice's end, from a longer list that an
  earlier occurrence of the key decoded. Growing the slice one element further brings it back.\<close>

definition decodeBoundaries :: "json \<Rightarrow> string list \<times> string list \<Rightarrow> (string list \<times> string list) option" where
  "decodeBoundaries v old =
     (let backing = fst old @ snd old in
      case v of
        JArray vs \<Rightarrow>
          map_option (\<lambda>ss. (ss, if ss = [] then [] else drop (length ss) backing)) (decodeNames vs backing)
      | JNull \<Rightarrow> Some ([], [])
      | _ \<Rightarrow> None)"

definition decodeMember :: "string \<times> json \<Rightarrow> BaselineFile \<times> string list \<Rightarrow> (BaselineFile \<times> string list) option" where
  "decodeMember kv fs =
     (let (f, spare) = fs in
      if foldName (fst kv) = ''COMMENT'' then
        map_option (\<lambda>s. (f\<lparr>bfComment := s\<rparr>, spare)) (decodeText (snd kv) (bfComment f))
      else if foldName (fst kv) = ''BOUNDARIES'' then
        map_option (\<lambda>(ss, spare'). (f\<lparr>bfBoundaries := ss\<rparr>, spare'))
          (decodeBoundaries (snd kv) (bfBoundaries f, spare))
      else Some fs)"

fun decodeMembers :: "(string \<times> json) list \<Rightarrow> BaselineFile \<times> string list \<Rightarrow> BaselineFile option" where
  "decodeMembers [] fs = Some (fst fs)"
| "decodeMembers (kv # ms) fs =
     (case decodeMember kv fs of None \<Rightarrow> None | Some fs' \<Rightarrow> decodeMembers ms fs')"

definition unmarshalBaseline :: "string \<Rightarrow> BaselineFile option" where
  "unmarshalBaseline text =
     (case parseJSON text of
        Some (JObject ms) \<Rightarrow> decodeMembers ms (\<lparr>bfComment = [], bfBoundaries = []\<rparr>, [])
      | Some JNull \<Rightarrow> Some \<lparr>bfComment = [], bfBoundaries = []\<rparr>
      | _ \<Rightarrow> None)"

definition LoadBaseline :: "(string \<Rightarrow> string + string) \<Rightarrow> string \<Rightarrow> FileError + Baseline" where
  "LoadBaseline readFile path =
     (case readFile path of
        Inl e \<Rightarrow> Inl (ReadError e)
      | Inr text \<Rightarrow>
          (case unmarshalBaseline text of
             None \<Rightarrow> Inl (ParseError path)
           | Some f \<Rightarrow> Inr (baselineOfNames (bfBoundaries f))))"

section \<open>Reading back what was written\<close>

lemma tokens_blank: "c \<in> set jsonSpace \<Longrightarrow> tokens (c # s) = tokens s"
  using tokens_space [of "[c]" s] by simp

lemmas tokens_layout =
  tokens_blank [of "CHR '' ''", simplified jsonSpace_def, simplified]
  tokens_blank [of newline, unfolded jsonSpace_def, simplified]
  tokens_punctuation [of "CHR ''{''" TLBrace, unfolded punctuation_def, simplified]
  tokens_punctuation [of "CHR ''}''" TRBrace, unfolded punctuation_def, simplified]
  tokens_punctuation [of "CHR ''[''" TLBracket, unfolded punctuation_def, simplified]
  tokens_punctuation [of "CHR '']''" TRBracket, unfolded punctuation_def, simplified]
  tokens_punctuation [of "CHR '':''" TColon, unfolded punctuation_def, simplified]
  tokens_punctuation [of "CHR '',''" TComma, unfolded punctuation_def, simplified]
  tokens_quoted

definition nameTokens :: "string list \<Rightarrow> token list" where
  "nameTokens names = concat (map (\<lambda>n. [TComma, TString (toValidUTF8 n)]) names)"

lemma tokens_names:
  "tokens (joinWith ('','' @ newline # ''    '') (map jsonQuote (n # names)) @ s) =
    map_option (\<lambda>ts. TString (toValidUTF8 n) # nameTokens names @ ts) (tokens s)"
  by (induction names arbitrary: n)
    (simp_all add: tokens_layout nameTokens_def option.map_comp o_def)

lemma scanTokens_names:
  "scanTokens (InArray vs # stk) (AfterValue v) (nameTokens names @ TRBracket # ts) =
    scanTokens stk (AfterValue (JArray (vs @ v # map (JString \<circ> toValidUTF8) names))) ts"
  by (induction names arbitrary: vs v) (simp_all add: nameTokens_def)

lemma scanTokens_array:
  "scanTokens (InArray [] # stk) WantValueOrEnd
      ((case names of [] \<Rightarrow> [] | n # ns \<Rightarrow> TString (toValidUTF8 n) # nameTokens ns) @ TRBracket # ts) =
    scanTokens stk (AfterValue (JArray (map (JString \<circ> toValidUTF8) names))) ts"
  by (cases names) (simp_all add: scanTokens_names)

lemma tokens_marshalNames:
  "tokens (marshalNames names @ s) =
    map_option (\<lambda>ts. TLBracket # (case names of [] \<Rightarrow> [] | n # ns \<Rightarrow> TString (toValidUTF8 n) # nameTokens ns) @
      TRBracket # ts) (tokens s)"
proof (cases names)
  case (Cons n ns)
  have "tokens (joinWith ('','' @ newline # ''    '') (map jsonQuote (n # ns)) @ newline # ''  ]'' @ s) =
      map_option (\<lambda>ts. TString (toValidUTF8 n) # nameTokens ns @ TRBracket # ts) (tokens s)"
    unfolding tokens_names by (simp add: tokens_layout option.map_comp o_def)
  then show ?thesis
    by (simp add: Cons marshalNames_def tokens_layout option.map_comp o_def)
qed (simp add: marshalNames_def tokens_layout option.map_comp o_def)

lemma toValidUTF8_ascii: "list_all (\<lambda>c. byte c < 0x80) s \<Longrightarrow> toValidUTF8 s = s"
  by (rule toValidUTF8_valid) (auto simp: validUTF8_def runes_ascii list_all_iff illFormed_def runeError_def)

lemma toValidUTF8_keys:
  "toValidUTF8 ''comment'' = ''comment''" "toValidUTF8 ''boundaries'' = ''boundaries''"
  by (simp_all add: toValidUTF8_ascii)

lemma foldName_keys:
  "foldName ''comment'' = ''COMMENT''" "foldName ''boundaries'' = ''BOUNDARIES''"
  by (simp_all add: foldName_def runes_ascii foldRune_def asciiUpper_def char_eq_iff_byte of_char_of)

lemma tokens_marshalIndent:
  "tokens (marshalIndent f @ [newline]) =
    Some ([TLBrace, TString ''comment'', TColon, TString (toValidUTF8 (bfComment f)), TComma,
      TString ''boundaries'', TColon, TLBracket] @
      (case bfBoundaries f of [] \<Rightarrow> [] | n # ns \<Rightarrow> TString (toValidUTF8 n) # nameTokens ns) @ [TRBracket, TRBrace])"
  by (simp add: marshalIndent_def tokens_layout tokens_marshalNames toValidUTF8_keys tokens_Nil)

lemma decodeNames_strings: "decodeNames (map (JString \<circ> f) names) old = Some (map f names)"
  by (induction names arbitrary: old) (simp_all add: decodeText_def)

lemma unmarshal_marshal:
  "unmarshalBaseline (marshalIndent f @ [newline]) =
    Some \<lparr>bfComment = toValidUTF8 (bfComment f), bfBoundaries = map toValidUTF8 (bfBoundaries f)\<rparr>"
proof -
  have "parseJSON (marshalIndent f @ [newline]) =
      Some (JObject [(''comment'', JString (toValidUTF8 (bfComment f))),
        (''boundaries'', JArray (map (JString \<circ> toValidUTF8) (bfBoundaries f)))])"
    by (simp add: parseJSON_def tokens_marshalIndent pushFrame_def maxNestingDepth_def scanTokens_array)
  then show ?thesis
    by (simp add: unmarshalBaseline_def decodeMember_def foldName_keys decodeText_def decodeBoundaries_def
        decodeNames_strings)
qed

lemma baselineFileComment_ascii: "toValidUTF8 baselineFileComment = baselineFileComment"
  by (simp add: toValidUTF8_ascii baselineFileComment_def)

text \<open>C40. Save followed by LoadBaseline, on a file system that keeps what is written: neither fails, and
  the loaded baseline holds the boundary names of the saved one, none of them used. Each name comes back with
  every byte that is not UTF-8 replaced, so names in UTF-8 come back as they were. Escapes, HTML escapes, the
  line separators and the empty list are covered.\<close>

lemma saved_baseline_is_loaded:
  "let (fs', err) = baselineSave (\<lambda>p t fs. (fs(p \<mapsto> t), None)) path b fs;
       loaded = LoadBaseline (\<lambda>p. case fs' p of None \<Rightarrow> Inl ''no such file'' | Some t \<Rightarrow> Inr t) path
   in err = None \<and>
      (case loaded of Inl e \<Rightarrow> False
       | Inr b' \<Rightarrow> baselineNames b' = toValidUTF8 ` baselineNames b \<and> baselineUsed b' = {})"
  by (simp add: baselineSave_def LoadBaseline_def baselineText_def unmarshal_marshal baselineOfNames
      baselineBoundaries_def baselineNames_def [of b])

lemma valid_names_survive:
  "list_all validUTF8 (map fst b) \<Longrightarrow> toValidUTF8 ` baselineNames b = baselineNames b"
  by (force simp: baselineNames_def list_all_iff toValidUTF8_valid)

text \<open>Two boundaries whose names differ in an ill-formed byte are one entry after a reload.\<close>

lemma invalid_names_collapse:
  "baselineNames (baselineOfNames (map toValidUTF8 (baselineBoundaries
      (BaselineFromViolations [v\<lparr>vBoundary := [CHR 0xFF]\<rparr>, v\<lparr>vBoundary := [CHR 0xFE]\<rparr>])))) = {replacementBytes}"
proof -
  have "toValidUTF8 [c] = replacementBytes" if "c = CHR 0xFF \<or> c = CHR 0xFE" for c
    using that
    by (auto simp: toValidUTF8_def runes.simps leadInfo_def wellFormedBytes_def illFormed_def runeError_def)
  then show ?thesis
    using baselineOfNames [of "[[CHR 0xFF], [CHR 0xFE]]"]
    by (simp add: baselineOfNames baselineBoundaries_def BaselineFromViolations_names baselineNames_def [symmetric]
        image_image [symmetric])
qed

end
