(* ===== verification/Throttle.thy ===== *)
theory Throttle
  imports Relay
begin

text \<open>
  \<open>throttle.go\<close>: the reporter that forwards a repeated report at most once per interval. State: four
  maps from key to throttle state, one for each kind of report. Times and the interval are
  nanoseconds; \<open>time.Time.Sub\<close> saturates at the range of \<open>time.Duration\<close>.

  The lemmas show that each key is throttled on its own (what is forwarded for a key is what a
  one-key throttle forwards of that key's reports), that nothing is lost (forwarded and suppressed
  reports add up), and that the map keyed by statement text stays bounded.
\<close>

definition maxUnboundedWriteKeys :: nat where
  "maxUnboundedWriteKeys = 1024"

definition unboundedWriteKeyLen :: nat where
  "unboundedWriteKeyLen = 200"

definition maxDuration :: int where
  "maxDuration = 2 ^ 63 - 1"

definition timeSub :: "int \<Rightarrow> int \<Rightarrow> int" where
  "timeSub t u = max (- maxDuration - 1) (min maxDuration (t - u))"

record ThrottleState =
  tsLastForwarded :: int
  tsSuppressed :: nat

type_synonym ThrottleMap = "(string, ThrottleState) gomap"

record ThrottlingReporter =
  trNext :: ReporterIface
  trInterval :: int
  trViolations :: ThrottleMap
  trStaleAllows :: ThrottleMap
  trUnbounded :: ThrottleMap
  trNested :: ThrottleMap

definition NewThrottlingReporter :: "ReporterIface \<Rightarrow> int \<Rightarrow> ThrottlingReporter" where
  "NewThrottlingReporter nxt interval =
     \<lparr>trNext = nxt, trInterval = interval, trViolations = [], trStaleAllows = [],
      trUnbounded = [], trNested = []\<rparr>"

text \<open>\<open>admit\<close> on one of the maps; \<open>maxKeys = 0\<close> means no cap.\<close>

definition admit :: "int \<Rightarrow> int \<Rightarrow> string \<Rightarrow> nat \<Rightarrow> ThrottleMap \<Rightarrow> ThrottleMap \<times> bool" where
  "admit interval now key maxKeys m =
     (case gm_get m key of
        None \<Rightarrow>
          if maxKeys > 0 \<and> length m \<ge> maxKeys then (m, True)
          else (gm_put key \<lparr>tsLastForwarded = now, tsSuppressed = 0\<rparr> m, True)
      | Some st \<Rightarrow>
          if timeSub now (tsLastForwarded st) \<ge> interval
          then (gm_put key (st\<lparr>tsLastForwarded := now\<rparr>) m, True)
          else (gm_put key (st\<lparr>tsSuppressed := tsSuppressed st + 1\<rparr>) m, False))"

section \<open>The key of an unbounded write\<close>

text \<open>The loop of \<open>unboundedWriteKey\<close> over the runes of the query: the buffer so far and whether
  a space is pending.\<close>

fun writeKeyLoop :: "(nat \<times> string) list \<Rightarrow> string \<Rightarrow> bool \<Rightarrow> string" where
  "writeKeyLoop [] buf pendingSpace = buf"
| "writeKeyLoop ((r, b) # rs) buf pendingSpace =
     (if length buf < unboundedWriteKeyLen then
        if isSpaceRune r then writeKeyLoop rs buf (length buf > 0)
        else
          let buf1 = (if pendingSpace then buf @ '' '' else buf) in
          if pendingSpace \<and> length buf1 = unboundedWriteKeyLen then buf1
          else writeKeyLoop rs (buf1 @ take (unboundedWriteKeyLen - length buf1) b) False
      else buf)"

definition unboundedWriteKey :: "string \<Rightarrow> string" where
  "unboundedWriteKey query = writeKeyLoop (runes query) [] False"

section \<open>The four callbacks\<close>

definition nestedKey :: "NestedBoundary \<Rightarrow> string" where
  "nestedKey n = nbOuter n @ [CHR 0x00] @ nbInner n"

fun throttleReport :: "ReportEvent \<Rightarrow> ThrottlingReporter \<Rightarrow> ThrottlingReporter \<times> bool" where
  "throttleReport (now, ctx, ReportViolation v) r =
     (if trInterval r \<le> 0 then (r, True)
      else (let (m, ok) = admit (trInterval r) now (vBoundary v) 0 (trViolations r)
            in (r\<lparr>trViolations := m\<rparr>, ok)))"
| "throttleReport (now, ctx, ReportUnboundedWrite s) r =
     (if \<not> isUnboundedWriteReporter (trNext r) then (r, False)
      else if trInterval r \<le> 0 then (r, True)
      else (let (m, ok) = admit (trInterval r) now (unboundedWriteKey (srQuery s))
              maxUnboundedWriteKeys (trUnbounded r)
            in (r\<lparr>trUnbounded := m\<rparr>, ok)))"
| "throttleReport (now, ctx, ReportStaleAllow s) r =
     (if \<not> isStaleAllowReporter (trNext r) then (r, False)
      else if trInterval r \<le> 0 then (r, True)
      else (let (m, ok) = admit (trInterval r) now (saBoundary s) 0 (trStaleAllows r)
            in (r\<lparr>trStaleAllows := m\<rparr>, ok)))"
| "throttleReport (now, ctx, ReportNestedBoundary n) r =
     (if \<not> isNestedBoundaryReporter (trNext r) then (r, False)
      else if trInterval r \<le> 0 then (r, True)
      else (let (m, ok) = admit (trInterval r) now (nestedKey n) 0 (trNested r)
            in (r\<lparr>trNested := m\<rparr>, ok)))"

text \<open>\<open>snapshot\<close>, the map behind the four accessors.\<close>

definition suppressedSnapshot :: "ThrottleMap \<Rightarrow> (string, nat) gomap" where
  "suppressedSnapshot m =
     map (\<lambda>(k, st). (k, tsSuppressed st)) (filter (\<lambda>(k, st). tsSuppressed st > 0) m)"

definition SuppressedViolations :: "ThrottlingReporter \<Rightarrow> (string, nat) gomap" where
  "SuppressedViolations r = suppressedSnapshot (trViolations r)"

definition SuppressedUnboundedWrites :: "ThrottlingReporter \<Rightarrow> (string, nat) gomap" where
  "SuppressedUnboundedWrites r = suppressedSnapshot (trUnbounded r)"

definition SuppressedStaleAllows :: "ThrottlingReporter \<Rightarrow> (string, nat) gomap" where
  "SuppressedStaleAllows r = suppressedSnapshot (trStaleAllows r)"

definition SuppressedNestedBoundaries :: "ThrottlingReporter \<Rightarrow> (string, nat) gomap" where
  "SuppressedNestedBoundaries r = suppressedSnapshot (trNested r)"

interpretation tr: relay throttleReport trNext
proof unfold_locales
  fix e :: ReportEvent and r :: ThrottlingReporter
  obtain t ctx rep where e: "e = (t, ctx, rep)" by (cases e) auto
  show "trNext (fst (throttleReport e r)) = trNext r"
    by (cases rep) (simp_all add: e split_def Let_def)
  show "implements (trNext r) (evReport e)" if "snd (throttleReport e r)"
    using that by (cases rep) (simp_all add: e split: if_splits)
qed

section \<open>The key is the truncated one-line query\<close>

text \<open>What the loop would append with no limit.\<close>

fun squeezed :: "(nat \<times> string) list \<Rightarrow> bool \<Rightarrow> bool \<Rightarrow> string" where
  "squeezed [] started pending = []"
| "squeezed ((r, b) # rs) started pending =
     (if isSpaceRune r then squeezed rs started started
      else (if pending then '' '' else []) @ b @ squeezed rs True False)"

lemma take_fill:
  assumes "length buf \<le> n"
  shows "take n (buf @ take (n - length buf) b @ xs) = take n (buf @ b @ xs)"
  using assms by (cases "length b \<le> n - length buf") simp_all

lemma writeKeyLoop_take:
  assumes "length buf \<le> unboundedWriteKeyLen" and "list_all (\<lambda>rb. snd rb \<noteq> []) rs"
  shows "writeKeyLoop rs buf p = take unboundedWriteKeyLen (buf @ squeezed rs (buf \<noteq> []) p)"
  using assms
proof (induction rs buf p rule: writeKeyLoop.induct)
  case (2 r b rs buf p)
  let ?N = unboundedWriteKeyLen
  show ?case
  proof (cases "length buf < ?N")
    case False
    with 2(3) show ?thesis by simp
  next
    case True
    show ?thesis
    proof (cases "isSpaceRune r")
      case space: True
      then show ?thesis using 2(1) [OF True space] 2(3,4) True by simp
    next
      case nospace: False
      let ?buf = "if p then buf @ '' '' else buf"
      have len: "length ?buf \<le> ?N" using True by simp
      have b: "b \<noteq> []" using 2(4) by simp
      show ?thesis
      proof (cases "p \<and> length ?buf = ?N")
        case full: True
        then have "?N - length buf = Suc 0" "Suc (length buf) = ?N" p by auto
        then show ?thesis using True nospace by (simp add: Let_def)
      next
        case False
        let ?next = "?buf @ take (?N - length ?buf) b"
        have "length ?buf < ?N" using False len True by (cases p) auto
        then have "?next \<noteq> []" and "length ?next \<le> ?N" using b by auto
        moreover have "take ?N (?next @ xs) = take ?N (?buf @ b @ xs)" for xs
          using take_fill [OF len] by simp
        ultimately show ?thesis
          using 2(2) [OF True nospace refl False] 2(4) True nospace False
          by (cases p) (simp_all add: Let_def)
      qed
    qed
  qed
qed simp

lemma squeezed_fields:
  assumes "list_all (\<lambda>rb. snd rb \<noteq> []) rs"
  shows "joinWith '' '' (fieldsFrom [] rs) = squeezed rs False False"
    and "acc \<noteq> [] \<Longrightarrow> joinWith '' '' (fieldsFrom acc rs) = acc @ squeezed rs True False"
    and "squeezed rs True True = (if fieldsFrom [] rs = [] then [] else '' '' @ squeezed rs False False)"
  using assms
proof (induction rs arbitrary: acc)
  case (Cons rb rs)
  obtain r b where rb: "rb = (r, b)" by (cases rb)
  have join: "joinWith '' '' (x # xs) = x @ (if xs = [] then [] else '' '' @ joinWith '' '' xs)" for x xs
    by (cases xs) simp_all
  have start: "fieldsFrom acc rs \<noteq> []" if "acc \<noteq> []" for acc
    using that by (induction rs arbitrary: acc) (auto split: if_splits)
  { case 1
    then show ?case using Cons.IH(1) Cons.IH(2) [of b] by (simp add: rb)
  next
    case 2
    then show ?case using Cons.IH(1,3) Cons.IH(2) [of "acc @ b"] by (simp add: rb join)
  next
    case 3
    then show ?case using Cons.IH(3) Cons.IH(2) [of b] start [of b] by (simp add: rb)
  }
qed simp_all

lemma unboundedWriteKey_oneLine: "unboundedWriteKey q = take unboundedWriteKeyLen (oneLine q)"
proof -
  have "list_all (\<lambda>rb. snd rb \<noteq> []) (runes q)"
    using runes_wf [of q] by (auto simp: list_all_iff wfRune_def)
  then show ?thesis
    using writeKeyLoop_take [of "[]" "runes q" False] squeezed_fields(1) [of "runes q"]
    by (simp add: unboundedWriteKey_def oneLine_def GoUnicode.fields_def)
qed

section \<open>One key at a time\<close>

text \<open>The throttle for a single key: the first report passes, then each one that comes at least the
  interval after the last that passed.\<close>

fun throttleSpec :: "int \<Rightarrow> int option \<Rightarrow> (int \<times> 'a) list \<Rightarrow> (int \<times> 'a) list" where
  "throttleSpec interval lastFwd [] = []"
| "throttleSpec interval None (e # es) = e # throttleSpec interval (Some (fst e)) es"
| "throttleSpec interval (Some t) (e # es) =
     (if timeSub (fst e) t \<ge> interval then e # throttleSpec interval (Some (fst e)) es
      else throttleSpec interval (Some t) es)"

text \<open>The kind of a report selects a map; with the key in it, the pair is what is throttled.\<close>

datatype ThrottleKind = TkViolation | TkUnbounded | TkStale | TkNested

fun throttleKey :: "Report \<Rightarrow> ThrottleKind \<times> string" where
  "throttleKey (ReportViolation v) = (TkViolation, vBoundary v)"
| "throttleKey (ReportUnboundedWrite s) = (TkUnbounded, unboundedWriteKey (srQuery s))"
| "throttleKey (ReportStaleAllow s) = (TkStale, saBoundary s)"
| "throttleKey (ReportNestedBoundary n) = (TkNested, nestedKey n)"

fun mapOf :: "ThrottleKind \<Rightarrow> ThrottlingReporter \<Rightarrow> ThrottleMap" where
  "mapOf TkViolation r = trViolations r"
| "mapOf TkUnbounded r = trUnbounded r"
| "mapOf TkStale r = trStaleAllows r"
| "mapOf TkNested r = trNested r"

definition keyCap :: "ThrottleKind \<Rightarrow> nat" where
  "keyCap tk = (if tk = TkUnbounded then maxUnboundedWriteKeys else 0)"

fun withMap :: "ThrottleKind \<Rightarrow> ThrottleMap \<Rightarrow> ThrottlingReporter \<Rightarrow> ThrottlingReporter" where
  "withMap TkViolation m r = r\<lparr>trViolations := m\<rparr>"
| "withMap TkUnbounded m r = r\<lparr>trUnbounded := m\<rparr>"
| "withMap TkStale m r = r\<lparr>trStaleAllows := m\<rparr>"
| "withMap TkNested m r = r\<lparr>trNested := m\<rparr>"

lemma withMap_simps [simp]:
  "trInterval (withMap tk m r) = trInterval r" "trNext (withMap tk m r) = trNext r"
  "mapOf tk' (withMap tk m r) = (if tk' = tk then m else mapOf tk' r)"
  by (cases tk; cases tk'; simp)+

lemma throttleReport_uniform:
  assumes "throttleKey rep = (tk, key)" and "0 < trInterval r"
  shows "throttleReport (now, ctx, rep) r =
    (if implements (trNext r) rep then
       (let (m, ok) = admit (trInterval r) now key (keyCap tk) (mapOf tk r) in (withMap tk m r, ok))
     else (r, False))"
proof (cases rep)
  case (ReportViolation v)
  moreover from this have "tk = TkViolation" "key = vBoundary v" using assms(1) by simp_all
  ultimately show ?thesis using assms(2) by (simp add: keyCap_def)
next
  case (ReportUnboundedWrite s)
  moreover from this have "tk = TkUnbounded" "key = unboundedWriteKey (srQuery s)"
    using assms(1) by simp_all
  ultimately show ?thesis using assms(2) by (simp add: keyCap_def)
next
  case (ReportStaleAllow s)
  moreover from this have "tk = TkStale" "key = saBoundary s" using assms(1) by simp_all
  ultimately show ?thesis using assms(2) by (simp add: keyCap_def)
next
  case (ReportNestedBoundary n)
  moreover from this have "tk = TkNested" "key = nestedKey n" using assms(1) by simp_all
  ultimately show ?thesis using assms(2) by (simp add: keyCap_def)
qed

lemma throttleReport_step:
  assumes "throttleReport (now, ctx, rep) r = (r', ok)" and "throttleKey rep = (tk, key)"
    and "0 < trInterval r"
  shows "trInterval r' = trInterval r" and "trNext r' = trNext r"
    and "\<not> implements (trNext r) rep \<Longrightarrow> r' = r \<and> \<not> ok"
    and "implements (trNext r) rep \<Longrightarrow>
      (mapOf tk r', ok) = admit (trInterval r) now key (keyCap tk) (mapOf tk r)"
    and "tk' \<noteq> tk \<Longrightarrow> mapOf tk' r' = mapOf tk' r"
  using assms(1) unfolding throttleReport_uniform [OF assms(2,3)]
  by (cases "admit (trInterval r) now key (keyCap tk) (mapOf tk r)"; auto split: if_splits)+

text \<open>What \<open>admit\<close> does to its own key and to the others.\<close>

lemma admit_key:
  assumes "admit i now key cap m = (m', ok)"
  shows "k \<noteq> key \<Longrightarrow> gm_get m' k = gm_get m k"
    and "gm_get m key = Some st \<Longrightarrow>
      gm_get m' key = Some (if timeSub now (tsLastForwarded st) \<ge> i then st\<lparr>tsLastForwarded := now\<rparr>
        else st\<lparr>tsSuppressed := tsSuppressed st + 1\<rparr>) \<and>
      ok = (timeSub now (tsLastForwarded st) \<ge> i)"
    and "gm_get m key = None \<Longrightarrow> ok \<and> gm_get m' key
      = (if cap > 0 \<and> length m \<ge> cap then None else Some \<lparr>tsLastForwarded = now, tsSuppressed = 0\<rparr>)"
    and "gm_wf m \<Longrightarrow> gm_wf m'"
    and "cap > 0 \<Longrightarrow> length m \<le> cap \<Longrightarrow> length m' \<le> cap"
  using assms
  by (auto simp: admit_def gm_get_put length_gm_put dest: gm_get_Some_key
      split: option.splits if_splits)

definition lastOf :: "ThrottleKind \<times> string \<Rightarrow> ThrottlingReporter \<Rightarrow> int option" where
  "lastOf K r = map_option tsLastForwarded (gm_get (mapOf (fst K) r) (snd K))"

definition suppressedOf :: "ThrottleKind \<times> string \<Rightarrow> ThrottlingReporter \<Rightarrow> nat" where
  "suppressedOf K r = (case gm_get (mapOf (fst K) r) (snd K) of None \<Rightarrow> 0 | Some st \<Rightarrow> tsSuppressed st)"

text \<open>The reports of one key that the wrapped reporter accepts.\<close>

definition forKey :: "ReporterIface \<Rightarrow> ThrottleKind \<times> string \<Rightarrow> ReportEvent list \<Rightarrow> ReportEvent list" where
  "forKey i K es = filter (\<lambda>e. implements i (evReport e) \<and> throttleKey (evReport e) = K) es"

text \<open>The keys of a map in the order they were taken up. A report of a new key is taken up unless the
  map is full.\<close>

definition keysOf :: "ThrottleKind \<Rightarrow> ThrottlingReporter \<Rightarrow> string list" where
  "keysOf tk r = map fst (mapOf tk r)"

definition takesUp :: "ThrottleKind \<times> string \<Rightarrow> ThrottlingReporter \<Rightarrow> bool" where
  "takesUp K r \<longleftrightarrow> keyCap (fst K) = 0 \<or> snd K \<in> set (keysOf (fst K) r) \<or> length (keysOf (fst K) r) < keyCap (fst K)"

lemma throttle_one:
  assumes "0 < trInterval r" and "throttleReport e r = (r', ok)"
  shows "throttleKey (evReport e) = K \<longrightarrow> takesUp K r \<Longrightarrow>
      throttleSpec (trInterval r) (lastOf K r) (forKey (trNext r) K (e # es))
      = (if ok \<and> throttleKey (evReport e) = K then [e] else [])
        @ throttleSpec (trInterval r) (lastOf K r') (forKey (trNext r) K es)"
    and "length (forKey (trNext r) K [e]) + suppressedOf K r
      = length (if ok \<and> throttleKey (evReport e) = K then [e] else []) + suppressedOf K r'"
    and "trInterval r' = trInterval r" and "trNext r' = trNext r"
proof -
  obtain now ctx rep where e: "e = (now, ctx, rep)" by (cases e) auto
  obtain tk key where key: "throttleKey rep = (tk, key)" by (cases "throttleKey rep")
  obtain tk' key' where K: "K = (tk', key')" by (cases K)
  note step = throttleReport_step [OF assms(2) [unfolded e] key assms(1)]
  show "trInterval r' = trInterval r" and "trNext r' = trNext r" by (rule step)+
  consider (rejected) "\<not> implements (trNext r) rep" "r' = r" "\<not> ok"
    | (other) "implements (trNext r) rep" "(tk, key) \<noteq> K" "gm_get (mapOf tk' r') key' = gm_get (mapOf tk' r) key'"
    | (own) "implements (trNext r) rep" "(tk, key) = K"
    using step(3-5) admit_key(1) by (cases "tk' = tk") (auto simp: K, metis)
  then have "((throttleKey (evReport e) = K \<longrightarrow> takesUp K r) \<longrightarrow>
      throttleSpec (trInterval r) (lastOf K r) (forKey (trNext r) K (e # es))
      = (if ok \<and> throttleKey (evReport e) = K then [e] else [])
        @ throttleSpec (trInterval r) (lastOf K r') (forKey (trNext r) K es)) \<and>
    length (forKey (trNext r) K [e]) + suppressedOf K r
      = length (if ok \<and> throttleKey (evReport e) = K then [e] else []) + suppressedOf K r'"
  proof cases
    case rejected
    then show ?thesis by (simp add: forKey_def e)
  next
    case other
    then show ?thesis by (auto simp: forKey_def e key lastOf_def suppressedOf_def K)
  next
    case own
    then have admit: "admit (trInterval r) now key (keyCap tk) (mapOf tk r) = (mapOf tk r', ok)"
      by (simp add: step(4))
    show ?thesis
    proof (cases "gm_get (mapOf tk r) key")
      case None
      then have "takesUp K r \<longleftrightarrow> keyCap tk = 0 \<or> length (mapOf tk r) < keyCap tk"
        using own None unfolding gm_get_None_iff by (simp add: takesUp_def keysOf_def flip: own(2))
      with admit_key(3) [OF admit None] None own show ?thesis
        by (auto simp: forKey_def e key lastOf_def suppressedOf_def)
    next
      case (Some st)
      with admit_key(2) [OF admit Some] own show ?thesis
        by (auto simp: forKey_def e key lastOf_def suppressedOf_def)
    qed
  qed
  then show "throttleKey (evReport e) = K \<longrightarrow> takesUp K r \<Longrightarrow>
      throttleSpec (trInterval r) (lastOf K r) (forKey (trNext r) K (e # es))
      = (if ok \<and> throttleKey (evReport e) = K then [e] else [])
        @ throttleSpec (trInterval r) (lastOf K r') (forKey (trNext r) K es)"
    and "length (forKey (trNext r) K [e]) + suppressedOf K r
      = length (if ok \<and> throttleKey (evReport e) = K then [e] else []) + suppressedOf K r'"
    by auto
qed

lemma throttle_keys:
  assumes "0 < trInterval r" and "throttleReport e r = (r', ok)" and "throttleKey (evReport e) = (tk, key)"
  shows "keysOf tk' r' =
    (if implements (trNext r) (evReport e) \<and> tk' = tk \<and> key \<notin> set (keysOf tk r) \<and> takesUp (tk, key) r
     then keysOf tk r @ [key] else keysOf tk' r)"
proof -
  obtain now ctx rep where e: "e = (now, ctx, rep)" by (cases e) auto
  obtain m ok' where admit: "admit (trInterval r) now key (keyCap tk) (mapOf tk r) = (m, ok')"
    by (cases "admit (trInterval r) now key (keyCap tk) (mapOf tk r)")
  have new: "map fst (gm_put k v xs) = (if k \<in> set (map fst xs) then map fst xs else map fst xs @ [k])"
    for k :: string and v :: ThrottleState and xs
    by (simp add: update_keys)
  have "map fst m = (if key \<notin> set (keysOf tk r) \<and> takesUp (tk, key) r then keysOf tk r @ [key] else keysOf tk r)"
  proof (cases "gm_get (mapOf tk r) key")
    case None
    moreover from this have "key \<notin> set (map fst (mapOf tk r))" by (simp add: gm_get_None_iff)
    ultimately show ?thesis
      using admit by (auto simp: admit_def keysOf_def takesUp_def new simp del: set_map split: if_splits)
  next
    case (Some st)
    then have "key \<in> set (map fst (mapOf tk r))" using gm_get_Some_key [OF Some] by simp
    then show ?thesis
      using admit Some by (auto simp: admit_def keysOf_def new simp del: set_map split: if_splits)
  qed
  then show ?thesis
    using assms(2,3) admit unfolding e snd_conv
    by (auto simp: throttleReport_uniform [OF _ assms(1)] keysOf_def split: if_splits)
qed

text \<open>A full map keeps its keys.\<close>

lemma full_run:
  assumes "0 < trInterval r" and "\<not> takesUp K r"
  shows "keysOf (fst K) (fst (relayRun throttleReport es r)) = keysOf (fst K) r"
  using assms
proof (induction es arbitrary: r)
  case (Cons e es)
  obtain r' ok where step: "throttleReport e r = (r', ok)" by (cases "throttleReport e r")
  obtain tk key where key: "throttleKey (evReport e) = (tk, key)" by (cases "throttleKey (evReport e)")
  have same: "keysOf (fst K) r' = keysOf (fst K) r"
    using throttle_keys [OF Cons.prems(1) step key, of "fst K"] Cons.prems(2)
    by (auto simp: takesUp_def split: if_splits)
  moreover from this have "\<not> takesUp K r'" using Cons.prems(2) by (simp add: takesUp_def)
  moreover have "0 < trInterval r'" using throttle_one(3) [OF Cons.prems(1) step] Cons.prems(1) by simp
  ultimately show ?case using Cons.IH [of r'] step by (simp add: split_def Let_def)
qed simp

lemma throttle_run:
  assumes "0 < trInterval r"
  shows "keyCap (fst K) = 0 \<or> snd K \<in> set (keysOf (fst K) (fst (relayRun throttleReport es r))) \<Longrightarrow>
      filter (\<lambda>e. throttleKey (evReport e) = K) (snd (relayRun throttleReport es r))
      = throttleSpec (trInterval r) (lastOf K r) (forKey (trNext r) K es)"
    and "length (filter (\<lambda>e. throttleKey (evReport e) = K) (snd (relayRun throttleReport es r)))
        + suppressedOf K (fst (relayRun throttleReport es r))
      = length (forKey (trNext r) K es) + suppressedOf K r"
  using assms
proof (induction es arbitrary: r)
  case (Cons e es)
  have split: "length (forKey i K (e # es)) = length (forKey i K [e]) + length (forKey i K es)" for i
    by (simp add: forKey_def)
  { case 1
    note one = throttle_one [OF 1(2) surjective_pairing]
    have "takesUp K r"
      using full_run [OF 1(2), of K "e # es"] 1(1) unfolding takesUp_def by metis
    with Cons.IH(1) [of "fst (throttleReport e r)"] one(1) [of e K] one(3,4) 1
    show ?case by (simp add: split_def Let_def)
  next
    case 2
    note one = throttle_one [OF 2 surjective_pairing]
    from Cons.IH(2) [of "fst (throttleReport e r)"] one(2) [of K e] one(3,4) [of e] 2
    show ?case by (simp add: split_def Let_def split)
  }
qed (simp_all add: forKey_def)

lemma interval_run: "0 < trInterval r \<Longrightarrow> trInterval (fst (relayRun throttleReport es r)) = trInterval r"
proof (induction es arbitrary: r)
  case (Cons e es)
  then show ?case
    using throttle_one(3) [OF Cons.prems surjective_pairing, of e] by (simp add: split_def Let_def)
qed simp

text \<open>The keys of a kind that were reported, in order of first appearance: the map has the first of them.\<close>

definition reportedKeys :: "ReporterIface \<Rightarrow> ThrottleKind \<Rightarrow> ReportEvent list \<Rightarrow> string list" where
  "reportedKeys i tk es = firstAppearance (map (\<lambda>e. snd (throttleKey (evReport e)))
     (filter (\<lambda>e. implements i (evReport e) \<and> fst (throttleKey (evReport e)) = tk) es))"

lemma reportedKeys_snoc:
  "reportedKeys i tk (es @ [e]) =
     (if implements i (evReport e) \<and> fst (throttleKey (evReport e)) = tk \<and>
         snd (throttleKey (evReport e)) \<notin> set (reportedKeys i tk es)
      then reportedKeys i tk es @ [snd (throttleKey (evReport e))] else reportedKeys i tk es)"
  unfolding reportedKeys_def by (simp add: firstAppearance_snoc)

lemma NewThrottlingReporter_simps [simp]:
  "trInterval (NewThrottlingReporter nxt i) = i" "trNext (NewThrottlingReporter nxt i) = nxt"
  "mapOf tk (NewThrottlingReporter nxt i) = []"
  by (simp_all add: NewThrottlingReporter_def) (cases tk; simp)

lemma lastOf_new [simp]: "lastOf K (NewThrottlingReporter nxt i) = None"
  by (simp add: lastOf_def)

lemma suppressedOf_new [simp]: "suppressedOf K (NewThrottlingReporter nxt i) = 0"
  by (simp add: suppressedOf_def)

lemma timeSub_ge: "0 < i \<Longrightarrow> i \<le> timeSub t u \<Longrightarrow> i \<le> t - u"
  by (auto simp: timeSub_def maxDuration_def max_def min_def split: if_splits)

lemma throttleSpec_spaced:
  assumes "0 < interval"
  shows "sorted_wrt (\<lambda>e f. interval \<le> fst f - fst e) (throttleSpec interval l es) \<and>
    (case l of None \<Rightarrow> True
     | Some t \<Rightarrow> list_all (\<lambda>e. interval \<le> fst e - t) (throttleSpec interval l es))"
  using assms
proof (induction interval l es rule: throttleSpec.induct)
  case (3 i t e es)
  show ?case
  proof (cases "i \<le> timeSub (fst e) t")
    case True
    moreover from this have "i \<le> fst e - t" using 3(3) by (rule timeSub_ge [rotated])
    ultimately show ?thesis
      using 3(1,3) by (fastforce simp: list_all_iff)
  next
    case False
    with 3(2,3) show ?thesis by simp
  qed
qed (auto simp: list_all_iff split: option.splits)

lemma keysOf_run:
  assumes "0 < interval"
  shows "keysOf tk (fst (relayRun throttleReport es (NewThrottlingReporter nxt interval))) =
    (if keyCap tk = 0 then reportedKeys nxt tk es else take (keyCap tk) (reportedKeys nxt tk es))"
proof (induction es rule: rev_induct)
  case (snoc e es)
  let ?r = "fst (relayRun throttleReport es (NewThrottlingReporter nxt interval))"
  obtain r' ok where step: "throttleReport e ?r = (r', ok)" by (cases "throttleReport e ?r")
  obtain tk' key where key: "throttleKey (evReport e) = (tk', key)" by (cases "throttleKey (evReport e)")
  have nxt: "trNext ?r = nxt" using tr.next_run [where es = es and s = "NewThrottlingReporter nxt interval"] by simp
  have pos: "0 < trInterval ?r" using interval_run [of "NewThrottlingReporter nxt interval" es] assms by simp
  have "fst (relayRun throttleReport (es @ [e]) (NewThrottlingReporter nxt interval)) = r'"
    by (simp add: tr.run_append split_def Let_def step)
  then show ?case
    using throttle_keys [OF pos step key, of tk] snoc
    by (auto simp: nxt key reportedKeys_snoc takesUp_def dest: in_set_takeD)
qed (simp add: keysOf_def reportedKeys_def)

text \<open>Reports of a key that was not taken up all pass.\<close>

lemma untracked_run:
  assumes "0 < interval"
    and "key \<notin> set (keysOf tk (fst (relayRun throttleReport es (NewThrottlingReporter nxt interval))))"
  shows "filter (\<lambda>e. throttleKey (evReport e) = (tk, key))
      (snd (relayRun throttleReport es (NewThrottlingReporter nxt interval))) = forKey nxt (tk, key) es"
    (is "filter ?K ?out = _")
proof (rule subseq_same_length)
  have "?out = filter (\<lambda>e. implements nxt (evReport e)) ?out"
    using tr.run_accepted [where es = es and s = "NewThrottlingReporter nxt interval"] by (simp add: list_all_iff)
  then have "filter ?K ?out = forKey nxt (tk, key) ?out"
    unfolding forKey_def by (metis (no_types, lifting) filter_cong filter_filter)
  then show "subseq (filter ?K ?out) (forKey nxt (tk, key) es)"
    using subseq_filter [OF tr.run_subseq] by (simp add: forKey_def)
  show "length (filter ?K ?out) = length (forKey nxt (tk, key) es)"
    using throttle_run(2) [of "NewThrottlingReporter nxt interval" "(tk, key)" es] assms
    by (simp add: suppressedOf_def keysOf_def map_of_eq_None_iff [THEN iffD2])
qed

text \<open>The state of the maps along a run.\<close>

definition throttleWf :: "ThrottlingReporter \<Rightarrow> bool" where
  "throttleWf r \<longleftrightarrow> 0 < trInterval r \<and> (\<forall>tk. gm_wf (mapOf tk r)) \<and>
     length (trUnbounded r) \<le> maxUnboundedWriteKeys \<and>
     (\<forall>k \<in> fst ` set (trUnbounded r). length k \<le> unboundedWriteKeyLen)"

lemma throttleWf_step:
  assumes "throttleWf r"
  shows "throttleWf (fst (throttleReport e r))"
proof -
  obtain now ctx rep where e: "e = (now, ctx, rep)" by (cases e) auto
  obtain tk key where key: "throttleKey rep = (tk, key)" by (cases "throttleKey rep")
  have wf: "0 < trInterval r" "gm_wf (mapOf tk' r)" "length (mapOf TkUnbounded r) \<le> maxUnboundedWriteKeys"
    "k \<in> fst ` set (mapOf TkUnbounded r) \<Longrightarrow> length k \<le> unboundedWriteKeyLen" for tk' k
    using assms by (auto simp: throttleWf_def)
  obtain m ok where admit: "admit (trInterval r) now key (keyCap tk) (mapOf tk r) = (m, ok)"
    by (cases "admit (trInterval r) now key (keyCap tk) (mapOf tk r)")
  have keys: "fst ` set m \<subseteq> insert key (fst ` set (mapOf tk r))"
  proof -
    have "m = mapOf tk r \<or> (\<exists>st. m = gm_put key st (mapOf tk r))"
      using admit by (auto simp: admit_def split: option.splits if_splits)
    then show ?thesis by (elim disjE exE) (simp_all only: gm_keys_put, simp_all add: subset_insertI)
  qed
  have len: "length m \<le> maxUnboundedWriteKeys" if "tk = TkUnbounded"
    using admit_key(5) [OF admit] wf(3) that by (simp add: keyCap_def maxUnboundedWriteKeys_def)
  have short: "length k \<le> unboundedWriteKeyLen" if "tk = TkUnbounded" "k \<in> fst ` set m" for k
  proof -
    have "length key \<le> unboundedWriteKeyLen"
      using key that(1) by (cases rep) (auto simp: unboundedWriteKey_oneLine)
    then show ?thesis using keys that wf(4) [of k] by auto
  qed
  have "throttleWf (withMap tk m r)"
    using wf admit_key(4) [OF admit wf(2)] len short
    unfolding throttleWf_def mapOf.simps(2) [symmetric] by auto
  then show ?thesis
    using assms by (simp add: e throttleReport_uniform [OF key wf(1)] admit)
qed

lemma throttleWf_run: "throttleWf r \<Longrightarrow> throttleWf (fst (relayRun throttleReport es r))"
  by (induction es arbitrary: r) (simp_all add: split_def Let_def throttleWf_step)

lemma throttleWf_new: "0 < i \<Longrightarrow> throttleWf (NewThrottlingReporter nxt i)"
  unfolding throttleWf_def mapOf.simps(2) [symmetric] by simp

lemma suppressedSnapshot_get:
  "gm_wf m \<Longrightarrow> (case gm_get (suppressedSnapshot m) k of None \<Rightarrow> 0 | Some n \<Rightarrow> n)
    = (case gm_get m k of None \<Rightarrow> 0 | Some st \<Rightarrow> tsSuppressed st)"
proof (induction m)
  case (Cons kst m)
  have none: "gm_get (suppressedSnapshot m) (fst kst) = None"
  proof -
    have "set (map fst (suppressedSnapshot m)) \<subseteq> set (map fst m)"
      unfolding suppressedSnapshot_def by (induction m) auto
    with Cons.prems show ?thesis by (auto simp: gm_wf_def gm_get_None_iff)
  qed
  have "suppressedSnapshot (kst # m) = (if tsSuppressed (snd kst) > 0
      then (fst kst, tsSuppressed (snd kst)) # suppressedSnapshot m else suppressedSnapshot m)"
    by (simp add: suppressedSnapshot_def split_def)
  with none Cons show ?case
    by (cases kst) (auto simp: gm_wf_def)
qed (simp add: suppressedSnapshot_def)

fun suppressedMap :: "ThrottleKind \<Rightarrow> ThrottlingReporter \<Rightarrow> (string, nat) gomap" where
  "suppressedMap TkViolation r = SuppressedViolations r"
| "suppressedMap TkUnbounded r = SuppressedUnboundedWrites r"
| "suppressedMap TkStale r = SuppressedStaleAllows r"
| "suppressedMap TkNested r = SuppressedNestedBoundaries r"

lemma suppressedMap_mapOf: "suppressedMap tk r = suppressedSnapshot (mapOf tk r)"
  by (cases tk) (simp_all add: SuppressedViolations_def SuppressedUnboundedWrites_def
      SuppressedStaleAllows_def SuppressedNestedBoundaries_def)

section \<open>Properties\<close>

text \<open>C33. Each key is throttled on its own: of the reports of one kind and key, in any mix with
  other reports, exactly those are forwarded that a single-key throttle forwards (the first, then
  each that comes at least the interval after the last forwarded one), and two forwarded ones are
  never less than the interval apart. For unbounded writes this holds of the statement keys tracked, which are
  the first 1024 different ones reported; every report of a later key is forwarded, none throttled.\<close>

theorem each_key_is_throttled_alone:
  assumes "0 < interval"
  shows "(let out = filter (\<lambda>e. throttleKey (evReport e) = (tk, key))
        (snd (relayRun throttleReport es (NewThrottlingReporter nxt interval)))
    in if tk = TkUnbounded \<and> key \<notin> set (take 1024 (reportedKeys nxt tk es))
       then out = forKey nxt (tk, key) es
       else out = throttleSpec interval None (forKey nxt (tk, key) es) \<and>
         sorted_wrt (\<lambda>e f. interval \<le> fst f - fst e) out)"
proof (cases "tk = TkUnbounded \<and> key \<notin> set (take 1024 (reportedKeys nxt tk es))")
  case True
  then have "key \<notin> set (keysOf tk (fst (relayRun throttleReport es (NewThrottlingReporter nxt interval))))"
    unfolding keysOf_run [OF assms] by (auto simp: keyCap_def maxUnboundedWriteKeys_def)
  with True show ?thesis by (auto simp: untracked_run [OF assms] Let_def)
next
  case False
  then show ?thesis
    using throttle_run(1) [of "NewThrottlingReporter nxt interval" "(tk, key)" es]
      throttleSpec_spaced [OF assms(1), of None] keysOf_run [OF assms, of tk es nxt] assms
    by (auto simp: keyCap_def maxUnboundedWriteKeys_def Let_def)
qed

theorem each_key_is_throttled_alone_witness:
  "(let v = (\<lambda>n t. (t, Background, ReportViolation \<lparr>vBoundary = n, vWriteUnits = 2, vStatements = [],
        vTruncatedStatements = 0, vAllowedWriteUnits = [], vAttrs = []\<rparr>));
      es = [v ''A'' 0, v ''B'' 1, v ''A'' 5, v ''A'' 10, v ''B'' 12]
    in map fst (filter (\<lambda>e. throttleKey (evReport e) = (TkViolation, ''A''))
        (snd (relayRun throttleReport es (NewThrottlingReporter funcIfaces 10))))) = [0, 10]"
proof -
  let ?v = "\<lambda>n t. (t, Background, ReportViolation \<lparr>vBoundary = n, vWriteUnits = 2, vStatements = [],
        vTruncatedStatements = 0, vAllowedWriteUnits = [], vAttrs = []\<rparr>)"
  let ?es = "[?v ''A'' 0, ?v ''B'' 1, ?v ''A'' 5, ?v ''A'' 10, ?v ''B'' 12]"
  have "map fst (throttleSpec 10 None (forKey funcIfaces (TkViolation, ''A'') ?es)) = [0, 10]"
    by (simp add: forKey_def timeSub_def maxDuration_def)
  then show ?thesis
    using each_key_is_throttled_alone [of 10 TkViolation "''A''" ?es funcIfaces]
    by (simp only: Let_def) simp
qed

text \<open>C34. No report is lost from the counts: for every kind and key, the reports the wrapped reporter
  accepts are the forwarded ones plus the suppression count of the matching accessor.\<close>

theorem forwarded_plus_suppressed_is_total:
  assumes "0 < interval"
  shows "(let (r, out) = relayRun throttleReport es (NewThrottlingReporter nxt interval)
    in length (filter (\<lambda>e. throttleKey (evReport e) = (tk, key)) out) +
       (case gm_get (suppressedMap tk r) key of None \<Rightarrow> 0 | Some n \<Rightarrow> n)
     = length (forKey nxt (tk, key) es))"
proof -
  let ?r = "NewThrottlingReporter nxt interval"
  have "gm_wf (mapOf tk (fst (relayRun throttleReport es ?r)))"
    using throttleWf_run [OF throttleWf_new [OF assms]] by (simp add: throttleWf_def)
  then show ?thesis
    using throttle_run(2) [of ?r "(tk, key)" es] assms
    by (simp add: split_def Let_def suppressedMap_mapOf suppressedSnapshot_get suppressedOf_def)
qed

theorem forwarded_plus_suppressed_is_total_witness:
  "(let s = \<lparr>srQuery = ''DELETE  FROM t'', srKind = KindWrite, srTxID = 0, srTime = 0, srAttrs = []\<rparr>;
      (r, out) = relayRun throttleReport
        [(0, Background, ReportUnboundedWrite s), (3, Background, ReportUnboundedWrite s)]
        (NewThrottlingReporter allIfaces 10)
    in length (filter (\<lambda>e. throttleKey (evReport e) = (TkUnbounded, ''DELETE FROM t'')) out) +
       (case gm_get (suppressedMap TkUnbounded r) ''DELETE FROM t'' of None \<Rightarrow> 0 | Some n \<Rightarrow> n)) = 2"
proof -
  let ?s = "\<lparr>srQuery = ''DELETE  FROM t'', srKind = KindWrite, srTxID = 0, srTime = 0, srAttrs = []\<rparr>"
  let ?es = "[(0, Background, ReportUnboundedWrite ?s), (3, Background, ReportUnboundedWrite ?s)]"
  have "unboundedWriteKey ''DELETE  FROM t'' = ''DELETE FROM t''"
    by (simp add: unboundedWriteKey_def runes_ascii isSpaceRune_def unboundedWriteKeyLen_def)
  then have two: "length (forKey allIfaces (TkUnbounded, ''DELETE FROM t'') ?es) = 2"
    by (simp add: forKey_def allIfaces_def)
  have "0 < (10::int)" by simp
  from forwarded_plus_suppressed_is_total [OF this, of ?es allIfaces TkUnbounded "''DELETE FROM t''"]
  show ?thesis
    unfolding Let_def two split_def .
qed

text \<open>C37. Memory for open-ended statement texts is bounded: whatever is reported, at most 1024 keys of
  at most 200 bytes are tracked, each the 200-byte prefix of a query with its white space
  squeezed.\<close>

theorem statement_keys_are_bounded:
  assumes "0 < interval"
  shows "(let r = fst (relayRun throttleReport es (NewThrottlingReporter nxt interval))
    in length (trUnbounded r) \<le> 1024 \<and>
       list_all (\<lambda>(k, st). length k \<le> 200) (trUnbounded r)) \<and>
    unboundedWriteKey q = take 200 (oneLine q)"
  using throttleWf_run [OF throttleWf_new [OF assms], of es nxt]
  by (auto simp: throttleWf_def Let_def list_all_iff maxUnboundedWriteKeys_def
      unboundedWriteKeyLen_def unboundedWriteKey_oneLine)

theorem statement_keys_are_bounded_witness:
  "unboundedWriteKey ''  DELETE \<newline> FROM t '' = ''DELETE FROM t''"
proof -
  have "take 200 (oneLine ''  DELETE \<newline> FROM t '') = ''DELETE FROM t''"
    by (simp add: oneLine_def GoUnicode.fields_def runes_ascii isSpaceRune_def)
  then show ?thesis
    using statement_keys_are_bounded [of 1 "[]" allIfaces "''  DELETE \<newline> FROM t ''"] by simp
qed

end
