(* ===== verification/Timeline.thy ===== *)
theory Timeline
  imports Session
begin

text \<open>
  The detector under concurrency. Goroutines interleave at the granularity of the critical sections:
  starting a boundary, recording a statement, setting a mark and taking an identity are single
  steps; \<open>finishBoundary\<close> is two, because it releases the lock between marking the boundary finished
  and reading its statements, consulting the allowlist and calling the reporters.

  A configuration is the world, the finishes that are between their two steps, and a history: how
  each boundary was born, the statements and marks that reached it while it was live, and the
  outcome of every completed finish. \<open>reachable\<close> closes the start of a process under all steps,
  in any order; the invariant is proved by rule induction over it.
\<close>

section \<open>Steps\<close>

datatype Action =
    ActStart nat Ctx string "BoundaryOption list" int
  | ActRecord nat Ctx string StatementKind u64 int
  | ActMark Ctx string "int list"
  | ActTxID nat
  | ActFinishLock BoundaryRef
  | ActFinishReport BoundaryRef

record Config =
  cWorld :: World
  cPending :: "(BoundaryRef \<times> FinishSnap) list"
  cBirth :: "BoundaryRef \<Rightarrow> Boundary"
  cEvents :: "BoundaryRef \<Rightarrow> BoundaryEvent list"
  cDone :: "(BoundaryRef \<times> Report option) list"

definition initialConfig :: "World \<Rightarrow> Config" where
  "initialConfig w =
     \<lparr>cWorld = w, cPending = [], cBirth = wHeap w, cEvents = (\<lambda>_. []), cDone = []\<rparr>"

text \<open>The event a statement or mark is for the live boundary of its context.\<close>

definition noteEvent :: "Ctx \<Rightarrow> BoundaryEvent \<Rightarrow> Config \<Rightarrow> Config" where
  "noteEvent ctx ev c =
     (case boundaryOf ctx of
        None \<Rightarrow> c
      | Some r \<Rightarrow>
          if bFinished (wHeap (cWorld c) r) then c
          else c\<lparr>cEvents := (cEvents c)(r := cEvents c r @ [ev])\<rparr>)"

text \<open>\<open>None\<close> when the step cannot be taken: a goroutine only has contexts and handles of boundaries
  that exist, and a finish reports once after its locked step.\<close>

definition knows :: "World \<Rightarrow> Ctx \<Rightarrow> bool" where
  "knows w ctx \<longleftrightarrow> (\<forall>r \<in> ctxRefs ctx. r < wNext w)"

fun cstep :: "Action \<Rightarrow> Config \<Rightarrow> Config option" where
  "cstep (ActStart d ctx name opts now) c =
     (if knows (cWorld c) ctx then
        (let (w, ctx', r) = StartBoundary d ctx name opts now (cWorld c)
         in Some (c\<lparr>cWorld := w, cBirth := (cBirth c)(r := wHeap w r)\<rparr>))
      else None)"
| "cstep (ActRecord d ctx q k t now) c =
     (if knows (cWorld c) ctx then
        Some ((noteEvent ctx (Recorded (dMaxRecordedStatements (wDets (cWorld c) d))
            \<lparr>srQuery = q, srKind = k, srTxID = t, srTime = now, srAttrs = []\<rparr>) c)
          \<lparr>cWorld := recordStatement d ctx q k t now (cWorld c)\<rparr>)
      else None)"
| "cstep (ActMark ctx reason units) c =
     (if knows (cWorld c) ctx then
        Some ((noteEvent ctx (Marked reason units) c)
          \<lparr>cWorld := AllowNonAtomicHere ctx reason units (cWorld c)\<rparr>)
      else None)"
| "cstep (ActTxID d) c = Some (c\<lparr>cWorld := fst (nextTxID d (cWorld c))\<rparr>)"
| "cstep (ActFinishLock r) c =
     (if r < wNext (cWorld c) then
        (let (w, snap) = finishBoundaryLock r (cWorld c)
         in Some (c\<lparr>cWorld := w,
              cPending := (case snap of None \<Rightarrow> cPending c | Some s \<Rightarrow> (r, s) # cPending c)\<rparr>))
      else None)"
| "cstep (ActFinishReport r) c =
     (case map_of (cPending c) r of
        None \<Rightarrow> None
      | Some snap \<Rightarrow>
          let w = cWorld c; b = wHeap w r;
              outcome = snd (finishOutcome snap b (allowlistOf w (wDets w (bDet b))))
          in Some (c\<lparr>cWorld := finishBoundaryReport r snap w,
               cPending := filter (\<lambda>p. fst p \<noteq> r) (cPending c),
               cDone := cDone c @ [(r, outcome)]\<rparr>))"

inductive reachable :: "World \<Rightarrow> Config \<Rightarrow> bool" for w0 where
  init: "wNext w0 = 0 \<Longrightarrow> reachable w0 (initialConfig w0)"
| step: "reachable w0 c \<Longrightarrow> cstep a c = Some c' \<Longrightarrow> reachable w0 c'"

inductive_cases reachableE: "reachable w0 c"

fun_cases cstep_StartE: "cstep (ActStart d ctx name opts now) c = Some c'"
fun_cases cstep_RecordE: "cstep (ActRecord d ctx q k t now) c = Some c'"
fun_cases cstep_MarkE: "cstep (ActMark ctx reason units) c = Some c'"
fun_cases cstep_TxIDE: "cstep (ActTxID d) c = Some c'"
fun_cases cstep_LockE: "cstep (ActFinishLock r) c = Some c'"
fun_cases cstep_ReportE: "cstep (ActFinishReport r) c = Some c'"

section \<open>Boundaries and their history\<close>

text \<open>A boundary as \<open>StartBoundary\<close> leaves it.\<close>

definition freshBoundary :: "Boundary \<Rightarrow> bool" where
  "freshBoundary b \<longleftrightarrow> tallyInv b \<and> writeTxs b = {} \<and> bAutoCommitWrites b = 0 \<and> \<not> bFinished b"

lemma freshBoundary_start:
  assumes "StartBoundary d ctx name opts now w = (w', c, r)"
  shows "freshBoundary (wHeap w' (wNext w))"
proof -
  have "freshBoundary (fold applyOption opts b)" if "freshBoundary b" for b
    using that by (simp add: freshBoundary_def frame_rules)
  moreover have "freshBoundary (newBoundary d ctx name)"
    and "freshBoundary ((newBoundary d ctx name)\<lparr>bAttrs := x\<rparr>)" for x
    using tally_fields [of "(newBoundary d ctx name)\<lparr>bAttrs := x\<rparr>" "newBoundary d ctx name"]
    by (simp_all add: freshBoundary_def)
  ultimately show ?thesis
    unfolding StartBoundary_frame(5) [OF assms] by (simp split: option.split)
qed

text \<open>The boundary its history gives.\<close>

definition lived :: "Config \<Rightarrow> BoundaryRef \<Rightarrow> Boundary" where
  "lived c r = fold applyEvent (cEvents c r) (cBirth c r)"

definition locked :: "Config \<Rightarrow> BoundaryRef list" where
  "locked c = map fst (cPending c) @ map fst (cDone c)"

definition historyInv :: "Config \<Rightarrow> bool" where
  "historyInv c \<longleftrightarrow>
     (\<forall>r < wNext (cWorld c). freshBoundary (cBirth c r) \<and>
        wHeap (cWorld c) r
          = (if r \<in> set (locked c) then (lived c r)\<lparr>bFinished := True\<rparr> else lived c r)) \<and>
     distinct (locked c) \<and> (\<forall>r \<in> set (locked c). r < wNext (cWorld c))"

lemma lived_live: "freshBoundary (cBirth c r) \<Longrightarrow> \<not> bFinished (lived c r)"
  by (simp add: lived_def freshBoundary_def frame_rules)

lemma historyInv_finished:
  assumes "historyInv c" and "r < wNext (cWorld c)"
  shows "bFinished (wHeap (cWorld c) r) \<longleftrightarrow> r \<in> set (locked c)"
  using assms lived_live [of c r] by (auto simp: historyInv_def)

text \<open>Appending an event to a live boundary.\<close>

lemma historyInv_event:
  assumes "historyInv c" and "knows (cWorld c) ctx"
    and heap: "wHeap w' = (case boundaryOf ctx of None \<Rightarrow> wHeap (cWorld c)
      | Some r \<Rightarrow> (wHeap (cWorld c))(r := applyEvent ev (wHeap (cWorld c) r)))"
    and "wNext w' = wNext (cWorld c)"
  shows "historyInv ((noteEvent ctx ev c)\<lparr>cWorld := w'\<rparr>)"
proof (cases "boundaryOf ctx")
  case None
  with assms show ?thesis by (simp add: historyInv_def noteEvent_def locked_def lived_def)
next
  case (Some r)
  with assms(2) boundaryOf_in_ctxRefs [OF Some] have r: "r < wNext (cWorld c)"
    by (auto simp: knows_def)
  note fin = historyInv_finished [OF assms(1) r]
  show ?thesis
  proof (cases "r \<in> set (locked c)")
    case True
    with fin have "bFinished (wHeap (cWorld c) r)" by simp
    with assms Some show ?thesis
      by (simp add: historyInv_def noteEvent_def locked_def lived_def applyEvent_finished)
  next
    case False
    with fin have "\<not> bFinished (wHeap (cWorld c) r)" by simp
    with assms Some False show ?thesis
      by (auto simp: historyInv_def noteEvent_def locked_def lived_def)
  qed
qed

lemma historyInv_other:
  assumes "historyInv c" and "cBirth c' = cBirth c" and "cEvents c' = cEvents c"
    and "wNext (cWorld c') = wNext (cWorld c)" and "wHeap (cWorld c') = wHeap (cWorld c)"
    and "set (locked c') = set (locked c)" and "distinct (locked c')"
  shows "historyInv c'"
  using assms by (simp add: historyInv_def lived_def)

lemma historyInv_start:
  assumes "historyInv c" and start: "StartBoundary d ctx name opts now (cWorld c) = (w, ctx', r)"
    and unborn: "\<And>r. wNext (cWorld c) \<le> r \<Longrightarrow> cEvents c r = []"
  shows "historyInv (c\<lparr>cWorld := w, cBirth := (cBirth c)(r := wHeap w r)\<rparr>)"
proof -
  note frame = StartBoundary_frame [OF start]
  have r: "r = wNext (cWorld c)" using StartBoundary_result [OF start] by simp
  have "r \<notin> set (locked c)" using assms(1) r by (auto simp: historyInv_def)
  then show ?thesis
    using assms(1) freshBoundary_start [OF start] frame(3,4) unborn [of r] r
    by (auto simp: historyInv_def lived_def locked_def less_Suc_eq)
qed

lemma historyInv_lock:
  assumes "historyInv c" and "r < wNext (cWorld c)"
    and lock: "finishBoundaryLock r (cWorld c) = (w, snap)"
  shows "historyInv (c\<lparr>cWorld := w,
    cPending := (case snap of None \<Rightarrow> cPending c | Some s \<Rightarrow> (r, s) # cPending c)\<rparr>)"
proof (cases "r \<in> set (locked c)")
  case True
  then have "snap = None" "wHeap w = wHeap (cWorld c)" "wNext w = wNext (cWorld c)"
    using lock historyInv_finished [OF assms(1,2)]
    by (auto simp: finishBoundaryLock_def finishLock_def split: if_splits)
  then show ?thesis
    using assms(1) by (intro historyInv_other [OF assms(1)]) (simp_all add: locked_def historyInv_def)
next
  case False
  then have live: "\<not> bFinished (wHeap (cWorld c) r)" using historyInv_finished [OF assms(1,2)] by simp
  then obtain s where s: "snap = Some s"
    and heap: "wHeap w = (wHeap (cWorld c))(r := (wHeap (cWorld c) r)\<lparr>bFinished := True\<rparr>)"
    and nxt: "wNext w = wNext (cWorld c)"
    using lock by (auto simp: finishBoundaryLock_def finishLock_def split: if_splits)
  let ?c = "c\<lparr>cWorld := w, cPending := (r, s) # cPending c\<rparr>"
  have "locked ?c = r # locked c" and "lived ?c = lived c"
    by (simp_all add: locked_def lived_def fun_eq_iff)
  with False assms(1,2) have "historyInv ?c"
    by (simp add: historyInv_def heap nxt)
  then show ?thesis by (simp add: s)
qed

section \<open>The rest of the invariant\<close>

text \<open>Nothing in a run changes what the detectors and allowlists decide.\<close>

definition allowlistUnits :: "Allowlist \<Rightarrow> string \<Rightarrow> int list option" where
  "allowlistUnits a n = map_option aeUnits (gm_get a n)"

definition sameSettings :: "World \<Rightarrow> World \<Rightarrow> bool" where
  "sameSettings w0 w \<longleftrightarrow>
     (\<forall>d. \<exists>n. wDets w d = (wDets w0 d)\<lparr>dTxSeq := n\<rparr>) \<and>
     (\<forall>a. allowlistUnits (wAllowlists w a) = allowlistUnits (wAllowlists w0 a))"

lemma allowlistUnits_allow: "allowlistUnits (fst (allowlistAllow n u a)) = allowlistUnits a"
  by (auto simp: allowlistUnits_def allowlistAllow_def gm_get_put fun_eq_iff split: option.split)

lemma finishOutcome_allowlist:
  assumes "finishOutcome snap b al = (al', out)"
  shows "(al = None \<longrightarrow> al' = None) \<and>
    (\<forall>a. al = Some a \<longrightarrow> (\<exists>a'. al' = Some a' \<and> allowlistUnits a' = allowlistUnits a))"
  using assms allowlistUnits_allow [of "bName b" "fsUnits snap" "the al"]
  by (cases "allowlistAllow (bName b) (fsUnits snap) (the al)")
    (auto simp: finishOutcome_def Let_def split: if_splits option.splits)

lemma sameSettings_report:
  assumes "sameSettings w0 w"
  shows "sameSettings w0 (finishBoundaryReport r snap w)"
proof -
  let ?D = "wDets w (bDet (wHeap w r))"
  obtain al out where out: "finishOutcome snap (wHeap w r) (allowlistOf w ?D) = (al, out)"
    by (cases "finishOutcome snap (wHeap w r) (allowlistOf w ?D)") auto
  have "allowlistUnits (wAllowlists (finishBoundaryReport r snap w) a) = allowlistUnits (wAllowlists w a)"
    for a
    using finishOutcome_allowlist [OF out] out
    by (cases "dAllowlist ?D"; cases out)
      (auto simp: finishBoundaryReport_def allowlistOf_def Let_def frame_rules)
  then show ?thesis
    using assms by (simp add: sameSettings_def frame_rules)
qed

lemma expectedReport_allowlist:
  assumes "rel_option (\<lambda>a a'. allowlistUnits a = allowlistUnits a') al al'"
  shows "expectedReport n attrs u mk al st tr = expectedReport n attrs u mk al' st tr"
proof -
  have units: "map_option aeUnits (gm_get a k) = map_option aeUnits (gm_get a' k)"
    if "allowlistUnits a = allowlistUnits a'" for a a' k
    using fun_cong [OF that, of k] by (simp add: allowlistUnits_def)
  have covers: "allowlistSuppresses a (n, i) = allowlistSuppresses a' (n, i)"
    and counts: "(case gm_get a n of None \<Rightarrow> [] | Some e \<Rightarrow> aeUnits e)
        = (case gm_get a' n of None \<Rightarrow> [] | Some e \<Rightarrow> aeUnits e)"
    if "allowlistUnits a = allowlistUnits a'" for a a' i
    using units [OF that, of n] by (auto simp: allowlistSuppresses_def split: option.split)
  from assms show ?thesis
  proof cases
    case (Some a a')
    show ?thesis
      unfolding Some(1,2) expectedReport_def allowlistCovers_def declinedCounts_def option.case
        covers [OF Some(3)] counts [OF Some(3)] ..
  qed simp
qed

text \<open>The documented verdict on the history of a boundary.\<close>

definition verdict :: "World \<Rightarrow> Config \<Rightarrow> BoundaryRef \<Rightarrow> Report option" where
  "verdict w0 c r =
     (let b = cBirth c r; evs = cEvents c r in
      expectedReport (bName b) (bAttrs b) (writeUnitsOf (recordsOf evs))
        (lastMark (boundaryMark b) evs) (allowlistOf w0 (wDets w0 (bDet b)))
        (bStatements (lived c r)) (bTruncated (lived c r)))"

definition pendingInv :: "Config \<Rightarrow> bool" where
  "pendingInv c \<longleftrightarrow> (\<forall>(r, snap) \<in> set (cPending c). snd (finishLock (lived c r)) = Some snap)"

definition doneInv :: "World \<Rightarrow> Config \<Rightarrow> bool" where
  "doneInv w0 c \<longleftrightarrow> (\<forall>(r, out) \<in> set (cDone c). out = verdict w0 c r)"

definition unbornInv :: "Config \<Rightarrow> bool" where
  "unbornInv c \<longleftrightarrow> (\<forall>r. wNext (cWorld c) \<le> r \<longrightarrow> cEvents c r = [])"

lemma finish_gives_verdict:
  assumes "freshBoundary (cBirth c r)" and "sameSettings w0 w"
    and "snd (finishLock (lived c r)) = Some snap"
  shows "snd (finishOutcome snap ((lived c r)\<lparr>bFinished := True\<rparr>)
      (allowlistOf w (wDets w (bDet (lived c r))))) = verdict w0 c r"
proof -
  let ?b = "lived c r" and ?al = "allowlistOf w (wDets w (bDet (lived c r)))"
  have live: "\<not> bFinished ?b" using assms(1) by (rule lived_live)
  then have "finishLock ?b = (?b\<lparr>bFinished := True\<rparr>, Some snap)"
    using assms(3) by (simp add: finishLock_def)
  then have "snd (finishOutcome snap (?b\<lparr>bFinished := True\<rparr>) ?al) = snd (snd (finishNow ?b ?al))"
    by (simp add: finishNow_def)
  also have "\<dots> = expectedReport (bName ?b) (bAttrs ?b) (boundaryUnits ?b) (boundaryMark ?b) ?al
      (bStatements ?b) (bTruncated ?b)"
    using live by (rule finishNow_report)
  also have "\<dots> = expectedReport (bName (cBirth c r)) (bAttrs (cBirth c r))
      (writeUnitsOf (recordsOf (cEvents c r))) (lastMark (boundaryMark (cBirth c r)) (cEvents c r)) ?al
      (bStatements ?b) (bTruncated ?b)"
    using assms(1)
    by (simp add: lived_def freshBoundary_def frame_rules applyEvents_units applyEvents_mark)
  also have "\<dots> = verdict w0 c r"
  proof -
    have "dAllowlist (wDets w d) = dAllowlist (wDets w0 d)" for d
    proof -
      obtain n where "wDets w d = (wDets w0 d)\<lparr>dTxSeq := n\<rparr>"
        using assms(2) by (auto simp: sameSettings_def)
      then show ?thesis by simp
    qed
    then have "rel_option (\<lambda>a a'. allowlistUnits a = allowlistUnits a') ?al
        (allowlistOf w0 (wDets w0 (bDet (cBirth c r))))"
      using assms(2)
      by (auto simp: allowlistOf_def sameSettings_def lived_def frame_rules split: option.split)
    then show ?thesis
      unfolding verdict_def Let_def by (rule expectedReport_allowlist)
  qed
  finally show ?thesis .
qed

text \<open>The reporter calls a finish makes.\<close>

fun isFinishReport :: "Report \<Rightarrow> bool" where
  "isFinishReport (ReportViolation v) = True"
| "isFinishReport (ReportStaleAllow s) = True"
| "isFinishReport (ReportUnboundedWrite s) = False"
| "isFinishReport (ReportNestedBoundary n) = False"

definition finishCalls :: "ReporterCall list \<Rightarrow> ReporterCall list" where
  "finishCalls calls = filter (\<lambda>(_, _, rep). isFinishReport rep) calls"

definition deliveries :: "World \<Rightarrow> Config \<Rightarrow> BoundaryRef \<times> Report option \<Rightarrow> ReporterCall list" where
  "deliveries w0 c ro =
     (let b = cBirth c (fst ro) in
      case snd ro of None \<Rightarrow> []
      | Some rep \<Rightarrow> notify (wDets w0 (bDet b)) (CtxBoundary (fst ro) (bParent b)) rep)"

definition callsInv :: "World \<Rightarrow> Config \<Rightarrow> bool" where
  "callsInv w0 c \<longleftrightarrow> finishCalls (wCalls (cWorld c))
     = finishCalls (wCalls w0) @ concat (map (deliveries w0 c) (cDone c))"

definition configInv :: "World \<Rightarrow> Config \<Rightarrow> bool" where
  "configInv w0 c \<longleftrightarrow> historyInv c \<and> pendingInv c \<and> doneInv w0 c \<and> unbornInv c \<and>
     sameSettings w0 (cWorld c) \<and> callsInv w0 c"

lemma finishCalls_append [simp]: "finishCalls (xs @ ys) = finishCalls xs @ finishCalls ys"
  by (simp add: finishCalls_def)

lemma finishCalls_notify:
  "finishCalls (notify D ctx rep) = (if isFinishReport rep then notify D ctx rep else [])"
  by (simp add: finishCalls_def notify_def comp_def)

lemma notify_settings:
  "sameSettings w0 w \<Longrightarrow> notify (wDets w d) ctx rep = notify (wDets w0 d) ctx rep"
proof -
  assume "sameSettings w0 w"
  then obtain n where "wDets w d = (wDets w0 d)\<lparr>dTxSeq := n\<rparr>" by (auto simp: sameSettings_def)
  then show ?thesis by (simp add: notify_def)
qed

lemma verdict_isFinishReport: "verdict w0 c r = Some rep \<Longrightarrow> isFinishReport rep"
  by (auto simp: verdict_def Let_def expectedReport_def split: if_splits option.splits)

text \<open>Steps that leave the history of finished boundaries alone keep the three invariants on them.\<close>

lemma locked_history_kept:
  assumes "\<And>r. r \<in> set (locked c) \<Longrightarrow> cBirth c' r = cBirth c r \<and> cEvents c' r = cEvents c r"
    and "cPending c' = cPending c" and "cDone c' = cDone c"
  shows "pendingInv c \<Longrightarrow> pendingInv c'" and "doneInv w0 c \<Longrightarrow> doneInv w0 c'"
    and "callsInv w0 c \<Longrightarrow> finishCalls (wCalls (cWorld c')) = finishCalls (wCalls (cWorld c))
      \<Longrightarrow> callsInv w0 c'"
proof -
  have "lived c' r = lived c r" "verdict w0 c' r = verdict w0 c r" "cBirth c' r = cBirth c r"
    if "r \<in> set (locked c)" for r
    using assms(1) [OF that] by (simp_all add: lived_def verdict_def)
  moreover have "set (map fst (cPending c)) \<subseteq> set (locked c)" "set (map fst (cDone c)) \<subseteq> set (locked c)"
    by (auto simp: locked_def)
  ultimately show "pendingInv c \<Longrightarrow> pendingInv c'" and "doneInv w0 c \<Longrightarrow> doneInv w0 c'"
    and "callsInv w0 c \<Longrightarrow> finishCalls (wCalls (cWorld c')) = finishCalls (wCalls (cWorld c))
      \<Longrightarrow> callsInv w0 c'"
    using assms(2,3)
    by (fastforce simp: pendingInv_def doneInv_def callsInv_def deliveries_def intro!: arg_cong [where f = concat])+
qed

lemma configInv_start:
  assumes "configInv w0 c" and "cstep (ActStart d ctx name opts now) c = Some c'"
  shows "configInv w0 c'"
proof -
  obtain w ctx' r where start: "StartBoundary d ctx name opts now (cWorld c) = (w, ctx', r)"
    by (cases "StartBoundary d ctx name opts now (cWorld c)") auto
  have c': "c' = c\<lparr>cWorld := w, cBirth := (cBirth c)(r := wHeap w r)\<rparr>"
    using assms(2) start by (auto split: if_splits)
  have r: "r = wNext (cWorld c)" using StartBoundary_result [OF start] by simp
  have unborn: "wNext (cWorld c) \<le> s \<Longrightarrow> cEvents c s = []" for s
    using assms(1) by (simp add: configInv_def unbornInv_def)
  have "historyInv c'"
    unfolding c' using assms(1) by (intro historyInv_start [OF _ start unborn]) (simp_all add: configInv_def)
  moreover have kept: "cBirth c' s = cBirth c s \<and> cEvents c' s = cEvents c s" if "s \<in> set (locked c)" for s
    using that assms(1) by (auto simp: c' r configInv_def historyInv_def)
  moreover have "finishCalls (wCalls w) = finishCalls (wCalls (cWorld c))"
    using start by (auto simp: StartBoundary_def Let_def frame_rules finishCalls_notify
        split: if_splits option.splits)
  moreover have "sameSettings w0 w" "unbornInv c'"
    using assms(1) StartBoundary_frame(1-3) [OF start]
    by (simp_all add: configInv_def sameSettings_def unbornInv_def c')
  ultimately show ?thesis
    using locked_history_kept [of c c'] assms(1) by (simp add: configInv_def c')
qed

lemma configInv_event:
  assumes "configInv w0 c" and "knows (cWorld c) ctx"
    and "wHeap w' = (case boundaryOf ctx of None \<Rightarrow> wHeap (cWorld c)
      | Some r \<Rightarrow> (wHeap (cWorld c))(r := applyEvent ev (wHeap (cWorld c) r)))"
    and "wNext w' = wNext (cWorld c)" and "wDets w' = wDets (cWorld c)"
    and "wAllowlists w' = wAllowlists (cWorld c)"
    and "finishCalls (wCalls w') = finishCalls (wCalls (cWorld c))"
  shows "configInv w0 ((noteEvent ctx ev c)\<lparr>cWorld := w'\<rparr>)"
proof -
  let ?c = "(noteEvent ctx ev c)\<lparr>cWorld := w'\<rparr>"
  have hist: "historyInv c" and unborn: "unbornInv c" using assms(1) by (simp_all add: configInv_def)
  have ref: "r < wNext (cWorld c)" if "boundaryOf ctx = Some r" for r
    using assms(2) boundaryOf_in_ctxRefs [OF that] by (auto simp: knows_def)
  have kept: "cBirth ?c r = cBirth c r \<and> cEvents ?c r = cEvents c r" if "r \<in> set (locked c)" for r
  proof -
    have "r < wNext (cWorld c)" using hist that by (auto simp: historyInv_def)
    from historyInv_finished [OF hist this] that show ?thesis
      by (auto simp: noteEvent_def split: option.split)
  qed
  have "unbornInv ?c"
    using unborn ref assms(4) by (fastforce simp: unbornInv_def noteEvent_def split: option.split)
  moreover have "cPending ?c = cPending c" "cDone ?c = cDone c"
    by (simp_all add: noteEvent_def split: option.split)
  moreover have "sameSettings w0 w'"
    using assms(1,5,6) by (simp add: configInv_def sameSettings_def)
  ultimately show ?thesis
    using locked_history_kept [of c ?c] kept historyInv_event [OF hist assms(2-4)] assms(1,7)
    by (simp add: configInv_def)
qed

lemma configInv_txid:
  assumes "configInv w0 c"
  shows "configInv w0 (c\<lparr>cWorld := fst (nextTxID d (cWorld c))\<rparr>)"
proof -
  let ?w = "fst (nextTxID d (cWorld c))"
  have frame: "wHeap ?w = wHeap (cWorld c)" "wNext ?w = wNext (cWorld c)"
    "wAllowlists ?w = wAllowlists (cWorld c)" "wCalls ?w = wCalls (cWorld c)"
    by (simp_all add: nextTxID_def Let_def)
  have "\<exists>n. wDets ?w e = (wDets w0 e)\<lparr>dTxSeq := n\<rparr>" for e
  proof -
    obtain n where "wDets (cWorld c) e = (wDets w0 e)\<lparr>dTxSeq := n\<rparr>"
      using assms by (auto simp: configInv_def sameSettings_def)
    then show ?thesis by (auto simp: nextTxID_def Let_def)
  qed
  then have "sameSettings w0 ?w"
    using assms by (simp add: configInv_def sameSettings_def frame)
  moreover have "historyInv (c\<lparr>cWorld := ?w\<rparr>)"
    by (rule historyInv_other [of c]) (use assms in \<open>simp_all add: configInv_def historyInv_def locked_def frame\<close>)
  ultimately show ?thesis
    using locked_history_kept [of c "c\<lparr>cWorld := ?w\<rparr>"] assms
    by (simp add: configInv_def unbornInv_def frame)
qed

lemma configInv_lock:
  assumes "configInv w0 c" and "r < wNext (cWorld c)"
    and lock: "finishBoundaryLock r (cWorld c) = (w, snap)"
  shows "configInv w0 (c\<lparr>cWorld := w,
    cPending := (case snap of None \<Rightarrow> cPending c | Some s \<Rightarrow> (r, s) # cPending c)\<rparr>)"
proof -
  let ?c = "c\<lparr>cWorld := w,
    cPending := (case snap of None \<Rightarrow> cPending c | Some s \<Rightarrow> (r, s) # cPending c)\<rparr>"
  have hist: "historyInv c" using assms(1) by (simp add: configInv_def)
  have frame: "wNext w = wNext (cWorld c)" "wDets w = wDets (cWorld c)"
    "wAllowlists w = wAllowlists (cWorld c)" "wCalls w = wCalls (cWorld c)"
    using lock by (auto simp: finishBoundaryLock_def split: prod.splits)
  have same: "lived ?c = lived c" "verdict w0 ?c = verdict w0 c" "deliveries w0 ?c = deliveries w0 c"
    by (simp_all add: lived_def verdict_def deliveries_def fun_eq_iff)
  have "snd (finishLock (lived c r)) = Some s" if "snap = Some s" for s
  proof -
    have "\<not> bFinished (wHeap (cWorld c) r)"
      using lock that by (auto simp: finishBoundaryLock_def finishLock_def split: if_splits)
    with hist assms(2) have "wHeap (cWorld c) r = lived c r"
      using historyInv_finished [OF hist assms(2)] by (auto simp: historyInv_def)
    then show ?thesis
      using lock that by (auto simp: finishBoundaryLock_def split: prod.splits)
  qed
  then have "pendingInv ?c"
    using assms(1) by (auto simp: configInv_def pendingInv_def same split: option.split)
  moreover have "doneInv w0 ?c" "callsInv w0 ?c" "unbornInv ?c" "sameSettings w0 w"
    using assms(1)
    by (simp_all add: configInv_def doneInv_def callsInv_def unbornInv_def sameSettings_def same frame)
  ultimately show ?thesis
    using historyInv_lock [OF hist assms(2) lock] by (simp add: configInv_def)
qed

lemma configInv_report:
  assumes "configInv w0 c" and "cstep (ActFinishReport r) c = Some c'"
  shows "configInv w0 c'"
proof -
  let ?w = "cWorld c" and ?w' = "cWorld c'"
  have hist: "historyInv c" and settings: "sameSettings w0 ?w" and pend: "pendingInv c"
    using assms(1) by (simp_all add: configInv_def)
  obtain snap where snap: "map_of (cPending c) r = Some snap"
    using assms(2) by (auto split: option.splits)
  then have mem: "(r, snap) \<in> set (cPending c)" by (rule map_of_SomeD)
  then have r: "r \<in> set (locked c)" by (force simp: locked_def)
  then have bound: "r < wNext ?w" using hist by (auto simp: historyInv_def)
  have fresh: "freshBoundary (cBirth c r)" and heap: "wHeap ?w r = (lived c r)\<lparr>bFinished := True\<rparr>"
    using hist r bound by (auto simp: historyInv_def)
  have lockd: "snd (finishLock (lived c r)) = Some snap" using pend mem by (auto simp: pendingInv_def)
  have outcome: "snd (finishOutcome snap (wHeap ?w r) (allowlistOf ?w (wDets ?w (bDet (wHeap ?w r)))))
      = verdict w0 c r"
    using finish_gives_verdict [OF fresh settings lockd] by (simp add: heap)
  have c': "c' = c\<lparr>cWorld := finishBoundaryReport r snap ?w,
      cPending := filter (\<lambda>p. fst p \<noteq> r) (cPending c), cDone := cDone c @ [(r, verdict w0 c r)]\<rparr>"
    using assms(2) snap outcome by (simp add: Let_def)
  have same: "lived c' = lived c" "verdict w0 c' = verdict w0 c" "deliveries w0 c' = deliveries w0 c"
    by (simp_all add: lived_def verdict_def deliveries_def fun_eq_iff c')
  have calls: "wCalls ?w' = wCalls ?w @ deliveries w0 c (r, verdict w0 c r)"
    using finishBoundaryReport_calls [of r snap ?w] outcome notify_settings [OF settings]
    by (simp add: c' deliveries_def boundaryCtx_def heap Let_def lived_def frame_rules
        split: option.split)
  have all_finish: "finishCalls (deliveries w0 c (r, verdict w0 c r)) = deliveries w0 c (r, verdict w0 c r)"
    by (cases "verdict w0 c r")
      (simp_all add: deliveries_def finishCalls_notify verdict_isFinishReport Let_def, simp add: finishCalls_def)
  have set_locked: "set (locked c') = set (locked c)"
    using r by (auto simp: locked_def c')
  have "distinct (locked c')"
  proof -
    have parts: "distinct (map fst (cPending c))" "distinct (map fst (cDone c))"
      "fst ` set (cPending c) \<inter> fst ` set (cDone c) = {}"
      using hist by (simp_all add: historyInv_def locked_def)
    moreover have "r \<in> fst ` set (cPending c)" using mem by force
    moreover have "fst ` set (filter (\<lambda>p. fst p \<noteq> r) (cPending c)) = fst ` set (cPending c) - {r}"
      by auto
    ultimately have "distinct (map fst (filter (\<lambda>p. fst p \<noteq> r) (cPending c)) @ map fst (cDone c) @ [r])"
      using distinct_map_fst_filter [OF parts(1)] by (simp del: set_filter) blast
    then show ?thesis by (simp add: locked_def c')
  qed
  moreover have "cBirth c' = cBirth c" "cEvents c' = cEvents c" "wNext ?w' = wNext ?w"
    "wHeap ?w' = wHeap ?w"
    by (simp_all add: c' frame_rules)
  ultimately have "historyInv c'"
    using set_locked by (intro historyInv_other [OF hist]) assumption+
  moreover have sub: "set (cPending c') \<subseteq> set (cPending c)"
    and dn: "cDone c' = cDone c @ [(r, verdict w0 c r)]"
    by (auto simp: c')
  moreover have "pendingInv c'"
    using pend sub unfolding pendingInv_def same by blast
  moreover have "doneInv w0 c'"
    using assms(1) unfolding configInv_def doneInv_def same dn by simp
  moreover have "callsInv w0 c'"
    using assms(1) by (simp add: configInv_def callsInv_def calls all_finish same) (simp add: c')
  moreover have "unbornInv c'" "sameSettings w0 ?w'"
    using assms(1) sameSettings_report [OF settings]
    by (simp_all add: configInv_def unbornInv_def c' frame_rules)
  ultimately show ?thesis by (simp add: configInv_def)
qed

lemma configInv_step:
  assumes "configInv w0 c" and "cstep a c = Some c'"
  shows "configInv w0 c'"
proof (cases a)
  case (ActStart d ctx name opts now)
  with assms show ?thesis using configInv_start by blast
next
  case (ActRecord d ctx q k t now)
  let ?rec = "\<lparr>srQuery = q, srKind = k, srTxID = t, srTime = now, srAttrs = []\<rparr>"
  have "finishCalls (wCalls (recordStatement d ctx q k t now (cWorld c))) = finishCalls (wCalls (cWorld c))"
    by (simp add: recordStatement_def Let_def frame_rules finishCalls_notify split: option.split)
  with ActRecord assms show ?thesis
    by (auto split: if_splits intro!: configInv_event simp: frame_rules recordStatement_heap fun_eq_iff
        split: option.split)
next
  case (ActMark ctx reason units)
  with assms show ?thesis
    by (auto split: if_splits intro!: configInv_event simp: frame_rules AllowNonAtomicHere_def
        split: option.split)
next
  case (ActTxID d)
  with assms configInv_txid show ?thesis by auto
next
  case (ActFinishLock r)
  obtain w snap where "finishBoundaryLock r (cWorld c) = (w, snap)"
    by (cases "finishBoundaryLock r (cWorld c)")
  with ActFinishLock assms configInv_lock [OF assms(1)] show ?thesis
    by (auto split: if_splits)
next
  case (ActFinishReport r)
  with assms show ?thesis using configInv_report by blast
qed

lemma configInv_initial: "wNext w0 = 0 \<Longrightarrow> configInv w0 (initialConfig w0)"
proof -
  assume "wNext w0 = 0"
  have "wDets w0 d = (wDets w0 d)\<lparr>dTxSeq := dTxSeq (wDets w0 d)\<rparr>" for d by simp
  then have "sameSettings w0 w0" unfolding sameSettings_def by blast
  with \<open>wNext w0 = 0\<close> show ?thesis
    by (simp add: configInv_def historyInv_def pendingInv_def doneInv_def unbornInv_def callsInv_def
        initialConfig_def locked_def)
qed

lemma reachable_configInv: "reachable w0 c \<Longrightarrow> configInv w0 c"
  by (induction rule: reachable.induct) (simp_all add: configInv_initial configInv_step)

text \<open>A schedule: a list of steps, each of which must be possible.\<close>

fun runActions :: "Action list \<Rightarrow> Config \<Rightarrow> Config option" where
  "runActions [] c = Some c"
| "runActions (a # as) c = (case cstep a c of None \<Rightarrow> None | Some c' \<Rightarrow> runActions as c')"

lemma runActions_reachable: "reachable w0 c \<Longrightarrow> runActions as c = Some c' \<Longrightarrow> reachable w0 c'"
  by (induction as arbitrary: c) (auto split: option.splits intro: reachable.step)

end
