(* ===== verification/Verdicts.thy ===== *)
theory Verdicts
  imports Timeline
begin

text \<open>
  What the invariant of theory Timeline gives: the verdict of a boundary under every interleaving, that a
  finished boundary is left alone, and that from every reachable configuration the finishes still to come
  judge every boundary.
\<close>

section \<open>Properties\<close>

text \<open>C1. Under any interleaving of goroutines, each boundary is judged at most once, and the outcome
  is the documented verdict on exactly the statements and marks that reached it before its locked
  finish step: what other boundaries do, what arrives late, and how long the finish waits for its
  second step make no difference. The violation and stale-allow calls the reporters got are those
  outcomes, each delivered once to every reporter that implements it, in the order of completion.\<close>

theorem every_interleaving_gives_the_verdict:
  assumes "reachable w0 c"
  shows "distinct (map fst (cDone c)) \<and>
    list_all (\<lambda>(r, out). out = verdict w0 c r) (cDone c) \<and>
    finishCalls (wCalls (cWorld c)) = finishCalls (wCalls w0) @ concat (map (deliveries w0 c) (cDone c))"
  using reachable_configInv [OF assms]
  by (auto simp: configInv_def historyInv_def locked_def doneInv_def callsInv_def list_all_iff)

definition sampleWorld :: World where
  "sampleWorld = \<lparr>wDets = (\<lambda>_. New [WithReporter [\<lparr>rRef = 1, rIface = allIfaces\<rparr>]]),
     wHeap = (\<lambda>_. newBoundary 0 Background []), wNext = 0,
     wAllowlists = (\<lambda>_. NewAllowlist), wCalls = []\<rparr>"

definition sampleSchedule :: "Action list" where
  "sampleSchedule = [ActStart 0 Background ''Job'' [] 0,
     ActRecord 0 (CtxBoundary 0 Background) ''DELETE FROM t'' KindWrite 0 1,
     ActRecord 0 (CtxBoundary 0 Background) ''DELETE FROM u'' KindWrite 0 2,
     ActFinishLock 0,
     ActRecord 0 (CtxBoundary 0 Background) ''DELETE FROM v'' KindWrite 0 3,
     ActFinishReport 0]"

lemma sampleSchedule_runs:
  obtains c where "runActions sampleSchedule (initialConfig sampleWorld) = Some c" "map fst (cDone c) = [0]"
    "reachable sampleWorld c"
proof -
  have "map_option (\<lambda>c. map fst (cDone c)) (runActions sampleSchedule (initialConfig sampleWorld))
      = Some [0]"
    by code_simp
  then obtain c where c: "runActions sampleSchedule (initialConfig sampleWorld) = Some c"
    "map fst (cDone c) = [0]" by auto
  moreover have "reachable sampleWorld c"
    using runActions_reachable [OF reachable.init c(1)] by (simp add: sampleWorld_def)
  ultimately show thesis by (rule that)
qed

theorem every_interleaving_gives_the_verdict_witness:
  "(case runActions sampleSchedule (initialConfig sampleWorld) of None \<Rightarrow> False
    | Some c \<Rightarrow> map fst (cDone c) = [0] \<and>
        list_all (\<lambda>(r, out). out = verdict sampleWorld c r) (cDone c))"
proof -
  obtain c where c: "runActions sampleSchedule (initialConfig sampleWorld) = Some c"
    "map fst (cDone c) = [0]" "reachable sampleWorld c" by (rule sampleSchedule_runs)
  with every_interleaving_gives_the_verdict [OF c(3)] show ?thesis by simp
qed

text \<open>C23. A boundary that is finished is immutable: once its locked step is over, no reachable step
  changes it, so the statements a finish reads without the lock are those it counted.\<close>

theorem finished_boundary_is_immutable:
  assumes "reachable w0 c" and "r < wNext (cWorld c)" and "bFinished (wHeap (cWorld c) r)"
    and "cstep a c = Some c'"
  shows "wHeap (cWorld c') r = wHeap (cWorld c) r \<and> cEvents c' r = cEvents c r"
proof -
  note inv = reachable_configInv [OF assms(1)]
  then have hist: "historyInv c" by (simp add: configInv_def)
  show ?thesis
  proof (cases a)
    case (ActStart d ctx name opts now)
    obtain w ctx' s where start: "StartBoundary d ctx name opts now (cWorld c) = (w, ctx', s)"
      by (cases "StartBoundary d ctx name opts now (cWorld c)") auto
    have "c' = c\<lparr>cWorld := w, cBirth := (cBirth c)(s := wHeap w s)\<rparr>"
      using assms(4) ActStart start by (auto split: if_splits)
    with StartBoundary_frame(4) [OF start, of r] assms(2) show ?thesis by simp
  next
    case (ActRecord d ctx q k t now)
    with assms(3,4) show ?thesis
      by (auto simp: recordStatement_heap recordIn_def noteEvent_def split: if_splits option.splits)
  next
    case (ActMark ctx reason units)
    with assms(3,4) show ?thesis
      by (auto simp: AllowNonAtomicHere_def markHere_def noteEvent_def split: if_splits option.splits)
  next
    case (ActTxID d)
    with assms(4) show ?thesis by (auto simp: nextTxID_def Let_def)
  next
    case (ActFinishLock s)
    with assms(3,4) show ?thesis
      by (cases "s = r") (auto simp: finishBoundaryLock_def finishLock_def split: if_splits)
  next
    case (ActFinishReport s)
    with assms(4) show ?thesis by (auto simp: frame_rules Let_def split: option.splits)
  qed
qed

theorem finished_boundary_is_immutable_witness:
  "(case runActions sampleSchedule (initialConfig sampleWorld) of None \<Rightarrow> False
    | Some c \<Rightarrow> (case cstep (ActMark (CtxBoundary 0 Background) ''TICKET-1'' []) c of None \<Rightarrow> False
        | Some c' \<Rightarrow> wHeap (cWorld c') 0 = wHeap (cWorld c) 0))"
proof -
  obtain c where c: "runActions sampleSchedule (initialConfig sampleWorld) = Some c"
    "map fst (cDone c) = [0]" "reachable sampleWorld c" by (rule sampleSchedule_runs)
  have hist: "historyInv c" using reachable_configInv [OF c(3)] by (simp add: configInv_def)
  have locked0: "0 \<in> set (locked c)" using c(2) by (auto simp: locked_def)
  with hist have born: "0 < wNext (cWorld c)" by (auto simp: historyInv_def)
  with locked0 have fin: "bFinished (wHeap (cWorld c) 0)" using historyInv_finished [OF hist] by simp
  obtain c' where step: "cstep (ActMark (CtxBoundary 0 Background) ''TICKET-1'' []) c = Some c'"
    using born by (simp add: knows_def)
  show ?thesis
    using finished_boundary_is_immutable [OF c(3) born fin step] by (simp only: c(1) step option.case)
qed

section \<open>Every boundary can be judged\<close>

lemma runActions_append:
  "runActions (as @ bs) c = (case runActions as c of None \<Rightarrow> None | Some c' \<Rightarrow> runActions bs c')"
  by (induction as arbitrary: c) (simp_all split: option.split)

definition judged :: "Config \<Rightarrow> BoundaryRef set" where
  "judged c = fst ` set (cDone c)"

lemma judge_pending:
  assumes "r \<in> fst ` set (cPending c)"
  obtains c' where "runActions [ActFinishReport r] c = Some c'" "judged c' = insert r (judged c)"
    "wNext (cWorld c') = wNext (cWorld c)"
proof -
  obtain snap where "map_of (cPending c) r = Some snap"
    using assms by (metis gm_get_None_iff not_None_eq)
  then show thesis
    using that by (simp add: judged_def Let_def frame_rules)
qed

text \<open>From a reachable configuration a boundary is judged by at most two steps of its own finish.\<close>

lemma judge_one:
  assumes "historyInv c" and r: "r < wNext (cWorld c)"
  obtains as c' where "set as \<subseteq> {ActFinishLock r, ActFinishReport r}" "runActions as c = Some c'"
    "judged c' = insert r (judged c)" "wNext (cWorld c') = wNext (cWorld c)"
proof (cases "r \<in> set (locked c)")
  case True
  then consider "r \<in> fst ` set (cPending c)" | "r \<in> judged c" by (auto simp: locked_def judged_def)
  then show thesis
  proof cases
    case 1
    then obtain c' where "runActions [ActFinishReport r] c = Some c'" "judged c' = insert r (judged c)"
      "wNext (cWorld c') = wNext (cWorld c)" by (rule judge_pending)
    then show thesis by (intro that [of "[ActFinishReport r]" c']) simp_all
  next
    case 2
    then show thesis by (intro that [of "[]" c]) auto
  qed
next
  case False
  then have live: "\<not> bFinished (wHeap (cWorld c) r)" using historyInv_finished [OF assms] by simp
  obtain w s where lock: "finishBoundaryLock r (cWorld c) = (w, Some s)" "wNext w = wNext (cWorld c)"
    using live by (auto simp: finishBoundaryLock_def finishLock_def)
  let ?c = "c\<lparr>cWorld := w, cPending := (r, s) # cPending c\<rparr>"
  have step: "cstep (ActFinishLock r) c = Some ?c" using lock r by simp
  have pending: "r \<in> fst ` set (cPending ?c)" by simp
  obtain c' where report: "runActions [ActFinishReport r] ?c = Some c'" "judged c' = insert r (judged ?c)"
    "wNext (cWorld c') = wNext (cWorld ?c)" using pending by (rule judge_pending)
  have "runActions [ActFinishLock r, ActFinishReport r] c = runActions [ActFinishReport r] ?c"
    unfolding runActions.simps(2) [of "ActFinishLock r"] step by simp
  with report lock(2) show thesis
    by (intro that [of "[ActFinishLock r, ActFinishReport r]" c']) (simp_all add: judged_def)
qed

definition isFinishAction :: "Action \<Rightarrow> bool" where
  "isFinishAction a \<longleftrightarrow> (case a of ActFinishLock r \<Rightarrow> True | ActFinishReport r \<Rightarrow> True | _ \<Rightarrow> False)"

lemma judge_below:
  "reachable w0 c \<Longrightarrow> n \<le> wNext (cWorld c) \<Longrightarrow>
   \<exists>as c'. list_all isFinishAction as \<and> runActions as c = Some c' \<and> {..<n} \<subseteq> judged c' \<and>
     wNext (cWorld c') = wNext (cWorld c)"
proof (induction n)
  case 0
  show ?case by (intro exI [of _ "[]"] exI [of _ c]) simp
next
  case (Suc n)
  then obtain as c1 where as: "list_all isFinishAction as" "runActions as c = Some c1"
    "{..<n} \<subseteq> judged c1" "wNext (cWorld c1) = wNext (cWorld c)" by auto
  have "historyInv c1"
    using reachable_configInv [OF runActions_reachable [OF Suc.prems(1) as(2)]] by (simp add: configInv_def)
  then obtain bs c2 where bs: "set bs \<subseteq> {ActFinishLock n, ActFinishReport n}" "runActions bs c1 = Some c2"
    "judged c2 = insert n (judged c1)" "wNext (cWorld c2) = wNext (cWorld c1)"
    using judge_one [of c1 n] Suc.prems(2) as(4) by (metis Suc_le_lessD)
  have "list_all isFinishAction bs" using bs(1) by (auto simp: list_all_iff isFinishAction_def)
  with as bs show ?case
    by (intro exI [of _ "as @ bs"] exI [of _ c2]) (auto simp: runActions_append lessThan_Suc)
qed

text \<open>C14. No schedule can make a boundary unfinishable: from every reachable configuration there is a
  continuation, by finish steps alone, after which every boundary started so far has been judged,
  and its verdict is the documented one.\<close>

theorem every_boundary_can_be_judged:
  assumes "reachable w0 c"
  shows "\<exists>as c'. list_all isFinishAction as \<and> runActions as c = Some c' \<and>
    wNext (cWorld c') = wNext (cWorld c) \<and> {..<wNext (cWorld c)} \<subseteq> fst ` set (cDone c') \<and>
    list_all (\<lambda>(r, out). out = verdict w0 c' r) (cDone c')"
proof -
  obtain as c' where as: "list_all isFinishAction as" "runActions as c = Some c'"
    "{..<wNext (cWorld c)} \<subseteq> judged c'" "wNext (cWorld c') = wNext (cWorld c)"
    using judge_below [OF assms order_refl] by auto
  have "doneInv w0 c'"
    using reachable_configInv [OF runActions_reachable [OF assms as(2)]] by (simp add: configInv_def)
  then have "list_all (\<lambda>(r, out). out = verdict w0 c' r) (cDone c')"
    by (auto simp: doneInv_def list_all_iff)
  with as show ?thesis unfolding judged_def by blast
qed

theorem every_boundary_can_be_judged_witness:
  "(case runActions (take 3 sampleSchedule) (initialConfig sampleWorld) of None \<Rightarrow> False
    | Some c \<Rightarrow> wNext (cWorld c) = 1 \<and> cDone c = [] \<and>
        (\<exists>as c'. runActions as c = Some c' \<and> 0 \<in> fst ` set (cDone c')))"
proof -
  have "map_option (\<lambda>c. (wNext (cWorld c), map fst (cDone c)))
      (runActions (take 3 sampleSchedule) (initialConfig sampleWorld)) = Some (1, [])"
    by code_simp
  then obtain c where c: "runActions (take 3 sampleSchedule) (initialConfig sampleWorld) = Some c"
    "wNext (cWorld c) = 1" "cDone c = []" by auto
  have "reachable sampleWorld c"
    using runActions_reachable [OF reachable.init c(1)] by (simp add: sampleWorld_def)
  from every_boundary_can_be_judged [OF this] c show ?thesis by (auto simp: subset_iff)
qed

end
