(* ===== verification/WorldTyping.thy ===== *)
theory WorldTyping
  imports Verdicts
begin

text \<open>
  The types of the state that Go's own types do not state: which references exist, which lists are
  well formed, and what a report says about the boundary it is delivered with. \<open>boundaryTyped\<close> and
  \<open>reportTyped\<close> are the typing rules of boundaries and reports in a world, \<open>callTyped\<close> of a call made on a
  reporter; \<open>evolves\<close> is the order in which worlds grow. Every rule is stable under growth, and every
  critical section of the detector keeps a configuration well typed.
\<close>

section \<open>Growth\<close>

definition evolves :: "World \<Rightarrow> World \<Rightarrow> bool" where
  "evolves w w' \<longleftrightarrow>
     wNext w \<le> wNext w' \<and>
     (\<forall>r < wNext w. bName (wHeap w' r) = bName (wHeap w r) \<and> bParent (wHeap w' r) = bParent (wHeap w r) \<and>
        (bFinished (wHeap w r) \<longrightarrow> wHeap w' r = wHeap w r)) \<and>
     (\<forall>d. dReporters (wDets w' d) = dReporters (wDets w d))"

lemma evolves_refl: "evolves w w"
  by (simp add: evolves_def)

lemma evolves_heap_kept:
  "wHeap w' = wHeap w \<Longrightarrow> wNext w' = wNext w \<Longrightarrow> (\<And>d. dReporters (wDets w' d) = dReporters (wDets w d)) \<Longrightarrow>
   evolves w w'"
  by (simp add: evolves_def)

lemma evolves_start:
  "StartBoundary d ctx name opts now w = (w', ctx', r) \<Longrightarrow> evolves w w'"
  using StartBoundary_frame [of d ctx name opts now w w' ctx' r] by (simp add: evolves_def)

lemma evolves_record: "evolves w (recordStatement d ctx q k t now w)"
  by (simp add: evolves_def frame_rules recordStatement_heap split: option.split) (simp add: recordIn_def)

lemma evolves_mark: "evolves w (AllowNonAtomicHere ctx reason units w)"
  by (simp add: evolves_def AllowNonAtomicHere_def frame_rules split: option.split)
    (simp add: markHere_def)

lemma evolves_txid: "evolves w (fst (nextTxID d w))"
  by (simp add: evolves_def nextTxID_def Let_def)

lemma evolves_lock: "finishBoundaryLock r w = (w', snap) \<Longrightarrow> evolves w w'"
  by (auto simp: evolves_def finishBoundaryLock_def finishLock_def split: if_splits)

lemma evolves_report: "evolves w (finishBoundaryReport r snap w)"
  by (intro evolves_heap_kept) (simp_all add: frame_rules)

lemmas evolves_steps = evolves_start evolves_record evolves_mark evolves_txid evolves_lock evolves_report

section \<open>Typing rules\<close>

text \<open>A boundary: its context chain holds older boundaries only, the tally is well formed and free of the
  identity of auto-commit mode, statement records carry no attributes of their own, and no unit is
  counted without a statement that was recorded or counted as truncated.\<close>

definition boundaryTyped :: "BoundaryRef \<Rightarrow> Boundary \<Rightarrow> bool" where
  "boundaryTyped r b \<longleftrightarrow>
     (\<forall>s \<in> ctxRefs (bParent b). s < r) \<and> tallyInv b \<and> 0 \<notin> writeTxs b \<and>
     list_all (\<lambda>s. srAttrs s = []) (bStatements b) \<and>
     boundaryUnits b \<le> length (bStatements b) + bTruncated b"

text \<open>A report, against the context it is delivered with.\<close>

fun reportTyped :: "World \<Rightarrow> Ctx \<Rightarrow> Report \<Rightarrow> bool" where
  "reportTyped w ctx (ReportViolation v) =
     (case boundaryOf ctx of None \<Rightarrow> False
      | Some r \<Rightarrow> let b = wHeap w r in
          bFinished b \<and> vBoundary v = bName b \<and> vAttrs v = bAttrs b \<and> vStatements v = bStatements b \<and>
          vTruncatedStatements v = int (bTruncated b) \<and> vWriteUnits v = int (boundaryUnits b) \<and>
          2 \<le> vWriteUnits v \<and> vWriteUnits v \<notin> set (vAllowedWriteUnits v))"
| "reportTyped w ctx (ReportStaleAllow s) =
     (case boundaryOf ctx of None \<Rightarrow> False
      | Some r \<Rightarrow> let b = wHeap w r in
          bFinished b \<and> bAllowed b \<and> saBoundary s = bName b \<and> saReason s = bAllowReason b \<and>
          saWriteUnits s = int (boundaryUnits b) \<and> saWriteUnits s < 2)"
| "reportTyped w ctx (ReportUnboundedWrite s) = (boundaryOf ctx = None \<and> srKind s = KindWrite)"
| "reportTyped w ctx (ReportNestedBoundary n) =
     (case boundaryOf ctx of None \<Rightarrow> False | Some r \<Rightarrow> nbOuter n = bName (wHeap w r))"

definition reporterOf :: "World \<Rightarrow> nat \<Rightarrow> Report \<Rightarrow> bool" where
  "reporterOf w ref rep \<longleftrightarrow>
     (\<exists>d. \<exists>R \<in> set (dReporters (wDets w d)). rRef R = ref \<and> implements (rIface R) rep)"

definition callTyped :: "World \<Rightarrow> ReporterCall \<Rightarrow> bool" where
  "callTyped w call =
     (case call of (ref, ctx, rep) \<Rightarrow> knows w ctx \<and> reportTyped w ctx rep \<and> reporterOf w ref rep)"

text \<open>What a finish between its two steps has read is still what its boundary holds.\<close>

definition snapTyped :: "World \<Rightarrow> BoundaryRef \<times> FinishSnap \<Rightarrow> bool" where
  "snapTyped w rs =
     (case rs of (r, snap) \<Rightarrow>
        let b = wHeap w r in
        r < wNext w \<and> bFinished b \<and> fsUnits snap = int (boundaryUnits b) \<and> fsAllowed snap = bAllowed b \<and>
        fsAllowReason snap = bAllowReason b \<and> fsAllowUnits snap = bAllowUnits b)"

definition configTyped :: "Config \<Rightarrow> bool" where
  "configTyped c \<longleftrightarrow>
     (\<forall>r < wNext (cWorld c). boundaryTyped r (wHeap (cWorld c) r)) \<and>
     list_all (callTyped (cWorld c)) (wCalls (cWorld c)) \<and>
     list_all (snapTyped (cWorld c)) (cPending c)"

section \<open>Stability\<close>

lemma knows_boundary: "knows w ctx \<Longrightarrow> boundaryOf ctx = Some r \<Longrightarrow> r < wNext w"
  using boundaryOf_in_ctxRefs by (auto simp: knows_def)

lemma knows_evolves: "knows w ctx \<Longrightarrow> evolves w w' \<Longrightarrow> knows w' ctx"
  by (auto simp: knows_def evolves_def)

lemma reportTyped_evolves:
  "reportTyped w ctx rep \<Longrightarrow> knows w ctx \<Longrightarrow> evolves w w' \<Longrightarrow> reportTyped w' ctx rep"
  by (cases rep) (auto simp: evolves_def Let_def dest: knows_boundary split: option.splits)

lemma callTyped_evolves: "evolves w w' \<Longrightarrow> callTyped w call \<Longrightarrow> callTyped w' call"
  using reportTyped_evolves [of w] knows_evolves [of w]
  by (auto simp: callTyped_def reporterOf_def evolves_def split: prod.splits)

lemma snapTyped_evolves: "evolves w w' \<Longrightarrow> snapTyped w rs \<Longrightarrow> snapTyped w' rs"
  by (auto simp: snapTyped_def evolves_def Let_def split: prod.splits)

lemma notify_typed:
  assumes "knows w ctx" and "reportTyped w ctx rep" and "dReporters D = dReporters (wDets w d)"
  shows "list_all (callTyped w) (notify D ctx rep)"
  using assms by (auto simp: list_all_iff notify_def callTyped_def reporterOf_def)

text \<open>A step that keeps the boundaries typed, adds typed calls and typed snapshots keeps a configuration
  typed.\<close>

lemma configTyped_evolves:
  assumes "configTyped c" and ev: "evolves (cWorld c) (cWorld c')"
    and "\<And>r. r < wNext (cWorld c') \<Longrightarrow> boundaryTyped r (wHeap (cWorld c') r)"
    and "wCalls (cWorld c') = wCalls (cWorld c) @ calls" and "list_all (callTyped (cWorld c)) calls"
    and "set (cPending c') \<subseteq> set (cPending c) \<union> set snaps" and "list_all (snapTyped (cWorld c')) snaps"
  shows "configTyped c'"
  using assms callTyped_evolves [OF ev] snapTyped_evolves [OF ev]
  by (auto simp: configTyped_def list_all_iff)

section \<open>The operations keep boundaries typed\<close>

lemma noteWriteTx_count: "bWriteTxN (noteWriteTx t b) \<le> Suc (bWriteTxN b)"
  by (simp add: noteWriteTx_def Let_def)

lemma boundaryTyped_start:
  assumes "StartBoundary d ctx name opts now w = (w', ctx', r)" and "knows w ctx"
  shows "boundaryTyped (wNext w) (wHeap w' (wNext w))"
proof -
  let ?b = "wHeap w' (wNext w)"
  have fresh: "tallyInv ?b" "writeTxs ?b = {}" "bAutoCommitWrites ?b = 0"
    using freshBoundary_start [OF assms(1)] by (simp_all add: freshBoundary_def)
  then have "boundaryUnits ?b = 0" by (simp add: boundaryUnits_def tally.count_txs)
  moreover have "bParent ?b = ctx" "bStatements ?b = []"
    unfolding StartBoundary_frame(5) [OF assms(1)]
    by (simp_all add: frame_rules newBoundary_def split: option.split)
  ultimately show ?thesis
    using fresh assms(2) by (simp add: boundaryTyped_def knows_def)
qed

lemma boundaryTyped_record:
  assumes "boundaryTyped r b" and "srAttrs rec = []"
  shows "boundaryTyped r (recordIn m rec b)"
proof (cases "bFinished b")
  case True
  with assms show ?thesis by (simp add: recordIn_def)
next
  case False
  have tally: "tallyInv b" "0 \<notin> writeTxs b" using assms(1) by (simp_all add: boundaryTyped_def)
  note rules = recordIn_tally [OF tally(1) False, of m rec]
  have card: "boundaryUnits b' = card (writeTxs b') + bAutoCommitWrites b'" if "tallyInv b'" for b'
    using that by (simp add: boundaryUnits_def tally.count_txs)
  have "boundaryUnits (recordIn m rec b) \<le> Suc (boundaryUnits b)"
    using tally(1) by (simp add: card rules tally.finite_txs card_insert_if) (simp add: isWriteTx_def isAutoCommitWrite_def)
  then show ?thesis
    using assms tally rules(1,2) False
    by (auto simp: boundaryTyped_def recordIn_statements frame_rules isWriteTx_def)
qed

lemma boundaryTyped_mark: "boundaryTyped r b \<Longrightarrow> boundaryTyped r (markHere reason units b)"
proof -
  have "boundaryUnits (markHere reason units b) = boundaryUnits b"
    by (simp add: boundaryUnits_def markHere_def)
  then show "boundaryTyped r b \<Longrightarrow> boundaryTyped r (markHere reason units b)"
    by (simp add: boundaryTyped_def frame_rules)
qed

lemma boundaryTyped_finished: "boundaryTyped r (b\<lparr>bFinished := x\<rparr>) = boundaryTyped r b"
  using tally_fields [of "b\<lparr>bFinished := x\<rparr>" b] by (simp add: boundaryTyped_def boundaryUnits_def)

section \<open>The verdict of a finish is typed\<close>

lemma allowlistAllow_declines:
  "allowlistAllow n u a = (a', False, ds) \<Longrightarrow> u \<notin> set ds"
  by (auto simp: allowlistAllow_def coversWriteUnits_iff split: option.splits if_splits)

lemma finishOutcome_typed:
  assumes "snapTyped w (r, snap)" and "boundaryOf ctx = Some r"
    and "finishOutcome snap (wHeap w r) al = (al', Some rep)"
  shows "reportTyped w ctx rep"
proof -
  let ?b = "wHeap w r"
  consider (few) "fsUnits snap < 2" | (many) "2 \<le> fsUnits snap" by linarith
  then show ?thesis
  proof cases
    case few
    with assms show ?thesis
      by (auto simp: finishOutcome_def snapTyped_def Let_def split: if_splits)
  next
    case many
    let ?declined = "if fsAllowed snap then fsAllowUnits snap else []"
    have "fsUnits snap \<notin> set ds" if "allowlistAllow (bName ?b) (fsUnits snap) a = (a', False, ds)" for a a' ds
      using that by (rule allowlistAllow_declines)
    moreover have "fsUnits snap \<notin> set ?declined"
      using many assms(3) by (auto simp: finishOutcome_def coversWriteUnits_iff split: if_splits)
    ultimately show ?thesis
      using many assms
      by (auto simp: finishOutcome_def snapTyped_def Let_def split: if_splits option.splits prod.splits)
  qed
qed

section \<open>Every step keeps a configuration typed\<close>

lemma configTyped_start:
  assumes typed: "configTyped c" and "cstep (ActStart d ctx name opts now) c = Some c'"
  shows "configTyped c'"
proof -
  let ?w = "cWorld c"
  obtain w ctx' r where start: "StartBoundary d ctx name opts now ?w = (w, ctx', r)"
    by (cases "StartBoundary d ctx name opts now ?w") auto
  have knows: "knows ?w ctx" and c': "c' = c\<lparr>cWorld := w, cBirth := (cBirth c)(r := wHeap w r)\<rparr>"
    using assms(2) start by (auto split: if_splits)
  note ev = evolves_start [OF start]
  have "\<exists>calls. wCalls w = wCalls ?w @ calls \<and> list_all (callTyped ?w) calls"
  proof (cases "dReportNested (wDets ?w d) \<and> boundaryOf ctx \<noteq> None")
    case True
    then obtain outer where outer: "boundaryOf ctx = Some outer" by auto
    let ?n = "ReportNestedBoundary \<lparr>nbOuter = bName (wHeap ?w outer), nbInner = name, nbTime = now\<rparr>"
    have "list_all (callTyped ?w) (notify (wDets ?w d) ctx ?n)"
      by (rule notify_typed [OF knows]) (simp_all add: outer)
    then show ?thesis
      using start True outer by (auto simp: StartBoundary_def Let_def frame_rules)
  next
    case False
    then show ?thesis
      using start by (intro exI [of _ "[]"]) (auto simp: StartBoundary_def Let_def split: option.splits if_splits)
  qed
  then obtain calls where calls: "wCalls w = wCalls ?w @ calls" "list_all (callTyped ?w) calls" by blast
  have "boundaryTyped s (wHeap w s)" if "s < wNext w" for s
    using that typed boundaryTyped_start [OF start knows] StartBoundary_frame(3,4) [OF start]
    by (cases "s = wNext ?w") (auto simp: configTyped_def less_Suc_eq)
  then show ?thesis
    using ev calls by (intro configTyped_evolves [OF typed, where calls = calls and snaps = "[]"]) (simp_all add: c')
qed

lemma configTyped_record:
  assumes typed: "configTyped c" and "cstep (ActRecord d ctx q k t now) c = Some c'"
  shows "configTyped c'"
proof -
  let ?w = "cWorld c" and ?w' = "recordStatement d ctx q k t now (cWorld c)"
  have knows: "knows ?w ctx" and c': "cWorld c' = ?w'" "cPending c' = cPending c"
    using assms(2) by (auto simp: noteEvent_def split: if_splits option.splits)
  have "\<exists>calls. wCalls ?w' = wCalls ?w @ calls \<and> list_all (callTyped ?w) calls"
  proof (cases "boundaryOf ctx = None \<and> k = KindWrite \<and> dReportUnbounded (wDets ?w d)")
    case True
    let ?r = "\<lparr>srQuery = q, srKind = k, srTxID = t, srTime = now, srAttrs = []\<rparr>"
    let ?rec = "case dAttrsFunc (wDets ?w d) of None \<Rightarrow> ?r | Some f \<Rightarrow> ?r\<lparr>srAttrs := f ctx\<rparr>"
    have "list_all (callTyped ?w) (notify (wDets ?w d) ctx (ReportUnboundedWrite ?rec))"
      using True by (intro notify_typed [OF knows]) (simp_all split: option.split)
    moreover have "wCalls ?w' = wCalls ?w @ notify (wDets ?w d) ctx (ReportUnboundedWrite ?rec)"
      using True by (auto simp: recordStatement_def Let_def frame_rules)
    ultimately show ?thesis by blast
  next
    case False
    then show ?thesis
      by (intro exI [of _ "[]"]) (auto simp: recordStatement_def Let_def split: option.split)
  qed
  then obtain calls where calls: "wCalls ?w' = wCalls ?w @ calls" "list_all (callTyped ?w) calls" by blast
  have "boundaryTyped s (wHeap ?w' s)" if "s < wNext ?w'" for s
    using that typed
    by (auto simp: configTyped_def frame_rules recordStatement_heap boundaryTyped_record split: option.split)
  then show ?thesis
    using calls evolves_record
    by (intro configTyped_evolves [OF typed, where calls = calls and snaps = "[]"]) (simp_all add: c')
qed

lemma configTyped_mark:
  assumes typed: "configTyped c" and "cstep (ActMark ctx reason units) c = Some c'"
  shows "configTyped c'"
proof -
  have c': "cWorld c' = AllowNonAtomicHere ctx reason units (cWorld c)" "cPending c' = cPending c"
    using assms(2) by (auto simp: noteEvent_def split: if_splits option.splits)
  have "boundaryTyped s (wHeap (cWorld c') s)" if "s < wNext (cWorld c')" for s
    using that typed
    by (auto simp: c' configTyped_def frame_rules AllowNonAtomicHere_def boundaryTyped_mark split: option.splits)
  then show ?thesis
    using evolves_mark
    by (intro configTyped_evolves [OF typed, where calls = "[]" and snaps = "[]"]) (simp_all add: c' frame_rules)
qed

lemma configTyped_lock:
  assumes typed: "configTyped c" and "cstep (ActFinishLock r) c = Some c'"
  shows "configTyped c'"
proof -
  obtain w snap where lock: "finishBoundaryLock r (cWorld c) = (w, snap)"
    by (cases "finishBoundaryLock r (cWorld c)")
  have r: "r < wNext (cWorld c)" and c': "c' = c\<lparr>cWorld := w,
      cPending := (case snap of None \<Rightarrow> cPending c | Some s \<Rightarrow> (r, s) # cPending c)\<rparr>"
    using assms(2) lock by (auto split: if_splits)
  have "list_all (snapTyped w) (case snap of None \<Rightarrow> [] | Some s \<Rightarrow> [(r, s)])"
    using r lock
    by (auto simp: finishBoundaryLock_def finishLock_def snapTyped_def boundaryUnits_def split: if_splits)
  moreover have "boundaryTyped s (wHeap w s)" if "s < wNext w" for s
    using that typed lock
    by (auto simp: configTyped_def finishBoundaryLock_def finishLock_def boundaryTyped_finished split: if_splits)
  moreover have "wCalls w = wCalls (cWorld c)"
    using lock by (auto simp: finishBoundaryLock_def split: prod.splits)
  ultimately show ?thesis
    using evolves_lock [OF lock]
    by (intro configTyped_evolves [OF typed, where calls = "[]"
          and snaps = "case snap of None \<Rightarrow> [] | Some s \<Rightarrow> [(r, s)]"])
      (auto simp: c' split: option.split)
qed

lemma configTyped_report:
  assumes typed: "configTyped c" and "cstep (ActFinishReport r) c = Some c'"
  shows "configTyped c'"
proof -
  let ?w = "cWorld c" and ?b = "wHeap (cWorld c) r"
  let ?D = "wDets ?w (bDet ?b)"
  obtain snap where snap: "map_of (cPending c) r = Some snap"
    using assms(2) by (auto split: option.splits)
  let ?w' = "finishBoundaryReport r snap ?w" and ?out = "finishOutcome snap ?b (allowlistOf ?w ?D)"
  have c': "cWorld c' = ?w'" "set (cPending c') \<subseteq> set (cPending c)"
    using assms(2) snap by (auto simp: Let_def)
  have pending: "snapTyped ?w (r, snap)"
    using typed map_of_SomeD [OF snap] by (auto simp: configTyped_def list_all_iff)
  then have r: "r < wNext ?w" by (simp add: snapTyped_def Let_def)
  have ctx: "knows ?w (boundaryCtx ?w r)" "boundaryOf (boundaryCtx ?w r) = Some r"
    using typed r by (force simp: configTyped_def boundaryTyped_def boundaryCtx_def knows_def)+
  let ?calls = "case snd ?out of None \<Rightarrow> [] | Some rep \<Rightarrow> notify ?D (boundaryCtx ?w r) rep"
  have calls: "list_all (callTyped ?w) ?calls"
    using finishOutcome_typed [OF pending ctx(2), of "allowlistOf ?w ?D" "fst ?out"]
    by (cases "snd ?out") (auto intro!: notify_typed [OF ctx(1)] simp: prod_eq_iff)
  have "wCalls ?w' = wCalls ?w @ ?calls"
    by (simp add: finishBoundaryReport_calls Let_def)
  then show ?thesis
    using calls typed c' evolves_report
    by (intro configTyped_evolves [OF typed, where calls = ?calls and snaps = "[]"])
      (simp_all add: configTyped_def frame_rules)
qed

lemma configTyped_step:
  assumes "configTyped c" and "cstep a c = Some c'"
  shows "configTyped c'"
proof (cases a)
  case (ActTxID d)
  with assms(2) have c': "c' = c\<lparr>cWorld := fst (nextTxID d (cWorld c))\<rparr>" by simp
  show ?thesis
    using assms(1) evolves_txid
    by (intro configTyped_evolves [OF assms(1), where calls = "[]" and snaps = "[]"])
      (simp_all add: c' nextTxID_def Let_def configTyped_def)
qed (use assms in \<open>blast intro: configTyped_start configTyped_record configTyped_mark
      configTyped_lock configTyped_report\<close>)+

section \<open>Properties\<close>

text \<open>C13. Type soundness of the detector's state. In every configuration that any interleaving reaches: a
  boundary's context chain holds older boundaries only; its tally is well formed and never contains the
  identity of auto-commit mode; it never counts a unit without a statement that was kept or counted as
  truncated. Every call a reporter got went to a reporter that implements it, with a context of known
  boundaries, and its report is true of the boundary in that context as it is now: a violation names that
  finished boundary, its statements, truncation, attributes and units, which are two or more and not among
  the declined counts; a stale allow names a marked, finished boundary with fewer than two units; a nested
  report names the enclosing boundary; an unbounded write is a write without a boundary. A finish between
  its two steps has read what its boundary still holds.\<close>

theorem reachable_configurations_are_typed:
  assumes "reachable w0 c" and "wCalls w0 = []"
  shows "configTyped c"
  using assms
proof (induction rule: reachable.induct)
  case init
  then show ?case by (simp add: configTyped_def initialConfig_def)
next
  case (step c a c')
  then show ?case using configTyped_step by blast
qed

theorem reachable_configurations_are_typed_witness:
  "case runActions sampleSchedule (initialConfig sampleWorld) of None \<Rightarrow> False
   | Some c \<Rightarrow> map fst (cDone c) = [0] \<and> configTyped c"
proof -
  obtain c where c: "runActions sampleSchedule (initialConfig sampleWorld) = Some c"
    "map fst (cDone c) = [0]" "reachable sampleWorld c" by (rule sampleSchedule_runs)
  have "wCalls sampleWorld = []" by (simp add: sampleWorld_def)
  with reachable_configurations_are_typed [OF c(3)] c(1,2) show ?thesis by simp
qed

end
