(* ===== verification/Deliveries.thy ===== *)
theory Deliveries
  imports Verdicts
begin

text \<open>
  Reporter calls one by one. In theory Timeline a step issues all its reporter calls at once, while the loops
  over the reporters (\<open>finishBoundary\<close>, \<open>reportUnboundedWrite\<close> and \<open>StartBoundary\<close> of \<open>detector.go\<close>) run without
  a lock, so the calls of several goroutines interleave. Here a step of Timeline leaves the calls it issues as a
  batch, and each call of a batch is a step of its own, in the order of its loop; anything may happen
  between two calls. Every property of Timeline's configurations carries over, and the reporters still get, for
  each boundary, exactly the calls of its verdict, once and in order.
\<close>

section \<open>Steps\<close>

record FineConfig =
  fcConfig :: Config
  fcBatches :: "ReporterCall list list"
  fcMade :: "(nat \<times> ReporterCall) list"

definition madeOf :: "nat \<Rightarrow> (nat \<times> ReporterCall) list \<Rightarrow> ReporterCall list" where
  "madeOf i made = [x. (j, x) \<leftarrow> made, j = i]"

datatype FineAction = Issue Action | Deliver nat

fun fineStep :: "FineAction \<Rightarrow> FineConfig \<Rightarrow> FineConfig option" where
  "fineStep (Issue a) f =
     (case cstep a (fcConfig f) of
        None \<Rightarrow> None
      | Some c \<Rightarrow> Some (f\<lparr>fcConfig := c, fcBatches := fcBatches f @
          [drop (length (wCalls (cWorld (fcConfig f)))) (wCalls (cWorld c))]\<rparr>))"
| "fineStep (Deliver i) f =
     (let n = length (madeOf i (fcMade f)) in
      if i < length (fcBatches f) \<and> n < length (fcBatches f ! i)
      then Some (f\<lparr>fcMade := fcMade f @ [(i, fcBatches f ! i ! n)]\<rparr>) else None)"

inductive fineReachable :: "World \<Rightarrow> FineConfig \<Rightarrow> bool" for w0 where
  init: "wNext w0 = 0 \<Longrightarrow> fineReachable w0 \<lparr>fcConfig = initialConfig w0, fcBatches = [], fcMade = []\<rparr>"
| step: "fineReachable w0 f \<Longrightarrow> fineStep x f = Some f' \<Longrightarrow> fineReachable w0 f'"

fun_cases fineStep_IssueE: "fineStep (Issue a) f = Some f'"
fun_cases fineStep_DeliverE: "fineStep (Deliver i) f = Some f'"

section \<open>The calls a step issues\<close>

text \<open>The calls a finish makes for boundary \<open>r\<close>.\<close>

definition callFor :: "BoundaryRef \<Rightarrow> ReporterCall \<Rightarrow> bool" where
  "callFor r call \<longleftrightarrow> (case call of (ref, ctx, rep) \<Rightarrow> isFinishReport rep \<and> boundaryOf ctx = Some r)"

lemma callFor_finishCalls: "filter (callFor r) (finishCalls xs) = filter (callFor r) xs"
  by (induction xs) (auto simp: finishCalls_def callFor_def split: if_splits)

lemma callFor_notify:
  "filter (callFor r) (notify D ctx rep) =
    (if isFinishReport rep \<and> boundaryOf ctx = Some r then notify D ctx rep else [])"
  by (auto simp: notify_def callFor_def filter_map comp_def)

lemma callFor_deliveries:
  assumes "out = verdict w0 c s"
  shows "filter (callFor r) (deliveries w0 c (s, out)) = (if s = r then deliveries w0 c (s, out) else [])"
  using verdict_isFinishReport [of w0 c s] assms
  by (auto simp: deliveries_def callFor_notify Let_def split: option.split)

lemma StartBoundary_issues:
  assumes "StartBoundary d ctx name opts now w = (w', c, b)"
  shows "\<exists>new. wCalls w' = wCalls w @ new \<and> (\<forall>r. filter (callFor r) new = [])"
  using assms by (auto simp: StartBoundary_def callFor_notify Let_def frame_rules split: if_splits option.splits)

lemma recordStatement_issues:
  "\<exists>new. wCalls (recordStatement d ctx q k t now w) = wCalls w @ new \<and> (\<forall>r. filter (callFor r) new = [])"
  by (auto simp: recordStatement_def callFor_notify Let_def frame_rules split: option.split)

lemma finishBoundaryReport_issues:
  "\<exists>new. wCalls (finishBoundaryReport s snap w) = wCalls w @ new \<and> (\<forall>r. s \<noteq> r \<longrightarrow> filter (callFor r) new = [])"
  unfolding finishBoundaryReport_calls
  by (intro exI conjI, rule refl) (auto simp: callFor_notify boundaryCtx_def Let_def split: option.split)

lemma cstep_issues:
  assumes "cstep a c = Some c'"
  shows "\<exists>new. wCalls (cWorld c') = wCalls (cWorld c) @ new \<and>
    (\<forall>r. a \<noteq> ActFinishReport r \<longrightarrow> filter (callFor r) new = [])"
proof (cases a)
  case (ActStart d ctx name opts now)
  obtain w b r where start: "StartBoundary d ctx name opts now (cWorld c) = (w, b, r)"
    by (cases "StartBoundary d ctx name opts now (cWorld c)") auto
  then have "cWorld c' = w" using assms by (auto simp: ActStart split: if_splits)
  with StartBoundary_issues [OF start] show ?thesis by blast
next
  case (ActRecord d ctx q k t now)
  then have "cWorld c' = recordStatement d ctx q k t now (cWorld c)" using assms by (auto split: if_splits)
  with recordStatement_issues [of d ctx q k t now "cWorld c"] show ?thesis by auto
next
  case (ActMark ctx reason units)
  then have "wCalls (cWorld c') = wCalls (cWorld c)" using assms by (auto simp: frame_rules split: if_splits)
  then show ?thesis by simp
next
  case (ActTxID d)
  then have "wCalls (cWorld c') = wCalls (cWorld c)" using assms by (auto simp: nextTxID_def Let_def)
  then show ?thesis by simp
next
  case (ActFinishLock s)
  then have "wCalls (cWorld c') = wCalls (cWorld c)"
    using assms by (auto simp: finishBoundaryLock_def split: if_splits prod.splits)
  then show ?thesis by simp
next
  case (ActFinishReport s)
  then obtain snap where "cWorld c' = finishBoundaryReport s snap (cWorld c)"
    using assms by (auto simp: Let_def split: option.splits)
  with finishBoundaryReport_issues [of s snap "cWorld c"] ActFinishReport show ?thesis by auto
qed

lemma cstep_calls:
  "cstep a c = Some c' \<Longrightarrow> wCalls (cWorld c') = wCalls (cWorld c) @ new \<Longrightarrow> a \<noteq> ActFinishReport r \<Longrightarrow>
   filter (callFor r) new = []"
  using cstep_issues by fastforce

text \<open>A boundary that is judged was pending.\<close>

lemma report_step_new:
  assumes "reachable w0 c" and "cstep (ActFinishReport r) c = Some c'"
  shows "r \<notin> fst ` set (cDone c)"
proof -
  have "r \<in> fst ` set (cPending c)"
    using assms(2) by (auto dest!: map_of_SomeD intro: rev_image_eqI split: option.splits)
  then show ?thesis
    using reachable_configInv [OF assms(1)] by (auto simp: configInv_def historyInv_def locked_def)
qed

text \<open>All calls so far for a boundary are those of its verdict, if it was judged.\<close>

lemma calls_for_boundary:
  assumes "reachable w0 c"
  shows "filter (callFor r) (wCalls (cWorld c)) = filter (callFor r) (wCalls w0) @
    (if r \<in> fst ` set (cDone c) then deliveries w0 c (r, verdict w0 c r) else [])"
proof -
  have dist: "distinct (map fst (cDone c))" and outs: "list_all (\<lambda>(r, out). out = verdict w0 c r) (cDone c)"
    and calls: "finishCalls (wCalls (cWorld c)) = finishCalls (wCalls w0) @ concat (map (deliveries w0 c) (cDone c))"
    using reachable_configInv [OF assms]
    by (auto simp: configInv_def historyInv_def locked_def doneInv_def callsInv_def list_all_iff)
  have "filter (callFor r) (concat (map (deliveries w0 c) ds)) =
      (if r \<in> fst ` set ds then deliveries w0 c (r, verdict w0 c r) else [])"
    if "distinct (map fst ds)" "list_all (\<lambda>(r, out). out = verdict w0 c r) ds" for ds
    using that
  proof (induction ds)
    case (Cons ro ds)
    then show ?case by (cases ro) (auto simp: callFor_deliveries)
  qed simp
  from this [OF dist outs] show ?thesis
    using arg_cong [OF calls, of "filter (callFor r)"] by (simp add: callFor_finishCalls)
qed

section \<open>The invariant\<close>

definition batchesInv :: "World \<Rightarrow> FineConfig \<Rightarrow> bool" where
  "batchesInv w0 f \<longleftrightarrow>
     reachable w0 (fcConfig f) \<and>
     wCalls (cWorld (fcConfig f)) = wCalls w0 @ concat (fcBatches f) \<and>
     (\<forall>i < length (fcBatches f). prefix (madeOf i (fcMade f)) (fcBatches f ! i)) \<and>
     (\<forall>p \<in> set (fcMade f). fst p < length (fcBatches f)) \<and>
     (\<forall>r i j. i < length (fcBatches f) \<longrightarrow> j < length (fcBatches f) \<longrightarrow>
        filter (callFor r) (fcBatches f ! i) \<noteq> [] \<longrightarrow> filter (callFor r) (fcBatches f ! j) \<noteq> [] \<longrightarrow> i = j)"

lemma madeOf_simps [simp]:
  "madeOf i [] = []" "madeOf i (made @ [(j, x)]) = (if j = i then madeOf i made @ [x] else madeOf i made)"
  by (simp_all add: madeOf_def)

lemma madeOf_mem: "p \<in> set made \<Longrightarrow> snd p \<in> set (madeOf (fst p) made)"
proof (induction made rule: rev_induct)
  case (snoc q made)
  then show ?case by (cases q) auto
qed simp

lemma madeOf_none: "\<forall>p \<in> set made. fst p \<noteq> i \<Longrightarrow> madeOf i made = []"
  by (auto simp: madeOf_def)

lemma batchesInv_issue:
  assumes "batchesInv w0 f" and "cstep a (fcConfig f) = Some c"
    and "wCalls (cWorld c) = wCalls (cWorld (fcConfig f)) @ new"
  shows "batchesInv w0 (f\<lparr>fcConfig := c, fcBatches := fcBatches f @ [new]\<rparr>)"
proof -
  let ?n = "length (fcBatches f)" and ?c = "fcConfig f"
  have inv: "reachable w0 ?c" "wCalls (cWorld ?c) = wCalls w0 @ concat (fcBatches f)"
    "\<And>i. i < ?n \<Longrightarrow> prefix (madeOf i (fcMade f)) (fcBatches f ! i)"
    "\<forall>p \<in> set (fcMade f). fst p < ?n"
    "\<And>r i j. i < ?n \<Longrightarrow> j < ?n \<Longrightarrow> filter (callFor r) (fcBatches f ! i) \<noteq> [] \<Longrightarrow>
      filter (callFor r) (fcBatches f ! j) \<noteq> [] \<Longrightarrow> i = j"
    using assms(1) by (auto simp: batchesInv_def)
  have first: "filter (callFor r) (fcBatches f ! i) = []" if "filter (callFor r) new \<noteq> []" "i < ?n" for r i
  proof -
    have "a = ActFinishReport r" using cstep_calls [OF assms(2,3), of r] that(1) by blast
    then have "r \<notin> fst ` set (cDone ?c)" using report_step_new [OF inv(1)] assms(2) by blast
    then have "filter (callFor r) (concat (fcBatches f)) = []"
      using calls_for_boundary [OF inv(1), of r] by (simp add: inv(2))
    then show ?thesis using nth_mem [OF that(2)] by (auto simp: filter_concat filter_empty_conv)
  qed
  have "\<forall>p \<in> set (fcMade f). fst p \<noteq> ?n" using inv(4) by auto
  then have "madeOf ?n (fcMade f) = []" by (rule madeOf_none)
  then have "prefix (madeOf i (fcMade f)) ((fcBatches f @ [new]) ! i)" if "i < Suc ?n" for i
    using inv(3) that by (cases "i = ?n") (simp_all add: nth_append)
  moreover have "i = j" if "i < Suc ?n" "j < Suc ?n" "filter (callFor r) ((fcBatches f @ [new]) ! i) \<noteq> []"
    "filter (callFor r) ((fcBatches f @ [new]) ! j) \<noteq> []" for r i j
    using that inv(5) [of i j r] first [of r] by (cases "i < ?n"; cases "j < ?n") (auto simp: nth_append less_Suc_eq)
  moreover have "fst p < Suc ?n" if "p \<in> set (fcMade f)" for p using inv(4) that by (simp add: less_Suc_eq)
  moreover have "reachable w0 c" using inv(1) assms(2) by (rule reachable.step)
  ultimately show ?thesis by (simp add: batchesInv_def inv(2) assms(3))
qed

lemma batchesInv_deliver:
  assumes "batchesInv w0 f" and "fineStep (Deliver i) f = Some f'"
  shows "batchesInv w0 f'"
proof -
  let ?n = "length (madeOf i (fcMade f))"
  from assms(2) have i: "i < length (fcBatches f)" "?n < length (fcBatches f ! i)"
    and f': "f' = f\<lparr>fcMade := fcMade f @ [(i, fcBatches f ! i ! ?n)]\<rparr>"
    by (auto simp: Let_def split: if_splits)
  then have "prefix (madeOf i (fcMade f)) (fcBatches f ! i)" using assms(1) by (simp add: batchesInv_def)
  then have "madeOf i (fcMade f) = take ?n (fcBatches f ! i)" by (auto simp: prefix_def)
  then have "madeOf i (fcMade f) @ [fcBatches f ! i ! ?n] = take (Suc ?n) (fcBatches f ! i)"
    using i(2) by (metis take_Suc_conv_app_nth)
  then have "prefix (madeOf i (fcMade f) @ [fcBatches f ! i ! ?n]) (fcBatches f ! i)"
    by (simp add: take_is_prefix)
  then show ?thesis using assms(1) i(1) by (auto simp: batchesInv_def f')
qed

lemma fineReachable_batchesInv: "fineReachable w0 f \<Longrightarrow> batchesInv w0 f"
proof (induction rule: fineReachable.induct)
  case init
  then show ?case by (simp add: batchesInv_def reachable.init) (simp add: initialConfig_def)
next
  case (step f x f')
  show ?case
  proof (cases x)
    case (Issue a)
    with step.hyps(2) obtain c where c: "cstep a (fcConfig f) = Some c"
      "f' = f\<lparr>fcConfig := c, fcBatches := fcBatches f @
          [drop (length (wCalls (cWorld (fcConfig f)))) (wCalls (cWorld c))]\<rparr>"
      by (auto split: option.splits)
    from cstep_issues [OF c(1)] obtain new where new: "wCalls (cWorld c) = wCalls (cWorld (fcConfig f)) @ new" by blast
    from batchesInv_issue [OF step.IH c(1) new] show ?thesis by (simp add: c(2) new)
  next
    case (Deliver i)
    with step batchesInv_deliver show ?thesis by blast
  qed
qed

text \<open>No configuration of Timeline is lost, and a call that is due can be made whatever else is going on.\<close>

lemma reachable_fine: "reachable w0 c \<Longrightarrow> \<exists>f. fineReachable w0 f \<and> fcConfig f = c"
proof (induction rule: reachable.induct)
  case init
  then show ?case using fineReachable.init by force
next
  case (step c a c')
  then obtain f where "fineReachable w0 f" "fcConfig f = c" by blast
  with step.hyps(2) fineReachable.step [of w0 f "Issue a"] show ?case by force
qed

lemma due_call_possible:
  "i < length (fcBatches f) \<Longrightarrow> length (madeOf i (fcMade f)) < length (fcBatches f ! i) \<Longrightarrow>
   \<exists>f'. fineStep (Deliver i) f = Some f' \<and> madeOf i (fcMade f') =
     madeOf i (fcMade f) @ [fcBatches f ! i ! length (madeOf i (fcMade f))]"
  by (simp add: Let_def)

section \<open>What the reporters get\<close>

lemma filter_made:
  assumes "\<forall>p \<in> set made. callFor r (snd p) \<longrightarrow> fst p = i"
  shows "filter (callFor r) (map snd made) = filter (callFor r) (madeOf i made)"
  using assms by (induction made) (auto simp: madeOf_def)

lemma filter_one_batch:
  assumes "\<And>j. j < length bs \<Longrightarrow> filter P (bs ! j) \<noteq> [] \<Longrightarrow> j = i" and "i < length bs"
  shows "filter P (concat bs) = filter P (bs ! i)"
proof -
  have empty: "filter P (concat xs) = []" if "\<And>b. b \<in> set xs \<Longrightarrow> filter P b = []" for xs
    using that by (simp add: filter_concat)
  have "bs = take i bs @ bs ! i # drop (Suc i) bs" using assms(2) by (rule id_take_nth_drop)
  moreover have "filter P (concat (take i bs)) = []"
    using assms(1) by (intro empty) (force simp: in_set_conv_nth)
  moreover have "filter P (concat (drop (Suc i) bs)) = []"
  proof (rule empty)
    fix b
    assume "b \<in> set (drop (Suc i) bs)"
    then obtain k where "k < length bs - Suc i" "b = bs ! Suc (i + k)" by (auto simp: in_set_conv_nth)
    moreover from this have "Suc (i + k) < length bs" by linarith
    ultimately show "filter P b = []" using assms(1) [of "Suc (i + k)"] by auto
  qed
  ultimately show ?thesis by (metis (no_types) append_Nil append_Nil2 concat.simps(2) concat_append filter_append)
qed

lemma prefix_filter: "prefix xs ys \<Longrightarrow> prefix (filter P xs) (filter P ys)"
  by (auto simp: prefix_def)

text \<open>However the reporter calls of all goroutines interleave: at any moment the calls made for a judged
  boundary are the first ones of its verdict's deliveries, all of them once every batch is delivered, and no
  other boundary has any. The configuration below is one of theory Timeline, to which the properties of
  theories Verdicts and WorldTyping apply.\<close>

theorem reporters_get_each_verdict_once:
  assumes "fineReachable w0 f"
  shows "reachable w0 (fcConfig f) \<and>
    (let got = filter (callFor r) (map snd (fcMade f));
         due = (if r \<in> fst ` set (cDone (fcConfig f))
                then deliveries w0 (fcConfig f) (r, verdict w0 (fcConfig f) r) else [])
     in prefix got due \<and>
        (list_all (\<lambda>i. madeOf i (fcMade f) = fcBatches f ! i) [0..<length (fcBatches f)] \<longrightarrow> got = due))"
proof -
  let ?bs = "fcBatches f" and ?made = "fcMade f" and ?c = "fcConfig f"
  let ?got = "filter (callFor r) (map snd ?made)"
  have inv: "reachable w0 ?c" "wCalls (cWorld ?c) = wCalls w0 @ concat ?bs"
    "\<And>i. i < length ?bs \<Longrightarrow> prefix (madeOf i ?made) (?bs ! i)"
    "\<And>p. p \<in> set ?made \<Longrightarrow> fst p < length ?bs"
    "\<And>i j. i < length ?bs \<Longrightarrow> j < length ?bs \<Longrightarrow> filter (callFor r) (?bs ! i) \<noteq> [] \<Longrightarrow>
      filter (callFor r) (?bs ! j) \<noteq> [] \<Longrightarrow> i = j"
    using fineReachable_batchesInv [OF assms] by (auto simp: batchesInv_def)
  have due: "filter (callFor r) (concat ?bs) = (if r \<in> fst ` set (cDone ?c)
      then deliveries w0 ?c (r, verdict w0 ?c r) else [])"
    using calls_for_boundary [OF inv(1), of r] by (simp add: inv(2))
  have from_batch: "filter (callFor r) (?bs ! fst p) \<noteq> []" if "p \<in> set ?made" "callFor r (snd p)" for p
  proof -
    have "snd p \<in> set (madeOf (fst p) ?made)" using that(1) by (rule madeOf_mem)
    then have "snd p \<in> set (?bs ! fst p)"
      using set_mono_prefix [OF inv(3) [OF inv(4) [OF that(1)]]] by (rule rev_subsetD)
    with that(2) have "\<exists>x \<in> set (?bs ! fst p). callFor r x" by (rule bexI)
    then show ?thesis by (simp add: filter_empty_conv)
  qed
  have "prefix ?got (filter (callFor r) (concat ?bs)) \<and>
    (list_all (\<lambda>i. madeOf i ?made = ?bs ! i) [0..<length ?bs] \<longrightarrow> ?got = filter (callFor r) (concat ?bs))"
  proof (cases "\<exists>i < length ?bs. filter (callFor r) (?bs ! i) \<noteq> []")
    case True
    then obtain i where i: "i < length ?bs" "filter (callFor r) (?bs ! i) \<noteq> []" by blast
    have "filter (callFor r) (concat ?bs) = filter (callFor r) (?bs ! i)"
      using inv(5) i by (intro filter_one_batch) blast+
    moreover have "?got = filter (callFor r) (madeOf i ?made)"
      using inv(4,5) i from_batch by (intro filter_made) blast
    ultimately show ?thesis using inv(3) [OF i(1)] i(1) by (simp add: prefix_filter list_all_iff)
  next
    case False
    then have "filter (callFor r) b = []" if "b \<in> set ?bs" for b using that by (metis in_set_conv_nth)
    then have "filter (callFor r) (concat ?bs) = []" by (simp add: filter_concat)
    moreover have "\<not> callFor r (snd p)" if "p \<in> set ?made" for p using False from_batch inv(4) that by blast
    then have "?got = []" by (simp add: filter_empty_conv)
    ultimately show ?thesis by simp
  qed
  with inv(1) show ?thesis unfolding due by (simp add: Let_def)
qed

end
