(* ===== verification/Accounts.thy ===== *)
theory Accounts
  imports Session
begin

text \<open>
  Counting rules side by side. A rule is a step function on the operations of one connection that keeps
  a mode and says how many units an operation adds; a pool of connections counts each connection on its
  own (\<open>countPool\<close>). The boundary's count is the run of such a rule, and so is what a server's log shows.
  The locale \<open>paid_for\<close> says when one rule counts no more than another.
\<close>

section \<open>Conditions on a run\<close>

text \<open>A condition on each operation, in the mode in which the rule meets it.\<close>

fun runFits :: "('x \<Rightarrow> 'm \<Rightarrow> bool) \<Rightarrow> ('x \<Rightarrow> 'm \<Rightarrow> 'm \<times> nat) \<Rightarrow> 'x list \<Rightarrow> 'm \<Rightarrow> bool" where
  "runFits fits step [] m = True"
| "runFits fits step (x # xs) m = (fits x m \<and> runFits fits step xs (fst (step x m)))"

definition poolFits ::
    "('x \<Rightarrow> 'm \<Rightarrow> bool) \<Rightarrow> ('x \<Rightarrow> 'm \<Rightarrow> 'm \<times> nat) \<Rightarrow> (nat \<times> 'x) list \<Rightarrow> 'm \<Rightarrow> bool" where
  "poolFits fits step ops m =
     list_all (\<lambda>c. runFits fits step (opsOf c ops) m) (remdups (map fst ops))"

lemma runFits_mono:
  "runFits P step xs m \<Longrightarrow> (\<And>x m. P x m \<Longrightarrow> Q x m) \<Longrightarrow> runFits Q step xs m"
  by (induction xs arbitrary: m) simp_all

lemma poolFits_mono: "poolFits P step ops m \<Longrightarrow> (\<And>x m. P x m \<Longrightarrow> Q x m) \<Longrightarrow> poolFits Q step ops m"
  using runFits_mono [of P step _ m Q] by (auto simp: poolFits_def list_all_iff)

lemma poolFits_True [simp]: "poolFits (\<lambda>_ _. True) step ops m"
proof -
  have "runFits (\<lambda>_ _. True) step xs m" for xs m by (induction xs arbitrary: m) simp_all
  then show ?thesis by (simp add: poolFits_def list_all_iff)
qed

section \<open>One rule below another\<close>

text \<open>A rule counts no more than another one if each of its steps is paid for: \<open>credit\<close> is what the other
  rule has counted ahead, and \<open>ok\<close> relates the modes.\<close>

locale paid_for =
  fixes fits :: "'x \<Rightarrow> 'm \<Rightarrow> bool"
    and step1 :: "'x \<Rightarrow> 'm \<Rightarrow> 'm \<times> nat" and step2 :: "'x \<Rightarrow> 'n \<Rightarrow> 'n \<times> nat"
    and ok :: "'m \<Rightarrow> 'n \<Rightarrow> bool" and credit :: "'m \<Rightarrow> 'n \<Rightarrow> nat"
  assumes ok_step: "fits x m \<Longrightarrow> ok m n \<Longrightarrow> ok (fst (step1 x m)) (fst (step2 x n))"
    and paid: "fits x m \<Longrightarrow> ok m n \<Longrightarrow> snd (step1 x m) + credit (fst (step1 x m)) (fst (step2 x n))
      \<le> snd (step2 x n) + credit m n"
begin

lemma count_le:
  "runFits fits step1 xs m \<Longrightarrow> ok m n \<Longrightarrow> countUnits step1 xs m \<le> countUnits step2 xs n + credit m n"
proof (induction xs arbitrary: m n)
  case (Cons x xs)
  then have "fits x m" and rest: "runFits fits step1 xs (fst (step1 x m))" by simp_all
  from Cons.IH [OF rest ok_step [OF this(1) Cons.prems(2)]] paid [OF \<open>fits x m\<close> Cons.prems(2)]
  show ?case by (simp add: split_def Let_def)
qed simp

lemma pool_le:
  assumes "poolFits fits step1 ops m" and "ok m n" and "credit m n = 0"
  shows "countPool step1 ops (\<lambda>_. m) \<le> countPool step2 ops (\<lambda>_. n)"
proof -
  have "countUnits step1 (opsOf c ops) m \<le> countUnits step2 (opsOf c ops) n" if "c \<in> set (map fst ops)" for c
    using count_le [OF _ assms(2)] assms(1,3) that by (fastforce simp: poolFits_def list_all_iff)
  then show ?thesis
    unfolding countPool_connections by (intro sum_list_mono) simp
qed

end

section \<open>The client's rule\<close>

lemma client_units:
  assumes "wHeap w r = newBoundary d' p name"
    and "unat (dTxSeq (wDets w d)) + length ops < 2 ^ 64" and "dClassify (wDets w d) = cl"
  shows "boundaryUnits (wHeap (snd (fold poolStep ops (\<lambda>_. NewSession d, w))) r) =
    countPool (unitStep cl r) ops (\<lambda>_. None)"
  using pool_boundary_units [OF assms(1,2)] assms(3) by (simp only: countPool_connections)

text \<open>The statements a server may log for an operation.\<close>

fun opTexts :: "SessionOp \<Rightarrow> string list" where
  "opTexts (OpObserve ctx query now) = [query]"
| "opTexts OpBeginTx = [''START TRANSACTION'', ''BEGIN'']"
| "opTexts OpEndTx = [''COMMIT'', ''ROLLBACK'']"

text \<open>What a classifier has to know of the statements a driver sends by itself.\<close>

definition bracketWords :: "Classifier \<Rightarrow> bool" where
  "bracketWords cl \<longleftrightarrow> cl ''START TRANSACTION'' = KindBegin \<and> cl ''BEGIN'' = KindBegin \<and>
     cl ''COMMIT'' = KindCommit \<and> cl ''ROLLBACK'' = KindRollback"

lemma default_brackets: "bracketWords DefaultClassifier"
  unfolding bracketWords_def by (intro conjI) code_simp+

text \<open>A connection of the client and a connection of the server: a server that is in a transaction has a
  client that is in one; a server transaction that wrote, for whatever boundary, has paid for the first write
  of the boundary there.\<close>

definition withinClient :: "bool option \<Rightarrow> bool option \<Rightarrow> bool" where
  "withinClient client server \<longleftrightarrow> (server \<noteq> None \<longrightarrow> client \<noteq> None)"

definition paidAhead :: "bool option \<Rightarrow> bool option \<Rightarrow> nat" where
  "paidAhead client server = (if server = Some True \<and> client = Some False then 1 else 0)"

lemma account_start [simp]: "withinClient None None" "paidAhead None None = 0"
  by (simp_all add: withinClient_def paidAhead_def)

text \<open>A process with one detector and one boundary, for the examples.\<close>

abbreviation runWorld :: World where
  "runWorld \<equiv> \<lparr>wDets = (\<lambda>_. New []), wHeap = (\<lambda>_. newBoundary 0 Background ''Job''), wNext = 1,
     wAllowlists = (\<lambda>_. NewAllowlist), wCalls = []\<rparr>"

lemma runWorld_det: "dTxSeq (wDets runWorld 0) = 0" "dClassify (wDets runWorld 0) = DefaultClassifier"
  by (simp_all add: New_def)

end
