(* ===== verification/GoText.thy ===== *)
theory GoText
  imports GoUnicode
begin

text \<open>
  The text machinery of Go that the log parsers use: regular expressions (package \<open>regexp\<close>) and
  the line scanner (\<open>bufio.Scanner\<close>).

  A match of \<open>regexp\<close> is leftmost-first: among the matches at the leftmost position it is the one
  that backtracking search finds first. \<open>matches r s\<close> lists the matches of \<open>r\<close> at the start of
  \<open>s\<close> in that order, each as the rest of the input and the named groups that took part, in group
  order; the match is the head of the list. Every expression of the sources is anchored at the
  start, and repeats single character classes only.
\<close>

section \<open>Regular expressions\<close>

text \<open>A character class: ranges of runes, or what is in none of them.\<close>

datatype rune_class = OneOf "(nat \<times> nat) list" | NoneOf "(nat \<times> nat) list"

fun inClass :: "rune_class \<Rightarrow> nat \<Rightarrow> bool" where
  "inClass (OneOf rs) r = list_ex (\<lambda>(lo, hi). lo \<le> r \<and> r \<le> hi) rs"
| "inClass (NoneOf rs) r = (\<not> list_ex (\<lambda>(lo, hi). lo \<le> r \<and> r \<le> hi) rs)"

datatype regex =
    Epsilon
  | Class rune_class
  | Greedy rune_class
  | Lazy rune_class
  | Seq regex regex
  | Alt regex regex
  | Group string regex
  | AtEnd

type_synonym groups = "(string \<times> string) list"

text \<open>Zero or more runes of a class, longest first.\<close>

function greedyRests :: "rune_class \<Rightarrow> string \<Rightarrow> string list" where
  "greedyRests c s =
     (if s = [] then [s]
      else let (r, n) = decodeRune s in
        if inClass c r then greedyRests c (drop n s) @ [s] else [s])"
  by pat_completeness auto
termination
proof (relation "measure (\<lambda>(c, s). length s)")
  fix c s x r n
  assume "s \<noteq> []" "x = decodeRune s" "(r, n) = x"
  then show "((c, drop n s), c, s) \<in> measure (\<lambda>(c, s). length s)"
    using decodeRune_size [of s] by (cases s) (auto simp: prod_eq_iff)
qed simp

declare greedyRests.simps [simp del]

fun matches :: "regex \<Rightarrow> string \<Rightarrow> (string \<times> groups) list" where
  "matches Epsilon s = [(s, [])]"
| "matches (Class c) s =
     (if s = [] then []
      else let (r, n) = decodeRune s in if inClass c r then [(drop n s, [])] else [])"
| "matches (Greedy c) s = map (\<lambda>t. (t, [])) (greedyRests c s)"
| "matches (Lazy c) s = map (\<lambda>t. (t, [])) (rev (greedyRests c s))"
| "matches (Seq a b) s =
     concat (map (\<lambda>(t, g). map (\<lambda>(u, h). (u, g @ h)) (matches b t)) (matches a s))"
| "matches (Alt a b) s = matches a s @ matches b s"
| "matches (Group name a) s =
     map (\<lambda>(t, g). (t, (name, take (length s - length t) s) # g)) (matches a s)"
| "matches AtEnd s = (if s = [] then [(s, [])] else [])"

definition firstMatch :: "regex \<Rightarrow> string \<Rightarrow> (string \<times> groups) option" where
  "firstMatch r s = (case matches r s of [] \<Rightarrow> None | m # _ \<Rightarrow> Some m)"

text \<open>The names of the groups, as \<open>SubexpNames\<close> lists them.\<close>

fun groupNames :: "regex \<Rightarrow> string list" where
  "groupNames (Seq a b) = groupNames a @ groupNames b"
| "groupNames (Alt a b) = groupNames a @ groupNames b"
| "groupNames (Group name a) = name # groupNames a"
| "groupNames _ = []"

subsection \<open>Derived forms\<close>

definition oneRune :: "char \<Rightarrow> rune_class" where
  "oneRune c = OneOf [(byte c, byte c)]"

definition digits :: rune_class where
  "digits = OneOf [(48, 57)]"

text \<open>\<open>\s\<close>, \<open>\S\<close> and \<open>.\<close> in Go's syntax.\<close>

definition spaces :: rune_class where
  "spaces = OneOf [(9, 10), (12, 13), (32, 32)]"

definition nonSpaces :: rune_class where
  "nonSpaces = NoneOf [(9, 10), (12, 13), (32, 32)]"

definition anyRune :: rune_class where
  "anyRune = NoneOf [(10, 10)]"

fun seqs :: "regex list \<Rightarrow> regex" where
  "seqs [] = Epsilon"
| "seqs (r # rs) = Seq r (seqs rs)"

definition lit :: "string \<Rightarrow> regex" where
  "lit s = seqs (map (\<lambda>c. Class (oneRune c)) s)"

definition some1 :: "rune_class \<Rightarrow> regex" where
  "some1 c = Seq (Class c) (Greedy c)"

definition exactly :: "nat \<Rightarrow> rune_class \<Rightarrow> regex" where
  "exactly n c = seqs (replicate n (Class c))"

definition opt :: "regex \<Rightarrow> regex" where
  "opt r = Alt r Epsilon"

subsection \<open>Matches are suffixes\<close>

lemma greedyRests_step:
  "greedyRests c s =
     (if s \<noteq> [] \<and> inClass c (fst (decodeRune s))
      then greedyRests c (drop (snd (decodeRune s)) s) @ [s] else [s])"
  by (subst greedyRests.simps) (simp add: split_def Let_def)

lemma greedyRests_suffix: "t \<in> set (greedyRests c s) \<Longrightarrow> suffix t s"
proof (induction "length s" arbitrary: s rule: less_induct)
  case less
  show ?case
  proof (cases "s \<noteq> [] \<and> inClass c (fst (decodeRune s)) \<and> t \<noteq> s")
    case True
    with less.prems have "t \<in> set (greedyRests c (drop (snd (decodeRune s)) s))"
      by (subst (asm) greedyRests_step) auto
    moreover have "length (drop (snd (decodeRune s)) s) < length s"
      using decodeRune_size [of s] True by (simp add: diff_less)
    ultimately show ?thesis
      using less.hyps suffix_drop suffix_order.trans by blast
  next
    case False
    with less.prems show ?thesis by (subst (asm) greedyRests_step) (auto split: if_splits)
  qed
qed

lemma matches_suffix: "(t, g) \<in> set (matches r s) \<Longrightarrow> suffix t s"
proof (induction r arbitrary: s t g)
  case (Seq a b)
  then show ?case by (fastforce intro: suffix_order.trans)
next
  case (Class c)
  then show ?case by (auto simp: split_def Let_def suffix_drop split: if_splits)
qed (auto dest: greedyRests_suffix split: if_splits)

subsection \<open>The first match of a sequence\<close>

lemma firstMatch_simps [simp]:
  "firstMatch Epsilon s = Some (s, [])"
  "firstMatch AtEnd s = (if s = [] then Some (s, []) else None)"
  by (simp_all add: firstMatch_def)

text \<open>If the first choice of the first part leads to a match of the rest, no backtracking happens.\<close>

lemma firstMatch_Seq:
  "firstMatch a s = Some (t, g) \<Longrightarrow> firstMatch b t = Some (u, h) \<Longrightarrow>
   firstMatch (Seq a b) s = Some (u, g @ h)"
  by (auto simp: firstMatch_def split: list.splits)

lemma firstMatch_Seq_plain:
  "firstMatch a s = Some (t, []) \<Longrightarrow> firstMatch b t = Some (u, h) \<Longrightarrow>
   firstMatch (Seq a b) s = Some (u, h)"
  using firstMatch_Seq [of a s t "[]" b u h] by simp

lemma firstMatch_Group:
  "firstMatch r s = Some (t, g) \<Longrightarrow>
   firstMatch (Group name r) s = Some (t, (name, take (length s - length t) s) # g)"
  by (auto simp: firstMatch_def split: list.splits)

lemma firstMatch_Alt1: "firstMatch a s = Some m \<Longrightarrow> firstMatch (Alt a b) s = Some m"
  by (auto simp: firstMatch_def split: list.splits)

lemma firstMatch_Alt2: "matches a s = [] \<Longrightarrow> firstMatch (Alt a b) s = firstMatch b s"
  by (simp add: firstMatch_def)

lemma matches_Seq_Nil: "matches a s = [] \<Longrightarrow> matches (Seq a b) s = []"
  by simp

text \<open>Classes on ASCII bytes.\<close>

definition asciiIn :: "rune_class \<Rightarrow> char \<Rightarrow> bool" where
  "asciiIn c x \<longleftrightarrow> byte x < 128 \<and> inClass c (byte x)"

lemma firstMatch_Class: "asciiIn c x \<Longrightarrow> firstMatch (Class c) (x # s) = Some (s, [])"
  by (simp add: firstMatch_def asciiIn_def)

lemma matches_Class_no: "byte x < 128 \<Longrightarrow> \<not> inClass c (byte x) \<Longrightarrow> matches (Class c) (x # s) = []"
  by simp

lemma matches_Class_Nil: "matches (Class c) [] = []"
  by simp

lemma greedyRests_ascii:
  "list_all (asciiIn c) xs \<Longrightarrow> s = [] \<or> (\<exists>x t. s = x # t \<and> byte x < 128 \<and> \<not> inClass c (byte x)) \<Longrightarrow>
   hd (greedyRests c (xs @ s)) = s \<and> greedyRests c (xs @ s) \<noteq> []"
  by (induction xs) (auto simp: greedyRests.simps [of c "_ # _"] greedyRests.simps [of c "[]"] asciiIn_def)

lemma firstMatch_Greedy:
  assumes "list_all (asciiIn c) xs"
    and "s = [] \<or> (\<exists>x t. s = x # t \<and> byte x < 128 \<and> \<not> inClass c (byte x))"
  shows "firstMatch (Greedy c) (xs @ s) = Some (s, [])"
  using greedyRests_ascii [OF assms] by (auto simp: firstMatch_def split: list.split)

lemma firstMatch_some1:
  assumes "list_all (asciiIn c) xs" and "xs \<noteq> []"
    and "s = [] \<or> (\<exists>x t. s = x # t \<and> byte x < 128 \<and> \<not> inClass c (byte x))"
  shows "firstMatch (some1 c) (xs @ s) = Some (s, [])"
proof (cases xs)
  case (Cons y ys)
  with assms have "firstMatch (Class c) (xs @ s) = Some (ys @ s, [])"
    and "firstMatch (Greedy c) (ys @ s) = Some (s, [])"
    by (auto intro: firstMatch_Class firstMatch_Greedy)
  then show ?thesis unfolding some1_def by (rule firstMatch_Seq_plain)
qed (use assms in simp)

lemma firstMatch_lit: "list_all (\<lambda>x. byte x < 128) xs \<Longrightarrow> firstMatch (lit xs) (xs @ s) = Some (s, [])"
  by (induction xs)
    (auto simp: lit_def oneRune_def asciiIn_def
      intro!: firstMatch_Seq_plain firstMatch_Class)

lemma firstMatch_exactly:
  "list_all (asciiIn c) xs \<Longrightarrow> length xs = n \<Longrightarrow> firstMatch (exactly n c) (xs @ s) = Some (s, [])"
  by (induction xs arbitrary: n)
    (auto simp: exactly_def intro!: firstMatch_Seq_plain
      firstMatch_Class)

text \<open>\<open>.*\<close> runs to the end of a line, whatever its encoding.\<close>

lemma decodeRune_newline: "s \<noteq> [] \<Longrightarrow> CHR 0x0A \<notin> set s \<Longrightarrow> inClass anyRune (fst (decodeRune s))"
proof -
  assume s: "s \<noteq> []" "CHR 0x0A \<notin> set s"
  have "fst (decodeRune s) \<noteq> 10"
  proof
    assume ten: "fst (decodeRune s) = 10"
    with wfRune_decode [OF s(1)] obtain c where "take (snd (decodeRune s)) s = [c]" "byte c = 10"
      by (auto simp: wfRune_def)
    then have "CHR 0x0A \<in> set (take (snd (decodeRune s)) s)"
      by (simp add: char_eq_iff_byte)
    with s(2) show False by (meson in_set_takeD)
  qed
  then show ?thesis by (simp add: anyRune_def)
qed

lemma hd_greedyRests_line:
  "CHR 0x0A \<notin> set s \<Longrightarrow> hd (greedyRests anyRune s) = [] \<and> greedyRests anyRune s \<noteq> []"
proof (induction anyRune s rule: greedyRests.induct)
  case (1 s)
  show ?case
  proof (cases "s = []")
    case False
    obtain r n where d: "decodeRune s = (r, n)" by (cases "decodeRune s")
    with False 1(2) have "inClass anyRune r" using decodeRune_newline [of s] by simp
    moreover have "CHR 0x0A \<notin> set (drop n s)" using 1(2) by (meson in_set_dropD)
    ultimately show ?thesis
      using 1(1) [OF False d [symmetric]] False d by (simp add: greedyRests.simps [of anyRune s])
  qed (simp add: greedyRests.simps)
qed

lemma firstMatch_rest_of_line:
  "CHR 0x0A \<notin> set s \<Longrightarrow> firstMatch (Greedy anyRune) s = Some ([], [])"
  using hd_greedyRests_line [of s] by (auto simp: firstMatch_def split: list.split)

subsection \<open>Sequences of literal, digit and group pieces\<close>

definition allDigits :: "string \<Rightarrow> bool" where
  "allDigits s \<longleftrightarrow> list_all isDigit s"

lemma firstMatch_group:
  "firstMatch r (xs @ t) = Some (t, g) \<Longrightarrow>
   firstMatch (Group name r) (xs @ t) = Some (t, (name, xs) # g)"
  using firstMatch_Group [of r "xs @ t" t g name] by simp

lemma firstMatch_seqs_plain:
  "firstMatch r (xs @ s) = Some (s, []) \<Longrightarrow> firstMatch (seqs rs) s = m \<Longrightarrow>
   m \<noteq> None \<Longrightarrow> firstMatch (seqs (r # rs)) (xs @ s) = m"
  by (auto simp: firstMatch_Seq_plain)

lemma digit_class: "isDigit c \<Longrightarrow> asciiIn digits c"
  by (simp add: isDigit_def asciiIn_def digits_def)

lemma allDigits_class: "allDigits s \<Longrightarrow> list_all (asciiIn digits) s"
  by (auto simp: allDigits_def list_all_iff digit_class)

lemma digits_exactly: "allDigits xs \<Longrightarrow> length xs = n \<Longrightarrow> firstMatch (exactly n digits) (xs @ s) = Some (s, [])"
  by (intro firstMatch_exactly allDigits_class)

lemma digits_some1:
  "allDigits xs \<Longrightarrow> xs \<noteq> [] \<Longrightarrow> byte x < 128 \<Longrightarrow> \<not> isDigit x \<Longrightarrow>
   firstMatch (some1 digits) (xs @ x # s) = Some (x # s, [])"
  by (rule firstMatch_some1 [OF allDigits_class]) (auto simp: digits_def isDigit_def)

lemma firstMatch_seqs_group:
  "firstMatch r (xs @ s) = Some (s, []) \<Longrightarrow> firstMatch (seqs rs) s = Some (u, h) \<Longrightarrow>
   firstMatch (seqs (Group name r # rs)) (xs @ s) = Some (u, (name, xs) # h)"
  using firstMatch_Seq [OF firstMatch_group [of r xs s "[]" name]] by simp

lemma firstMatch_seqs_Epsilon: "firstMatch (seqs (Epsilon # rs)) s = firstMatch (seqs rs) s"
  by (simp add: firstMatch_def split_def)

lemma matches_lit_no: "byte x < 128 \<Longrightarrow> x \<noteq> c \<Longrightarrow> matches (lit (c # cs)) (x # s) = []"
  by (auto simp: lit_def oneRune_def)

lemma matches_seqs_no: "matches r s = [] \<Longrightarrow> matches (seqs (r # rs)) s = []"
  by simp

lemma groupNames_seqs: "groupNames (seqs rs) = concat (map groupNames rs)"
  by (induction rs) simp_all

lemma groupNames_lit [simp]: "groupNames (lit s) = []"
  by (induction s) (simp_all add: lit_def)

lemma groupNames_some1 [simp]: "groupNames (some1 c) = []"
  by (simp add: some1_def)

lemma groupNames_exactly [simp]: "groupNames (exactly n c) = []"
  by (simp add: exactly_def groupNames_seqs)

section \<open>The line scanner\<close>

text \<open>An \<open>io.Reader\<close>: the bytes it delivers and the error it ends with, if that is not the end of
  the file.\<close>

type_synonym Reader = "string \<times> string option"

text \<open>\<open>ScanLines\<close>: the input cut at newlines, the last piece only when it is not empty, one trailing
  carriage return dropped.\<close>

fun rawLines :: "string \<Rightarrow> string \<Rightarrow> string list" where
  "rawLines acc [] = (if acc = [] then [] else [acc])"
| "rawLines acc (c # s) = (if c = CHR 0x0A then acc # rawLines [] s else rawLines (acc @ [c]) s)"

definition dropCR :: "string \<Rightarrow> string" where
  "dropCR s = (if s \<noteq> [] \<and> last s = CHR 0x0D then butlast s else s)"

text \<open>The scanner's buffer holds \<open>limit\<close> bytes; a piece that fills it without a newline is an error,
  found before the reader's own error.\<close>

definition scanLines :: "nat \<Rightarrow> Reader \<Rightarrow> string + string list" where
  "scanLines limit r =
     (if list_ex (\<lambda>l. limit \<le> length l) (rawLines [] (fst r)) then Inl ''bufio.Scanner: token too long''
      else case snd r of Some e \<Rightarrow> Inl e | None \<Rightarrow> Inr (map dropCR (rawLines [] (fst r))))"

text \<open>Lines written with a newline after each are read back.\<close>

lemma rawLines_line: "CHR 0x0A \<notin> set l \<Longrightarrow> rawLines acc (l @ CHR 0x0A # s) = (acc @ l) # rawLines [] s"
  by (induction l arbitrary: acc) auto

lemma rawLines_lines:
  "list_all (\<lambda>l. CHR 0x0A \<notin> set l) ls \<Longrightarrow> rawLines [] (concat (map (\<lambda>l. l @ [CHR 0x0A]) ls)) = ls"
  by (induction ls) (auto simp: rawLines_line)

lemma rawLines_no_newline: "CHR 0x0A \<notin> set acc \<Longrightarrow> list_all (\<lambda>l. CHR 0x0A \<notin> set l) (rawLines acc s)"
  by (induction acc s rule: rawLines.induct) auto

end
