(* ===== verification/Crosscheck.thy ===== *)
theory Crosscheck
  imports Report GoText
begin

text \<open>
  \<open>crosscheck/check.go\<close>, \<open>crosscheck/crosscheck.go\<close> and \<open>crosscheck/scenario.go\<close>: the verdict from a server's
  own record. Statements carry an opaque transaction identity (empty when the adapter found none);
  \<open>Check\<close> groups the writes by it in order of first appearance, \<open>Scenario\<close> cuts out what two marker
  statements delimit, and the \<open>Verify\<close> functions turn a non-atomic report into an error.

  The adapter contract of the package documentation (identities are non-empty, and equal exactly for
  statements the server ran in one transaction) is the locale \<open>adapter\<close>; its lemmas say what
  the verdict then means. Both adapters interpret it.
\<close>

section \<open>Data\<close>

record Statement =
  stSQL :: string
  stKind :: StatementKind
  stTxID :: string
  stLine :: int

record Unit =
  unTxID :: string
  unStatements :: "Statement list"

record CheckReport =
  rpWriteUnits :: int
  rpUnits :: "Unit list"

datatype CheckError =
    NonAtomicError CheckReport
  | MissingTxIDError Statement
  | MarkerError string
  | TextError string
  | AdvisedError CheckError string

section \<open>Check\<close>

text \<open>The map of units and the order of keys, as the loop builds them. \<open>units[k]\<close> is a pointer, so
  appending a statement updates the unit in the map.\<close>

fun checkLoop ::
    "Statement list \<Rightarrow> (string, Unit) gomap \<Rightarrow> string list \<Rightarrow>
     CheckError + (string, Unit) gomap \<times> string list" where
  "checkLoop [] units order = Inr (units, order)"
| "checkLoop (st # stmts) units order =
     (if stKind st \<noteq> KindWrite then checkLoop stmts units order
      else if stTxID st = [] then Inl (MissingTxIDError st)
      else
        (case gm_get units (stTxID st) of
           None \<Rightarrow> checkLoop stmts
             (gm_put (stTxID st) \<lparr>unTxID = stTxID st, unStatements = [st]\<rparr> units)
             (order @ [stTxID st])
         | Some u \<Rightarrow> checkLoop stmts
             (gm_put (stTxID st) (u\<lparr>unStatements := unStatements u @ [st]\<rparr>) units) order))"

definition Check :: "Statement list \<Rightarrow> CheckError + CheckReport" where
  "Check stmts =
     (case checkLoop stmts [] [] of
        Inl e \<Rightarrow> Inl e
      | Inr (units, order) \<Rightarrow>
          Inr \<lparr>rpWriteUnits = int (length order),
               rpUnits = map (\<lambda>k. the (gm_get units k)) order\<rparr>)"

definition Atomic :: "CheckReport \<Rightarrow> bool" where
  "Atomic r \<longleftrightarrow> rpWriteUnits r \<le> 1"

definition VerifyStatements :: "Statement list \<Rightarrow> CheckReport option \<times> CheckError option" where
  "VerifyStatements stmts =
     (case Check stmts of
        Inl e \<Rightarrow> (None, Some e)
      | Inr rep \<Rightarrow> if \<not> Atomic rep then (Some rep, Some (NonAtomicError rep)) else (Some rep, None))"

section \<open>Scenario\<close>

definition markerLiteral :: "string \<Rightarrow> string \<Rightarrow> string" where
  "markerLiteral kind label =
     [CHR 0x27] @ ''txnproof:'' @ kind @ '':'' @ replaceChar label (CHR 0x27) [CHR 0x27, CHR 0x27] @ [CHR 0x27]"

definition BeginMarker :: "string \<Rightarrow> string" where
  "BeginMarker label = ''SELECT '' @ markerLiteral ''begin'' label"

definition EndMarker :: "string \<Rightarrow> string" where
  "EndMarker label = ''SELECT '' @ markerLiteral ''end'' label"

text \<open>The index loop: the first statement from \<open>i\<close> on that contains the literal.\<close>

fun findMarker :: "string \<Rightarrow> Statement list \<Rightarrow> nat \<Rightarrow> nat option" where
  "findMarker needle [] i = None"
| "findMarker needle (st # stmts) i =
     (if containsStr (stSQL st) needle then Some i else findMarker needle stmts (Suc i))"

definition beginMissing :: "(nat \<Rightarrow> bool) \<Rightarrow> string \<Rightarrow> CheckError" where
  "beginMissing printable label =
     (let quoted = goQuote printable label in
      MarkerError
        (''crosscheck: begin marker '' @ markerLiteral ''begin'' label @ '' for scenario '' @ quoted @
         '' not found in the log; execute BeginMarker('' @ quoted @
         '') before the scenario and make sure statement logging is enabled''))"

definition endMissing :: "(nat \<Rightarrow> bool) \<Rightarrow> string \<Rightarrow> CheckError" where
  "endMissing printable label =
     (let quoted = goQuote printable label in
      MarkerError
        (''crosscheck: end marker '' @ markerLiteral ''end'' label @ '' for scenario '' @ quoted @
         '' not found in the log after its begin marker; execute EndMarker('' @ quoted @
         '') after the scenario''))"

definition Scenario :: "(nat \<Rightarrow> bool) \<Rightarrow> Statement list \<Rightarrow> string \<Rightarrow> CheckError + Statement list" where
  "Scenario printable stmts label =
     (let beginLit = markerLiteral ''begin'' label; endLit = markerLiteral ''end'' label
      in case findMarker beginLit stmts 0 of
           None \<Rightarrow> Inl (beginMissing printable label)
         | Some b \<Rightarrow>
             (case findMarker endLit (drop (b + 1) stmts) (b + 1) of
                None \<Rightarrow> Inl (endMissing printable label)
              | Some i \<Rightarrow> Inr (take (i - (b + 1)) (drop (b + 1) stmts))))"

type_synonym Parser = "Reader \<Rightarrow> CheckError + Statement list"

definition Verify :: "Parser \<Rightarrow> Reader \<Rightarrow> CheckReport option \<times> CheckError option" where
  "Verify p r = (case p r of Inl e \<Rightarrow> (None, Some e) | Inr stmts \<Rightarrow> VerifyStatements stmts)"

definition VerifyScenario ::
    "(nat \<Rightarrow> bool) \<Rightarrow> Parser \<Rightarrow> Reader \<Rightarrow> string \<Rightarrow> CheckReport option \<times> CheckError option" where
  "VerifyScenario printable p r label =
     (case p r of Inl e \<Rightarrow> (None, Some e)
      | Inr stmts \<Rightarrow>
          (case Scenario printable stmts label of Inl e \<Rightarrow> (None, Some e)
           | Inr sliced \<Rightarrow> VerifyStatements sliced))"

section \<open>Messages\<close>

definition lineRef :: "Statement \<Rightarrow> string" where
  "lineRef s = (if stLine s \<le> 0 then [] else ''line '' @ intDecimal (stLine s) @ '': '')"

definition compactSQL :: "string \<Rightarrow> string" where
  "compactSQL sql = oneLine sql"

definition checkReportString :: "CheckReport \<Rightarrow> string" where
  "checkReportString r =
     (if rpWriteUnits r = 0 then ''crosscheck: no writes found in the server log''
      else if rpWriteUnits r = 1 then
        ''crosscheck: all '' @ intDecimal (int (length (unStatements (hd (rpUnits r))))) @
        '' write(s) shared one server-side transaction ('' @ unTxID (hd (rpUnits r)) @ '')''
      else
        ''crosscheck: writes span '' @ intDecimal (rpWriteUnits r) @
        '' server-side transactions (want 1) '' @ [CHR 0xE2, CHR 0x80, CHR 0x94] @
        '' the scenario is not atomic:'' @
        concat (map (\<lambda>u. newline # ''  transaction '' @ unTxID u @ '':'' @
          concat (map (\<lambda>s. newline # ''    '' @ lineRef s @ compactSQL (stSQL s)) (unStatements u)))
          (rpUnits r)))"

fun checkErrorString :: "CheckError \<Rightarrow> string" where
  "checkErrorString (NonAtomicError rep) = checkReportString rep"
| "checkErrorString (MissingTxIDError s) =
     ''crosscheck: write '' @ lineRef s @
     ''has no server-side transaction identity, so it cannot be attributed to any transaction: '' @
     compactSQL (stSQL s)"
| "checkErrorString (MarkerError s) = s"
| "checkErrorString (TextError s) = s"
| "checkErrorString (AdvisedError e s) = checkErrorString e @ s"

text \<open>\<open>errors.As\<close> finds the error in the chain of wrapped errors.\<close>

fun isMissingTxID :: "CheckError \<Rightarrow> bool" where
  "isMissingTxID (MissingTxIDError _) = True"
| "isMissingTxID (AdvisedError e _) = isMissingTxID e"
| "isMissingTxID _ = False"

section \<open>What Check computes\<close>

definition isWriteStatement :: "Statement \<Rightarrow> bool" where
  "isWriteStatement s \<longleftrightarrow> stKind s = KindWrite"

text \<open>The specification: one unit per identity of a write, with that identity's writes in order.\<close>

definition unitOf :: "Statement list \<Rightarrow> string \<Rightarrow> Unit" where
  "unitOf ws k = \<lparr>unTxID = k, unStatements = filter (\<lambda>s. stTxID s = k) ws\<rparr>"

definition checkSpec :: "Statement list \<Rightarrow> CheckError + CheckReport" where
  "checkSpec stmts =
     (let ws = filter isWriteStatement stmts in
      case filter (\<lambda>s. stTxID s = []) ws of
        bad # _ \<Rightarrow> Inl (MissingTxIDError bad)
      | [] \<Rightarrow> Inr \<lparr>rpWriteUnits = int (card (stTxID ` set ws)),
                 rpUnits = map (unitOf ws) (firstAppearance (map stTxID ws))\<rparr>)"

text \<open>The loop invariant: the map and the order describe the writes \<open>ws\<close> seen so far.\<close>

definition grouped :: "Statement list \<Rightarrow> (string, Unit) gomap \<Rightarrow> string list \<Rightarrow> bool" where
  "grouped ws units order \<longleftrightarrow> order = firstAppearance (map stTxID ws) \<and>
     (\<forall>k. gm_get units k = (if k \<in> stTxID ` set ws then Some (unitOf ws k) else None))"

lemma unitOf_snoc:
  "unitOf (ws @ [s]) k = (if stTxID s = k then (unitOf ws k)\<lparr>unStatements := unStatements (unitOf ws k) @ [s]\<rparr>
    else unitOf ws k)"
  by (simp add: unitOf_def)

lemma unitOf_absent: "k \<notin> stTxID ` set ws \<Longrightarrow> unitOf ws k = \<lparr>unTxID = k, unStatements = []\<rparr>"
  by (auto simp: unitOf_def filter_empty_conv)

lemma grouped_step:
  assumes "grouped ws units order"
  shows "gm_get units (stTxID s) = None \<Longrightarrow>
      grouped (ws @ [s]) (gm_put (stTxID s) \<lparr>unTxID = stTxID s, unStatements = [s]\<rparr> units)
        (order @ [stTxID s])"
    and "gm_get units (stTxID s) = Some u \<Longrightarrow>
      grouped (ws @ [s]) (gm_put (stTxID s) (u\<lparr>unStatements := unStatements u @ [s]\<rparr>) units) order"
  using assms unitOf_absent [of "stTxID s" ws]
  by (auto simp: grouped_def gm_get_put firstAppearance_snoc unitOf_snoc split: if_splits)

lemma checkLoop_spec:
  assumes "grouped ws units order" and "list_all (\<lambda>s. stTxID s \<noteq> []) ws"
  shows "case filter (\<lambda>s. stTxID s = []) (filter isWriteStatement stmts) of
      bad # _ \<Rightarrow> checkLoop stmts units order = Inl (MissingTxIDError bad)
    | [] \<Rightarrow> \<exists>units' order'. checkLoop stmts units order = Inr (units', order') \<and>
        grouped (ws @ filter isWriteStatement stmts) units' order'"
  using assms
proof (induction stmts arbitrary: ws units order)
  case (Cons s stmts)
  show ?case
  proof (cases "stKind s = KindWrite \<and> stTxID s \<noteq> []")
    case True
    then have wr: "isWriteStatement s" by (simp add: isWriteStatement_def)
    show ?thesis
    proof (cases "gm_get units (stTxID s)")
      case None
      with Cons.IH [OF grouped_step(1) [OF Cons.prems(1) None]] Cons.prems(2) True show ?thesis
        by (simp add: wr split: list.splits)
    next
      case (Some u)
      with Cons.IH [OF grouped_step(2) [OF Cons.prems(1) Some]] Cons.prems(2) True show ?thesis
        by (simp add: wr split: list.splits)
    qed
  next
    case False
    show ?thesis
    proof (cases "stKind s = KindWrite")
      case True
      with False show ?thesis by (simp add: isWriteStatement_def)
    next
      case skip: False
      then have "filter isWriteStatement (s # stmts) = filter isWriteStatement stmts"
        and "checkLoop (s # stmts) units order = checkLoop stmts units order"
        by (simp_all add: isWriteStatement_def)
      then show ?thesis using Cons.IH [OF Cons.prems] by (simp only:)
    qed
  qed
qed simp

lemma Check_spec: "Check stmts = checkSpec stmts"
proof -
  let ?ws = "filter isWriteStatement stmts"
  have "grouped [] [] []" by (simp add: grouped_def)
  from checkLoop_spec [OF this, of stmts] show ?thesis
  proof (cases "filter (\<lambda>s. stTxID s = []) ?ws")
    case Nil
    with checkLoop_spec [OF \<open>grouped [] [] []\<close>, of stmts] obtain units order
      where run: "checkLoop stmts [] [] = Inr (units, order)" and "grouped ?ws units order" by auto
    then have order: "order = firstAppearance (map stTxID ?ws)"
      and units: "gm_get units k = Some (unitOf ?ws k)" if "k \<in> set order" for k
      using that by (auto simp: grouped_def)
    have "map (\<lambda>k. the (gm_get units k)) order = map (unitOf ?ws) order"
      using units by simp
    moreover have "length order = card (stTxID ` set ?ws)"
      using \<open>grouped ?ws units order\<close> by (simp add: grouped_def length_firstAppearance)
    moreover have "order = firstAppearance (map stTxID ?ws)"
      using \<open>grouped ?ws units order\<close> by (simp add: grouped_def)
    ultimately show ?thesis
      by (simp only: Check_def run checkSpec_def Let_def Nil sum.case prod.case list.case)
  next
    case (Cons bad rest)
    with checkLoop_spec [OF \<open>grouped [] [] []\<close>, of stmts] show ?thesis
      by (simp add: Check_def checkSpec_def)
  qed
qed

lemma VerifyStatements_spec:
  "VerifyStatements stmts =
     (let ws = filter isWriteStatement stmts;
          rep = \<lparr>rpWriteUnits = int (card (stTxID ` set ws)),
                 rpUnits = map (unitOf ws) (firstAppearance (map stTxID ws))\<rparr>
      in case filter (\<lambda>s. stTxID s = []) ws of
           bad # _ \<Rightarrow> (None, Some (MissingTxIDError bad))
         | [] \<Rightarrow> (Some rep, if card (stTxID ` set ws) \<le> 1 then None else Some (NonAtomicError rep)))"
  by (simp add: VerifyStatements_def Check_spec checkSpec_def Let_def Atomic_def split: list.split)

text \<open>C17. The verdict of the cross-check: the first write without an identity makes it fail;
  otherwise the report has one unit per identity of a write, in order of first appearance and with
  its writes in order, and it is an error exactly when there are two identities or more.\<close>

theorem cross_check_verdict:
  "VerifyStatements stmts =
     (let ws = filter isWriteStatement stmts;
          rep = \<lparr>rpWriteUnits = int (card (stTxID ` set ws)),
                 rpUnits = map (unitOf ws) (firstAppearance (map stTxID ws))\<rparr>
      in case filter (\<lambda>s. stTxID s = []) ws of
           bad # _ \<Rightarrow> (None, Some (MissingTxIDError bad))
         | [] \<Rightarrow> (Some rep, if card (stTxID ` set ws) \<le> 1 then None else Some (NonAtomicError rep)))"
  by (rule VerifyStatements_spec)

section \<open>The adapter contract\<close>

text \<open>What the package documentation asks of an adapter: the statements of a log with the
  server transaction (\<open>truth\<close>) each of them ran in, the identities non-empty and equal exactly for
  statements of one transaction. The verdict on any contiguous slice of the parsed log is then the
  truth.\<close>

definition writesIn :: "Statement list \<Rightarrow> 'u list \<Rightarrow> 'u set" where
  "writesIn stmts truth = snd ` {p \<in> set (zip stmts truth). isWriteStatement (fst p)}"

lemma writesIn_simps [simp]:
  "writesIn [] us = {}"
  "writesIn (s # ss) (u # us) = (if isWriteStatement s then insert u (writesIn ss us) else writesIn ss us)"
proof -
  show "writesIn [] us = {}" by (simp add: writesIn_def)
  show "writesIn (s # ss) (u # us) =
      (if isWriteStatement s then insert u (writesIn ss us) else writesIn ss us)"
    by (auto simp: writesIn_def image_iff)
qed

definition sliceOf :: "nat \<Rightarrow> nat \<Rightarrow> 'a list \<Rightarrow> 'a list" where
  "sliceOf b n xs = take n (drop b xs)"

definition reportOf :: "Statement list \<Rightarrow> nat \<Rightarrow> CheckReport" where
  "reportOf stmts n =
     (let ws = filter isWriteStatement stmts in
      \<lparr>rpWriteUnits = int n, rpUnits = map (unitOf ws) (firstAppearance (map stTxID ws))\<rparr>)"

locale adapter =
  fixes statements :: "'log \<Rightarrow> Statement list"
    and truth :: "'log \<Rightarrow> 'u list"
  assumes truth_length: "length (truth l) = length (statements l)"
    and identity_present: "s \<in> set (statements l) \<Longrightarrow> stTxID s \<noteq> []"
    and identity_iff: "i < length (statements l) \<Longrightarrow> j < length (statements l) \<Longrightarrow>
      stTxID (statements l ! i) = stTxID (statements l ! j) \<longleftrightarrow> truth l ! i = truth l ! j"
begin

lemma identities_count_truth:
  "card (stTxID ` set (filter isWriteStatement (sliceOf b n (statements l))))
     = card (writesIn (sliceOf b n (statements l)) (sliceOf b n (truth l)))"
proof -
  let ?ss = "sliceOf b n (statements l)" and ?us = "sliceOf b n (truth l)"
  let ?I = "{i. i < length ?ss \<and> isWriteStatement (?ss ! i)}"
  have len: "length ?us = length ?ss" by (simp add: sliceOf_def truth_length)
  have nth: "i < length ?ss \<Longrightarrow> ?ss ! i = statements l ! (b + i) \<and> ?us ! i = truth l ! (b + i) \<and>
      b + i < length (statements l)" for i
    by (auto simp: sliceOf_def truth_length)
  have "stTxID ` set (filter isWriteStatement ?ss) = (\<lambda>i. stTxID (?ss ! i)) ` ?I"
    by (force simp: in_set_conv_nth)
  moreover have "writesIn ?ss ?us = (\<lambda>i. ?us ! i) ` ?I"
    using len by (force simp: writesIn_def set_zip)
  moreover have "card ((\<lambda>i. stTxID (?ss ! i)) ` ?I) = card ((\<lambda>i. ?us ! i) ` ?I)"
    by (rule card_same_kernel) (use nth identity_iff in auto)
  ultimately show ?thesis by simp
qed

lemma slice_identities: "filter (\<lambda>s. stTxID s = []) (filter P (sliceOf b n (statements l))) = []"
  using identity_present by (auto simp: filter_empty_conv sliceOf_def dest!: in_set_takeD in_set_dropD)

lemma verdict:
  "VerifyStatements (sliceOf b n (statements l)) =
     (let stmts = sliceOf b n (statements l);
          u = card (writesIn stmts (sliceOf b n (truth l)))
      in (Some (reportOf stmts u), if u \<le> 1 then None else Some (NonAtomicError (reportOf stmts u))))"
proof -
  have none: "filter (\<lambda>s. stTxID s = []) (filter isWriteStatement (sliceOf b n (statements l))) = []"
    by (rule slice_identities)
  show ?thesis
    unfolding VerifyStatements_spec Let_def none identities_count_truth by (simp add: reportOf_def Let_def)
qed

lemma sliceOf_all: "sliceOf 0 (length (statements l)) (statements l) = statements l"
  "sliceOf 0 (length (statements l)) (truth l) = truth l"
  by (simp_all add: sliceOf_def truth_length [symmetric])

lemma whole_verdict:
  "VerifyStatements (statements l) =
     (let u = card (writesIn (statements l) (truth l))
      in (Some (reportOf (statements l) u),
          if u \<le> 1 then None else Some (NonAtomicError (reportOf (statements l) u))))"
  using verdict [of 0 "length (statements l)" l] by (simp only: sliceOf_all Let_def)

end

section \<open>Scenario markers\<close>

lemma findMarker_span:
  "findMarker needle stmts i =
     (if dropWhile (\<lambda>s. \<not> containsStr (stSQL s) needle) stmts = [] then None
      else Some (i + length (takeWhile (\<lambda>s. \<not> containsStr (stSQL s) needle) stmts)))"
  by (induction stmts arbitrary: i) auto

text \<open>A scenario is a slice of the statements, right after its begin marker.\<close>

definition scenarioStart :: "string \<Rightarrow> Statement list \<Rightarrow> nat" where
  "scenarioStart label stmts =
     Suc (length (takeWhile (\<lambda>s. \<not> containsStr (stSQL s) (markerLiteral ''begin'' label)) stmts))"

lemma Scenario_slice:
  "Scenario printable stmts label = Inr body \<Longrightarrow>
   body = sliceOf (scenarioStart label stmts) (length body) stmts"
proof -
  have again: "take n xs = take (length (take n xs)) xs" for n and xs :: "Statement list"
    by (cases "n \<le> length xs") simp_all
  assume "Scenario printable stmts label = Inr body"
  then obtain n where "body = take n (drop (scenarioStart label stmts) stmts)"
    by (auto simp: Scenario_def findMarker_span scenarioStart_def Let_def split: if_splits option.splits)
  then show ?thesis
    unfolding sliceOf_def by (simp only: again [symmetric])
qed

text \<open>C24. \<open>Scenario\<close> returns the statements strictly between the first statement that carries the
  label's begin literal and the next one that carries its end literal, and fails, naming the
  missing marker, when there is no such pair.\<close>

theorem scenario_is_between_its_markers:
  "Scenario printable stmts label =
     (case dropWhile (\<lambda>s. \<not> containsStr (stSQL s) (markerLiteral ''begin'' label)) stmts of
        [] \<Rightarrow> Inl (beginMissing printable label)
      | b # rest \<Rightarrow>
          (case dropWhile (\<lambda>s. \<not> containsStr (stSQL s) (markerLiteral ''end'' label)) rest of
             [] \<Rightarrow> Inl (endMissing printable label)
           | e # _ \<Rightarrow> Inr (takeWhile (\<lambda>s. \<not> containsStr (stSQL s) (markerLiteral ''end'' label)) rest)))"
proof -
  let ?B = "\<lambda>s. \<not> containsStr (stSQL s) (markerLiteral ''begin'' label)"
  show ?thesis
  proof (cases "dropWhile ?B stmts")
    case (Cons b rest)
    then have "drop (length (takeWhile ?B stmts)) stmts = b # rest"
      by (simp add: dropWhile_eq_drop)
    then have "drop (length (takeWhile ?B stmts) + 1) stmts = rest"
      by (metis Suc_eq_plus1 drop_Suc list.sel(3) tl_drop)
    then show ?thesis
      using Cons
      by (simp add: Scenario_def findMarker_span Let_def takeWhile_eq_take [symmetric]
          del: dropWhile_eq_Nil_conv split: list.split)
  qed (simp add: Scenario_def findMarker_span del: dropWhile_eq_Nil_conv)
qed

text \<open>Quotes delimit a literal: between the quotes of a marker of a quote-free label there is
  none, so a literal of another quote-free label cannot be found in it.\<close>

abbreviation quote :: char where
  "quote \<equiv> CHR 0x27"

lemma quoted_sublist:
  assumes "sublist (quote # xs @ [quote]) (us @ quote # ys @ [quote])"
    and "quote \<notin> set us" and "quote \<notin> set xs" and "quote \<notin> set ys"
  shows "xs = ys"
proof -
  obtain as bs where "us @ quote # ys @ [quote] = as @ (quote # xs @ [quote]) @ bs"
    using assms(1) unfolding sublist_def by blast
  then have eq: "as @ quote # (xs @ quote # bs) = us @ quote # (ys @ quote # [])" by simp
  from append_Cons_eq_first [OF eq assms(2)] show ?thesis
  proof
    assume "as = us \<and> xs @ quote # bs = ys @ quote # []"
    with append_Cons_eq_first [of xs quote bs ys "[]"] assms(4) show ?thesis
      by (auto simp: append_eq_append_conv2 append_eq_Cons_conv Cons_eq_append_conv)
  next
    assume "\<exists>zs. as = us @ quote # zs \<and> ys @ quote # [] = zs @ quote # xs @ quote # bs"
    then obtain zs where "ys @ quote # [] = zs @ quote # (xs @ quote # bs)" by blast
    then have "count_list (ys @ [quote]) quote = count_list (zs @ quote # xs @ quote # bs) quote"
      by simp
    with assms(4) show ?thesis by simp
  qed
qed

text \<open>C25. The begin marker of a quote-free label is recognized for that label only, and so is the
  end marker: no other quote-free label's literal occurs in it.\<close>

theorem marker_names_one_scenario:
  assumes "quote \<notin> set label" and "quote \<notin> set other"
  shows "(containsStr (BeginMarker other) (markerLiteral ''begin'' label) \<longleftrightarrow> other = label) \<and>
    (containsStr (EndMarker other) (markerLiteral ''end'' label) \<longleftrightarrow> other = label)"
proof -
  have literal: "markerLiteral kind l = quote # (''txnproof:'' @ kind @ '':'' @ l) @ [quote]"
    if "quote \<notin> set l" for kind l
    using that by (simp add: markerLiteral_def replaceChar_absent)
  have other: "containsStr (''SELECT '' @ markerLiteral kind other) (markerLiteral kind label) \<longleftrightarrow>
      other = label" if "quote \<notin> set kind" for kind
  proof
    assume "containsStr (''SELECT '' @ markerLiteral kind other) (markerLiteral kind label)"
    then have "''txnproof:'' @ kind @ '':'' @ label = ''txnproof:'' @ kind @ '':'' @ other"
      unfolding containsStr_iff literal [OF assms(1)] literal [OF assms(2)]
      by (rule quoted_sublist) (use that assms in auto)
    then show "other = label" by simp
  qed (auto simp only: containsStr_iff intro: sublist_append_leftI)
  show ?thesis by (simp add: BeginMarker_def EndMarker_def other del: append.simps)
qed

theorem marker_names_one_scenario_witness:
  "containsStr (BeginMarker ''checkout'') (markerLiteral ''begin'' ''checkout'') \<and>
   \<not> containsStr (BeginMarker ''checkout-2'') (markerLiteral ''begin'' ''checkout'')"
  using marker_names_one_scenario [of "''checkout''" "''checkout''"]
    marker_names_one_scenario [of "''checkout''" "''checkout-2''"] by simp

text \<open>With a quote in a label this is no longer so: quotes are doubled, so the literal of \<open>a\<close> is a
  part of the literal of every label that continues \<open>a\<close> with a quote, and the slice of \<open>a\<close> starts
  at the other scenario's marker.\<close>

lemma doubled_quote_confuses_markers:
  "containsStr (BeginMarker (label @ quote # t)) (markerLiteral ''begin'' label)"
proof -
  have "prefix (markerLiteral ''begin'' label) (markerLiteral ''begin'' (label @ quote # t))"
    by (simp add: markerLiteral_def replaceChar_def)
  then obtain r where "markerLiteral ''begin'' (label @ quote # t) = markerLiteral ''begin'' label @ r"
    by (auto simp only: prefix_def)
  then show ?thesis
    unfolding containsStr_iff BeginMarker_def sublist_def by blast
qed

end
