(* ===== verification/Mycheck.thy ===== *)
theory Mycheck
  imports Crosscheck Classify
begin

text \<open>
  \<open>mycheck/parse.go\<close> and \<open>mycheck/mycheck.go\<close>: the MySQL adapter. \<open>Parse\<close> reads the general query
  log into entries (one line each, continuation lines appended); \<open>reconstruct\<close> replays the entries
  of each thread through a small state machine and gives every statement an identity; the
  \<open>Checker\<close> rejects autocommit changes and delegates the verdict to \<open>Crosscheck\<close>. The package has its own
  copies of \<open>isIdentChar\<close>, \<open>lineRef\<close> and \<open>compactSQL\<close>, the same as those of Classify and Crosscheck.

  The server's view is \<open>serverUnit\<close>: the position in the log of the statement that opened the
  transaction an entry ran in. The identities of \<open>reconstruct\<close> are equal exactly when these
  positions are, which is the adapter contract; the theory interprets the locale \<open>adapter\<close>
  with it, and the locale \<open>stripper\<close> with MySQL's comment syntax.
\<close>

section \<open>Token helpers\<close>

abbreviation myLineOpen :: "string \<Rightarrow> bool" where
  "myLineOpen q \<equiv> hasPrefix q ''--'' \<or> hasPrefix q ''#''"

function myStripLeading :: "string \<Rightarrow> string" where
  "myStripLeading q0 =
     (let q = trimLeft q0 sqlSpace in
      if hasPrefix q ''--'' \<or> hasPrefix q ''#'' then
        (case indexOf q [newline] of None \<Rightarrow> [] | Some idx \<Rightarrow> myStripLeading (drop (idx + 1) q))
      else if hasPrefix q ''/*'' then
        (case indexOf q ''*/'' of None \<Rightarrow> [] | Some idx \<Rightarrow> myStripLeading (drop (idx + 2) q))
      else q)"
  by pat_completeness auto
termination
  by (relation "measure length") (auto dest: drop_trimLeft_shorter simp flip: length_drop)

declare myStripLeading.simps [simp del]

partial_function (option) myStripLoop :: "string \<Rightarrow> string option" where
  "myStripLoop q0 =
     (let q = trimLeft q0 sqlSpace in
      if hasPrefix q ''--'' \<or> hasPrefix q ''#'' then
        (case indexOf q [newline] of None \<Rightarrow> Some [] | Some idx \<Rightarrow> myStripLoop (drop (idx + 1) q))
      else if hasPrefix q ''/*'' then
        (case indexOf q ''*/'' of None \<Rightarrow> Some [] | Some idx \<Rightarrow> myStripLoop (drop (idx + 2) q))
      else Some q)"

lemma myStripLoop_returns: "myStripLoop q = Some (myStripLeading q)"
proof (induction q rule: myStripLeading.induct)
  case (1 q)
  then show ?case
    by (subst myStripLeading.simps, subst myStripLoop.simps) (simp add: Let_def split: option.split)
qed

definition firstToken :: "string \<Rightarrow> string" where
  "firstToken q = map asciiUpper (takeWhile isIdentChar (myStripLeading q))"

definition secondToken :: "string \<Rightarrow> string" where
  "secondToken q0 =
     (let q = myStripLeading q0;
          rest = myStripLeading (dropWhile isIdentChar q)
      in map asciiUpper (takeWhile isIdentChar rest))"

text \<open>The loop of \<open>containsToken\<close>: index and start of the run being read.\<close>

function scanToken :: "string \<Rightarrow> string \<Rightarrow> nat \<Rightarrow> nat option \<Rightarrow> bool" where
  "scanToken q token i start =
     (if i \<le> length q then
        if i < length q \<and> isIdentChar (q ! i) then
          scanToken q token (Suc i) (case start of None \<Rightarrow> Some i | Some s \<Rightarrow> Some s)
        else
          (case start of
             None \<Rightarrow> scanToken q token (Suc i) None
           | Some s \<Rightarrow>
               if map asciiUpper (take (i - s) (drop s q)) = token then True
               else scanToken q token (Suc i) None)
      else False)"
  by pat_completeness auto
termination
  by (relation "measure (\<lambda>(q, token, i, start). Suc (length q) - i)") auto

declare scanToken.simps [simp del]

definition containsToken :: "string \<Rightarrow> string \<Rightarrow> bool" where
  "containsToken q token = scanToken q token 0 None"

definition implicitCommitLeaders :: "string list" where
  "implicitCommitLeaders =
     [''CREATE'', ''ALTER'', ''DROP'', ''RENAME'', ''TRUNCATE'',
      ''GRANT'', ''REVOKE'', ''INSTALL'', ''UNINSTALL'',
      ''ANALYZE'', ''CHECK'', ''OPTIMIZE'', ''REPAIR'', ''FLUSH'', ''CACHE'',
      ''LOCK'', ''UNLOCK'']"

definition isImplicitCommit :: "string \<Rightarrow> bool" where
  "isImplicitCommit q =
     (let first = firstToken q in
      if first \<notin> set implicitCommitLeaders then False
      else if (first = ''CREATE'' \<or> first = ''DROP'') \<and> secondToken q = ''TEMPORARY'' then False
      else True)"

section \<open>Log lines\<close>

record Entry =
  enThread :: string
  enCommand :: string
  enText :: string
  enLine :: int

text \<open>The pattern of the timestamp, as far as both zone forms.\<close>

definition timestampRe :: regex where
  "timestampRe =
     seqs [exactly 4 digits, lit ''-'', exactly 2 digits, lit ''-'', exactly 2 digits, lit ''T'',
           exactly 2 digits, lit '':'', exactly 2 digits, lit '':'', exactly 2 digits, lit ''.'', some1 digits,
           Alt (lit ''Z'')
             (seqs [Class (OneOf [(43, 43), (45, 45)]), exactly 2 digits, lit '':'', exactly 2 digits])]"

definition entryRe :: regex where
  "entryRe =
     seqs [timestampRe, lit [CHR 0x09], Greedy (oneRune CHR '' ''), Group ''1'' (some1 digits), lit '' '',
           Group ''2'' (some1 (NoneOf [(9, 9)])), lit [CHR 0x09], Group ''3'' (Greedy anyRune), AtEnd]"

definition headerRe :: regex where
  "headerRe =
     seqs [lit ''Time'', some1 spaces, lit ''Id'', some1 spaces, lit ''Command'', some1 spaces,
           lit ''Argument'', Greedy spaces, AtEnd]"

definition isBannerLine :: "string \<Rightarrow> bool" where
  "isBannerLine s =
     (if firstMatch headerRe s \<noteq> None then True
      else if hasSuffix s ''started with:'' \<and> containsStr s '', Version: '' then True
      else hasPrefix s ''Tcp port: '')"

text \<open>\<open>m[i]\<close> of the match.\<close>

definition submatch :: "groups \<Rightarrow> string \<Rightarrow> string" where
  "submatch g name = the (map_of g name)"

text \<open>The loop over the lines with its variables: \<open>line\<close>, \<open>entries\<close> and \<open>continuing\<close>.\<close>

fun parseLoop :: "string list \<Rightarrow> int \<Rightarrow> Entry list \<Rightarrow> bool \<Rightarrow> Entry list" where
  "parseLoop [] line entries continuing = entries"
| "parseLoop (text # rest) line entries continuing =
     (case firstMatch entryRe text of
        Some (_, m) \<Rightarrow>
          parseLoop rest (line + 1)
            (entries @ [\<lparr>enThread = submatch m ''1'', enCommand = submatch m ''2'',
                         enText = submatch m ''3'', enLine = line + 1\<rparr>]) True
      | None \<Rightarrow>
          if isBannerLine text then parseLoop rest (line + 1) entries False
          else if continuing then
            parseLoop rest (line + 1)
              (butlast entries @ [(last entries)\<lparr>enText := enText (last entries) @ newline # text\<rparr>])
              continuing
          else parseLoop rest (line + 1) entries continuing)"

section \<open>Reconstruction of transactions\<close>

record ThreadState =
  tsInTx :: bool
  tsTxSeq :: nat
  tsStmtSeq :: nat

definition zeroThread :: ThreadState where
  "zeroThread = \<lparr>tsInTx = False, tsTxSeq = 0, tsStmtSeq = 0\<rparr>"

definition threadTxLabel :: "string \<Rightarrow> nat \<Rightarrow> string" where
  "threadTxLabel thread seq = ''thread '' @ thread @ '' tx '' @ natDecimal seq"

definition stmtLabel :: "string \<Rightarrow> nat \<Rightarrow> string" where
  "stmtLabel thread seq = ''thread '' @ thread @ '' stmt '' @ natDecimal seq"

text \<open>One turn of the loop: the thread's state after the entry and the statement it yields.\<close>

definition replayEntry ::
    "(string \<Rightarrow> StatementKind) \<Rightarrow> Entry \<Rightarrow> ThreadState \<Rightarrow> ThreadState \<times> Statement option" where
  "replayEntry classify e st0 =
     (if enCommand e = ''Quit'' then (st0\<lparr>tsInTx := False\<rparr>, None)
      else if enCommand e \<noteq> ''Query'' \<and> enCommand e \<noteq> ''Execute'' then (st0, None)
      else
        let st = st0\<lparr>tsStmtSeq := tsStmtSeq st0 + 1\<rparr>;
            kind = classify (enText e);
            (st', txID) =
              (case kind of
                 KindBegin \<Rightarrow>
                   let st1 = st\<lparr>tsTxSeq := tsTxSeq st + 1, tsInTx := True\<rparr>
                   in (st1, threadTxLabel (enThread e) (tsTxSeq st1))
               | KindCommit \<Rightarrow>
                   if tsInTx st then (st\<lparr>tsInTx := False\<rparr>, threadTxLabel (enThread e) (tsTxSeq st))
                   else (st, stmtLabel (enThread e) (tsStmtSeq st))
               | KindRollback \<Rightarrow>
                   if tsInTx st then (st\<lparr>tsInTx := False\<rparr>, threadTxLabel (enThread e) (tsTxSeq st))
                   else (st, stmtLabel (enThread e) (tsStmtSeq st))
               | _ \<Rightarrow>
                   if isImplicitCommit (enText e) then
                     (st\<lparr>tsInTx := False\<rparr>, stmtLabel (enThread e) (tsStmtSeq st))
                   else if tsInTx st then (st, threadTxLabel (enThread e) (tsTxSeq st))
                   else (st, stmtLabel (enThread e) (tsStmtSeq st)))
        in (st', Some \<lparr>stSQL = enText e, stKind = kind, stTxID = txID, stLine = enLine e\<rparr>))"

definition threadOf :: "(string, ThreadState) gomap \<Rightarrow> string \<Rightarrow> ThreadState" where
  "threadOf states t = (case gm_get states t of None \<Rightarrow> zeroThread | Some st \<Rightarrow> st)"

fun reconstructFrom ::
    "(string \<Rightarrow> StatementKind) \<Rightarrow> (string, ThreadState) gomap \<Rightarrow> Entry list \<Rightarrow> Statement list" where
  "reconstructFrom classify states [] = []"
| "reconstructFrom classify states (e # es) =
     (let (st, out) = replayEntry classify e (threadOf states (enThread e));
          rest = reconstructFrom classify (gm_put (enThread e) st states) es
      in case out of None \<Rightarrow> rest | Some s \<Rightarrow> s # rest)"

definition reconstruct :: "(string \<Rightarrow> StatementKind) \<Rightarrow> Entry list \<Rightarrow> Statement list" where
  "reconstruct classify entries = reconstructFrom classify [] entries"

section \<open>The checker\<close>

record Checker =
  ckClassify :: "string \<Rightarrow> StatementKind"

datatype Option = WithClassifier "string \<Rightarrow> StatementKind"

fun applyCheckerOption :: "Option \<Rightarrow> Checker \<Rightarrow> Checker" where
  "applyCheckerOption (WithClassifier c) ch = ch\<lparr>ckClassify := c\<rparr>"

definition NewChecker :: "Option list \<Rightarrow> Checker" where
  "NewChecker opts = fold applyCheckerOption opts \<lparr>ckClassify = DefaultClassifier\<rparr>"

definition scannerLimit :: nat where
  "scannerLimit = 4 * 1024 * 1024"

definition parseGeneralLog :: "Checker \<Rightarrow> Parser" where
  "parseGeneralLog c r =
     (case scanLines scannerLimit r of
        Inl e \<Rightarrow> Inl (TextError e)
      | Inr ls \<Rightarrow> Inr (reconstruct (ckClassify c) (parseLoop ls 0 [] False)))"

definition autocommitError :: "Statement \<Rightarrow> CheckError" where
  "autocommitError s = TextError
     (''mycheck: '' @ lineRef s @ ''the scenario changes the autocommit mode ('' @ compactSQL (stSQL s) @
      ''); mycheck v1 cannot reconstruct transaction grouping across autocommit-mode changes '' @
      [CHR 0xE2, CHR 0x80, CHR 0x94] @
      '' run the scenario with autocommit enabled and explicit BEGIN/COMMIT instead'')"

fun rejectAutocommitChange :: "Statement list \<Rightarrow> CheckError option" where
  "rejectAutocommitChange [] = None"
| "rejectAutocommitChange (s # ss) =
     (if firstToken (stSQL s) \<noteq> ''SET'' \<or> \<not> containsToken (stSQL s) ''AUTOCOMMIT'' then
        rejectAutocommitChange ss
      else Some (autocommitError s))"

definition myAdviseOnMissingTxID :: "CheckError option \<Rightarrow> CheckError option" where
  "myAdviseOnMissingTxID err =
     (case err of
        None \<Rightarrow> None
      | Some e \<Rightarrow>
          if isMissingTxID e then Some (AdvisedError e
            (''; mycheck assigns an identity to every statement it parses from a general query log, '' @
             ''so this statement did not come from Checker.Parse '' @ [CHR 0xE2, CHR 0x80, CHR 0x94] @
             '' verify general-log content with Verify / VerifyScenario instead of building statements by hand''))
          else Some e)"

definition myVerifyStatements :: "Statement list \<Rightarrow> CheckReport option \<times> CheckError option" where
  "myVerifyStatements stmts =
     (case rejectAutocommitChange stmts of
        Some e \<Rightarrow> (None, Some e)
      | None \<Rightarrow> let (rep, err) = VerifyStatements stmts in (rep, myAdviseOnMissingTxID err))"

definition myVerify :: "Checker \<Rightarrow> Reader \<Rightarrow> CheckReport option \<times> CheckError option" where
  "myVerify c r =
     (case parseGeneralLog c r of Inl e \<Rightarrow> (None, Some e) | Inr stmts \<Rightarrow> myVerifyStatements stmts)"

definition myVerifyScenario ::
    "(nat \<Rightarrow> bool) \<Rightarrow> Checker \<Rightarrow> Reader \<Rightarrow> string \<Rightarrow> CheckReport option \<times> CheckError option" where
  "myVerifyScenario printable c r label =
     (case parseGeneralLog c r of
        Inl e \<Rightarrow> (None, Some e)
      | Inr stmts \<Rightarrow>
          (case Scenario printable stmts label of
             Inl e \<Rightarrow> (None, Some e) | Inr sliced \<Rightarrow> myVerifyStatements sliced))"

definition myBeginMarker :: "string \<Rightarrow> string" where
  "myBeginMarker label = BeginMarker label"

definition myEndMarker :: "string \<Rightarrow> string" where
  "myEndMarker label = EndMarker label"

section \<open>The MySQL stripper meets the shared contract\<close>

interpretation my: stripper myStripLeading "\<lambda>q. hasPrefix q ''--'' \<or> hasPrefix q ''#''"
proof unfold_locales
  fix c q
  assume "c \<in> set sqlSpace"
  then show "myStripLeading (c # q) = myStripLeading q"
    by (subst (1 2) myStripLeading.simps) (simp only: trimLeft_def dropWhile.simps if_True)
next
  fix q :: string
  assume open_q: "myLineOpen q"
  then have "trimLeft q sqlSpace = q"
    by (intro trimLeft_no_space) (auto simp: hasPrefix_def prefix_def)
  with open_q show "myStripLeading q = (case indexOf q [newline] of None \<Rightarrow> []
      | Some i \<Rightarrow> myStripLeading (drop (i + 1) q))"
    by (subst myStripLeading.simps) (simp only: Let_def if_True)
next
  fix q :: string
  assume "hasPrefix q ''/*''"
  moreover from this have "trimLeft q sqlSpace = q" "\<not> myLineOpen q"
    by (auto intro!: trimLeft_no_space simp: hasPrefix_def prefix_def)
  ultimately show "myStripLeading q = (case indexOf q ''*/'' of None \<Rightarrow> []
      | Some i \<Rightarrow> myStripLeading (drop (i + 2) q))"
    by (subst myStripLeading.simps) simp
next
  fix q :: string
  assume "\<not> starts_with_space q" "\<not> myLineOpen q" "\<not> hasPrefix q ''/*''"
  then show "myStripLeading q = q"
    by (subst myStripLeading.simps) (simp add: trimLeft_no_space)
next
  fix q :: string
  show "myLineOpen q \<Longrightarrow> \<not> starts_with_space q"
    by (auto simp: hasPrefix_def prefix_def)
  show "myLineOpen (map asciiUpper q) = myLineOpen q"
    by (simp add: hasPrefix_def prefix_map_asciiUpper isLetter_def)
qed (simp add: hasPrefix_def)

section \<open>The token scan\<close>

lemma scanToken_tokens:
  assumes "i \<le> length q" and "\<And>s. start = Some s \<Longrightarrow> s < i"
  shows "scanToken q token i start \<longleftrightarrow>
    (\<exists>t \<in> set (tokensFrom (pendingToken q i start) (drop i q)). map asciiUpper t = token)"
  using assms
proof (induction "length q - i" arbitrary: i start rule: less_induct)
  case less
  let ?hit = "\<lambda>ts. \<exists>t \<in> set ts. map asciiUpper t = token"
  have next_None: "scanToken q token (Suc i) None = ?hit (tokensFrom [] (drop (Suc i) q))"
  proof (cases "i < length q")
    case True
    with less(1) [of "Suc i" None] show ?thesis by simp
  next
    case False
    then show ?thesis by (subst scanToken.simps) simp
  qed
  show ?case
  proof (cases "i < length q \<and> isIdentChar (q ! i)")
    case True
    let ?start = "case start of None \<Rightarrow> Some i | Some s \<Rightarrow> Some s"
    have "scanToken q token (Suc i) ?start
        = ?hit (tokensFrom (pendingToken q (Suc i) ?start) (drop (Suc i) q))"
    proof (rule less(1))
      show "s < Suc i" if "?start = Some s" for s
        using that less(3) by (auto split: option.splits simp: less_Suc_eq)
    qed (use True in auto)
    also have "pendingToken q (Suc i) ?start = pendingToken q i start @ [q ! i]"
      using True less(3) by (intro pendingToken_step) auto
    finally show ?thesis
      using True by (subst scanToken.simps) (simp flip: Cons_nth_drop_Suc)
  next
    case False
    have drop_q: "drop i q = [] \<or> (\<exists>c. \<not> isIdentChar c \<and> drop i q = c # drop (Suc i) q)"
      using False by (auto simp flip: Cons_nth_drop_Suc)
    show ?thesis
    proof (cases start)
      case None
      then show ?thesis
        using False less(2) drop_q next_None
        by (subst scanToken.simps) auto
    next
      case (Some s)
      let ?tok = "pendingToken q i start"
      have "?tok \<noteq> []"
        using Some less(2,3) by (auto simp: pendingToken_def)
      moreover have "scanToken q token i start
          \<longleftrightarrow> map asciiUpper ?tok = token \<or> scanToken q token (Suc i) None"
        using False less(2) Some
        by (subst scanToken.simps) (auto simp: pendingToken_def)
      ultimately show ?thesis using next_None drop_q by auto
    qed
  qed
qed

lemma containsToken_iff:
  "containsToken q token \<longleftrightarrow> (\<exists>t. standaloneToken t q \<and> map asciiUpper t = token)"
  using scanToken_tokens [of 0 q None token] set_tokensFrom [of "[]" _ q]
  by (auto simp: containsToken_def)

section \<open>Labels\<close>

lemma last_space_split:
  assumes "x @ CHR '' '' # natDecimal m = y @ CHR '' '' # natDecimal n"
  shows "x = y \<and> m = n"
proof -
  have tw: "takeWhile (\<lambda>c. c \<noteq> CHR '' '') (rev (z @ CHR '' '' # natDecimal k)) = rev (natDecimal k)" for z k
  proof -
    have "CHR '' '' \<notin> set (natDecimal k)"
      using natDecimal_digits [of k] by (auto simp: isDigit_def)
    then show ?thesis using takeWhile_until [of "CHR '' ''" "rev (natDecimal k)"] by simp
  qed
  have "m = n" using arg_cong [OF assms, of "\<lambda>s. takeWhile (\<lambda>c. c \<noteq> CHR '' '') (rev s)"]
    by (simp only: tw rev_is_rev_conv natDecimal_inject)
  with assms show ?thesis by simp
qed

lemma labels_split:
  "threadTxLabel t n = (''thread '' @ t @ '' tx'') @ CHR '' '' # natDecimal n"
  "stmtLabel t n = (''thread '' @ t @ '' stmt'') @ CHR '' '' # natDecimal n"
  by (simp_all add: threadTxLabel_def stmtLabel_def)

lemma labels_inject [simp]:
  "threadTxLabel t n = threadTxLabel t' n' \<longleftrightarrow> t = t' \<and> n = n'"
  "stmtLabel t n = stmtLabel t' n' \<longleftrightarrow> t = t' \<and> n = n'"
proof -
  have "t = t' \<and> n = n'" if "threadTxLabel t n = threadTxLabel t' n'"
    using last_space_split [OF that [unfolded labels_split]] by simp
  moreover have "t = t' \<and> n = n'" if "stmtLabel t n = stmtLabel t' n'"
    using last_space_split [OF that [unfolded labels_split]] by simp
  ultimately show "threadTxLabel t n = threadTxLabel t' n' \<longleftrightarrow> t = t' \<and> n = n'"
    "stmtLabel t n = stmtLabel t' n' \<longleftrightarrow> t = t' \<and> n = n'" by auto
qed

lemma labels_distinct [simp]:
  "threadTxLabel t n \<noteq> stmtLabel t' n'" "stmtLabel t' n' \<noteq> threadTxLabel t n"
proof -
  show "threadTxLabel t n \<noteq> stmtLabel t' n'"
  proof
    assume "threadTxLabel t n = stmtLabel t' n'"
    from last_space_split [OF this [unfolded labels_split]]
    have "(''thread '' @ t @ '' t'') @ ''x'' = (''thread '' @ t' @ '' stm'') @ ''t''" by simp
    then have "last ((''thread '' @ t @ '' t'') @ ''x'') = last ((''thread '' @ t' @ '' stm'') @ ''t'')"
      by (rule arg_cong)
    then show False by simp
  qed
  then show "stmtLabel t' n' \<noteq> threadTxLabel t n" by (rule not_sym)
qed

section \<open>The server's transactions\<close>

text \<open>What an entry does to the transaction of its thread, by MySQL's rules as the package
  documents them.\<close>

definition isStatement :: "Entry \<Rightarrow> bool" where
  "isStatement e \<longleftrightarrow> enCommand e = ''Query'' \<or> enCommand e = ''Execute''"

definition opensTx :: "(string \<Rightarrow> StatementKind) \<Rightarrow> Entry \<Rightarrow> bool" where
  "opensTx c e \<longleftrightarrow> isStatement e \<and> c (enText e) = KindBegin"

definition standsAlone :: "(string \<Rightarrow> StatementKind) \<Rightarrow> Entry \<Rightarrow> bool" where
  "standsAlone c e \<longleftrightarrow> isStatement e \<and> c (enText e) \<notin> {KindBegin, KindCommit, KindRollback} \<and>
     isImplicitCommit (enText e)"

definition endsTx :: "(string \<Rightarrow> StatementKind) \<Rightarrow> Entry \<Rightarrow> bool" where
  "endsTx c e \<longleftrightarrow> enCommand e = ''Quit'' \<or>
     isStatement e \<and> c (enText e) \<in> {KindCommit, KindRollback} \<or> standsAlone c e"

definition boundaryEntry :: "(string \<Rightarrow> StatementKind) \<Rightarrow> Entry \<Rightarrow> bool" where
  "boundaryEntry c e \<longleftrightarrow> opensTx c e \<or> endsTx c e"

text \<open>The transaction a thread has open after a prefix of the log, named by the position of the
  statement that opened it: the thread's last boundary entry, if it opens one.\<close>

definition lastIndex :: "('a \<Rightarrow> bool) \<Rightarrow> 'a list \<Rightarrow> nat option" where
  "lastIndex P xs =
     (case filter (\<lambda>i. P (xs ! i)) (rev [0..<length xs]) of [] \<Rightarrow> None | i # _ \<Rightarrow> Some i)"

definition openTx :: "(string \<Rightarrow> StatementKind) \<Rightarrow> string \<Rightarrow> Entry list \<Rightarrow> nat option" where
  "openTx c t pre =
     (case lastIndex (\<lambda>e. enThread e = t \<and> boundaryEntry c e) pre of
        None \<Rightarrow> None
      | Some b \<Rightarrow> if opensTx c (pre ! b) then Some b else None)"

text \<open>The server transaction of the entry at position \<open>j\<close>: opened by an earlier statement of its
  thread, or its own.\<close>

definition serverUnit :: "(string \<Rightarrow> StatementKind) \<Rightarrow> Entry list \<Rightarrow> nat \<Rightarrow> nat" where
  "serverUnit c es j =
     (if opensTx c (es ! j) \<or> standsAlone c (es ! j) then j
      else case openTx c (enThread (es ! j)) (take j es) of Some b \<Rightarrow> b | None \<Rightarrow> j)"

definition serverUnits :: "(string \<Rightarrow> StatementKind) \<Rightarrow> Entry list \<Rightarrow> nat list" where
  "serverUnits c es = map (serverUnit c es) (filter (\<lambda>j. isStatement (es ! j)) [0..<length es])"

lemma lastIndex_Nil [simp]: "lastIndex P [] = None"
  by (simp add: lastIndex_def)

lemma lastIndex_snoc: "lastIndex P (xs @ [x]) = (if P x then Some (length xs) else lastIndex P xs)"
proof -
  have "filter (\<lambda>i. P ((xs @ [x]) ! i)) (rev [0..<length xs]) = filter (\<lambda>i. P (xs ! i)) (rev [0..<length xs])"
    by (rule filter_cong) (simp_all add: nth_append)
  then show ?thesis by (simp add: lastIndex_def)
qed

lemma lastIndex_less: "lastIndex P xs = Some i \<Longrightarrow> i < length xs \<and> P (xs ! i)"
  by (induction xs rule: rev_induct) (auto simp: lastIndex_snoc nth_append split: if_splits)

lemma openTx_Nil [simp]: "openTx c t [] = None"
  by (simp add: openTx_def)

lemma openTx_snoc:
  "openTx c t (pre @ [e]) =
     (if enThread e = t \<and> boundaryEntry c e then (if opensTx c e then Some (length pre) else None)
      else openTx c t pre)"
  by (auto simp: openTx_def lastIndex_snoc nth_append dest: lastIndex_less split: option.split)

section \<open>What reconstruct computes\<close>

definition countUpto :: "(Entry \<Rightarrow> bool) \<Rightarrow> string \<Rightarrow> Entry list \<Rightarrow> nat" where
  "countUpto P t es = length (filter (\<lambda>e. enThread e = t \<and> P e) es)"

definition threadSpec :: "(string \<Rightarrow> StatementKind) \<Rightarrow> string \<Rightarrow> Entry list \<Rightarrow> ThreadState" where
  "threadSpec c t pre =
     \<lparr>tsInTx = openTx c t pre \<noteq> None, tsTxSeq = countUpto (opensTx c) t pre,
      tsStmtSeq = countUpto isStatement t pre\<rparr>"

definition identityOf :: "(string \<Rightarrow> StatementKind) \<Rightarrow> Entry list \<Rightarrow> nat \<Rightarrow> string" where
  "identityOf c es j =
     (let t = enThread (es ! j); b = serverUnit c es j in
      if b = j \<and> \<not> opensTx c (es ! j) then stmtLabel t (countUpto isStatement t (take (Suc j) es))
      else threadTxLabel t (countUpto (opensTx c) t (take (Suc b) es)))"

definition labelled :: "(string \<Rightarrow> StatementKind) \<Rightarrow> Entry list \<Rightarrow> nat \<Rightarrow> Statement" where
  "labelled c es j =
     \<lparr>stSQL = enText (es ! j), stKind = c (enText (es ! j)), stTxID = identityOf c es j,
      stLine = enLine (es ! j)\<rparr>"

lemma countUpto_snoc:
  "countUpto P t (es @ [e]) = countUpto P t es + (if enThread e = t \<and> P e then 1 else 0)"
  by (simp add: countUpto_def)

lemma countUpto_Nil [simp]: "countUpto P t [] = 0"
  by (simp add: countUpto_def)

lemma openTx_facts:
  "openTx c t pre = Some b \<Longrightarrow> b < length pre \<and> enThread (pre ! b) = t \<and> opensTx c (pre ! b) \<and>
     countUpto (opensTx c) t (take (Suc b) pre) = countUpto (opensTx c) t pre"
proof (induction pre rule: rev_induct)
  case (snoc e pre)
  then show ?case
    by (auto simp: openTx_snoc nth_append countUpto_snoc boundaryEntry_def split: if_splits)
qed simp

lemma countUpto_position:
  assumes "i < length es" "j < length es" "P (es ! i)" "P (es ! j)"
    and "enThread (es ! i) = t" "enThread (es ! j) = t"
    and "countUpto P t (take (Suc i) es) = countUpto P t (take (Suc j) es)"
  shows "i = j"
proof -
  have less: "countUpto P t (take (Suc a) es) < countUpto P t (take (Suc b) es)"
    if "a < b" "b < length es" "P (es ! b)" "enThread (es ! b) = t" for a b
  proof -
    have "take b es = take (Suc a) es @ take (b - Suc a) (drop (Suc a) es)"
      using that(1) by (metis Suc_leI le_add_diff_inverse take_add)
    then have "countUpto P t (take (Suc a) es) \<le> countUpto P t (take b es)"
      by (simp add: countUpto_def)
    with that show ?thesis by (simp add: take_Suc_conv_app_nth countUpto_snoc)
  qed
  show ?thesis using less [of i j] less [of j i] assms by (cases i j rule: linorder_cases) auto
qed

lemma serverUnit_prefix:
  "j < length es \<Longrightarrow> serverUnit c (es @ fs) j = serverUnit c es j"
  by (simp add: serverUnit_def nth_append)

lemma serverUnit_le: "j < length es \<Longrightarrow> serverUnit c es j \<le> j"
  by (auto simp: serverUnit_def split: option.split dest!: openTx_facts)

lemma labelled_prefix:
  assumes "j < length es"
  shows "labelled c (es @ fs) j = labelled c es j"
  using assms serverUnit_le [OF assms, of c]
  by (simp add: labelled_def identityOf_def serverUnit_prefix nth_append Let_def)

lemma threadSpec_snoc_other:
  "enThread e \<noteq> t \<Longrightarrow> threadSpec c t (pre @ [e]) = threadSpec c t pre"
  by (simp add: threadSpec_def openTx_snoc countUpto_snoc)

lemmas entry_rules = isStatement_def opensTx_def standsAlone_def endsTx_def boundaryEntry_def

lemma serverUnit_last:
  "serverUnit c (pre @ [e]) (length pre) =
     (if opensTx c e \<or> standsAlone c e then length pre
      else case openTx c (enThread e) pre of Some b \<Rightarrow> b | None \<Rightarrow> length pre)"
  by (simp add: serverUnit_def)

lemma identityOf_last:
  "identityOf c (pre @ [e]) (length pre) =
     (if opensTx c e then threadTxLabel (enThread e) (countUpto (opensTx c) (enThread e) pre + 1)
      else if standsAlone c e \<or> openTx c (enThread e) pre = None then
        stmtLabel (enThread e) (countUpto isStatement (enThread e) (pre @ [e]))
      else threadTxLabel (enThread e) (countUpto (opensTx c) (enThread e) pre))"
proof -
  consider "opensTx c e" | "standsAlone c e \<or> openTx c (enThread e) pre = None" "\<not> opensTx c e"
    | b where "openTx c (enThread e) pre = Some b" "\<not> opensTx c e" "\<not> standsAlone c e"
    by (cases "openTx c (enThread e) pre") auto
  then show ?thesis
  proof cases
    case 3
    then show ?thesis
      using openTx_facts [OF 3(1)]
      by (auto simp: identityOf_def Let_def serverUnit_last)
  qed (auto simp: identityOf_def Let_def serverUnit_last countUpto_snoc)
qed

lemma replayEntry_spec:
  "replayEntry c e (threadSpec c (enThread e) pre) =
     (threadSpec c (enThread e) (pre @ [e]),
      if isStatement e then Some (labelled c (pre @ [e]) (length pre)) else None)"
proof (cases "isStatement e")
  case False
  then show ?thesis
    by (auto simp: replayEntry_def threadSpec_def openTx_snoc countUpto_snoc entry_rules)
next
  case True
  then have cmd: "enCommand e \<noteq> ''Quit''" "\<not> (enCommand e \<noteq> ''Query'' \<and> enCommand e \<noteq> ''Execute'')"
    by (auto simp: isStatement_def)
  show ?thesis
    using True cmd
    by (cases "c (enText e)")
      (simp_all add: replayEntry_def Let_def threadSpec_def openTx_snoc countUpto_snoc labelled_def
        identityOf_last boundaryEntry_def opensTx_def endsTx_def standsAlone_def)
qed

lemma reconstructFrom_spec:
  assumes "\<And>t. threadOf states t = threadSpec c t pre"
  shows "reconstructFrom c states es =
    map (labelled c (pre @ es)) (filter (\<lambda>j. isStatement ((pre @ es) ! j)) [length pre..<length (pre @ es)])"
  using assms
proof (induction es arbitrary: states pre)
  case (Cons e es)
  let ?st = "threadSpec c (enThread e) (pre @ [e])"
  have "threadOf (gm_put (enThread e) ?st states) t = threadSpec c t (pre @ [e])" for t
    using Cons.prems [of t] by (auto simp: threadOf_def gm_get_put threadSpec_snoc_other)
  from Cons.IH [OF this] have rest: "reconstructFrom c (gm_put (enThread e) ?st states) es =
      map (labelled c (pre @ e # es)) (filter (\<lambda>j. isStatement ((pre @ e # es) ! j))
        [Suc (length pre)..<length (pre @ e # es)])" by simp
  have "[length pre..<length (pre @ e # es)] = length pre # [Suc (length pre)..<length (pre @ e # es)]"
    by (subst upt_conv_Cons) simp_all
  moreover have "labelled c (pre @ e # es) (length pre) = labelled c (pre @ [e]) (length pre)"
    using labelled_prefix [of "length pre" "pre @ [e]" c es] by simp
  ultimately show ?case
    using rest by (simp add: Cons.prems replayEntry_spec Let_def del: upt_Suc)
qed simp

lemma reconstruct_spec:
  "reconstruct c es = map (labelled c es) (filter (\<lambda>j. isStatement (es ! j)) [0..<length es])"
  using reconstructFrom_spec [of "[]" c "[]" es]
  by (simp add: reconstruct_def threadOf_def threadSpec_def zeroThread_def)

text \<open>The identity tells a statement of its own from one of an opened transaction, and names the
  opener by its number on the thread.\<close>

lemma identityOf_iff:
  assumes i: "i < length es" "isStatement (es ! i)" and j: "j < length es" "isStatement (es ! j)"
  shows "identityOf c es i = identityOf c es j \<longleftrightarrow> serverUnit c es i = serverUnit c es j"
proof -
  define own where "own k \<longleftrightarrow> serverUnit c es k = k \<and> \<not> opensTx c (es ! k)" for k
  have opener: "opensTx c (es ! serverUnit c es k) \<and> serverUnit c es k < length es \<and>
      enThread (es ! serverUnit c es k) = enThread (es ! k)" if "\<not> own k" "k < length es" for k
    using that
    by (auto simp: own_def serverUnit_def split: option.splits if_splits dest!: openTx_facts)
  have ident: "identityOf c es k =
      (if own k then stmtLabel (enThread (es ! k)) (countUpto isStatement (enThread (es ! k)) (take (Suc k) es))
       else threadTxLabel (enThread (es ! k))
         (countUpto (opensTx c) (enThread (es ! k)) (take (Suc (serverUnit c es k)) es)))" for k
    by (simp add: identityOf_def own_def Let_def)
  consider "own i" "own j" | "own i" "\<not> own j" | "\<not> own i" "own j" | "\<not> own i" "\<not> own j" by blast
  then show ?thesis
  proof cases
    case 1
    then have "serverUnit c es i = i" "serverUnit c es j = j" by (auto simp: own_def)
    then show ?thesis
      using 1 countUpto_position [of i es j isStatement "enThread (es ! i)"] i j
      by (auto simp: ident)
  next
    case 2
    then have "serverUnit c es i \<noteq> serverUnit c es j" using opener [of j] j by (auto simp: own_def)
    with 2 show ?thesis by (simp add: ident)
  next
    case 3
    then have "serverUnit c es i \<noteq> serverUnit c es j" using opener [of i] i by (auto simp: own_def)
    with 3 show ?thesis by (simp add: ident)
  next
    case 4
    note oi = opener [OF 4(1) i(1)] and oj = opener [OF 4(2) j(1)]
    show ?thesis
    proof
      assume same: "identityOf c es i = identityOf c es j"
      have both: "enThread (es ! i) = enThread (es ! j) \<and>
          countUpto (opensTx c) (enThread (es ! i)) (take (Suc (serverUnit c es i)) es)
          = countUpto (opensTx c) (enThread (es ! j)) (take (Suc (serverUnit c es j)) es)"
        using same unfolding ident [of i] ident [of j] if_not_P [OF 4(1)] if_not_P [OF 4(2)] labels_inject .
      then have t: "enThread (es ! i) = enThread (es ! j)" by (rule conjunct1)
      from both have "countUpto (opensTx c) (enThread (es ! j)) (take (Suc (serverUnit c es i)) es)
          = countUpto (opensTx c) (enThread (es ! j)) (take (Suc (serverUnit c es j)) es)"
        unfolding t by (rule conjunct2)
      then show "serverUnit c es i = serverUnit c es j"
        using oi oj trans [OF _ t]
        by - (rule countUpto_position [where P = "opensTx c" and t = "enThread (es ! j)"], blast+)
    next
      assume "serverUnit c es i = serverUnit c es j"
      moreover from this oi oj have "enThread (es ! i) = enThread (es ! j)" by simp
      ultimately show "identityOf c es i = identityOf c es j" using 4 by (simp add: ident)
    qed
  qed
qed

lemma identityOf_not_Nil: "identityOf c es j \<noteq> []"
  by (simp add: identityOf_def Let_def threadTxLabel_def stmtLabel_def)

section \<open>The adapter contract holds\<close>

interpretation mysql: adapter "reconstruct c" "serverUnits c" for c
proof unfold_locales
  fix es and s
  show "length (serverUnits c es) = length (reconstruct c es)"
    by (simp add: serverUnits_def reconstruct_spec)
  show "s \<in> set (reconstruct c es) \<Longrightarrow> stTxID s \<noteq> []"
    by (auto simp: reconstruct_spec labelled_def identityOf_not_Nil)
next
  fix es i j
  let ?js = "filter (\<lambda>j. isStatement (es ! j)) [0..<length es]"
  assume "i < length (reconstruct c es)" "j < length (reconstruct c es)"
  then have len: "i < length ?js" "j < length ?js" by (simp_all add: reconstruct_spec)
  then have "?js ! i \<in> set ?js" "?js ! j \<in> set ?js" by (simp_all only: nth_mem)
  then have "identityOf c es (?js ! i) = identityOf c es (?js ! j) \<longleftrightarrow>
      serverUnit c es (?js ! i) = serverUnit c es (?js ! j)"
    by (intro identityOf_iff) auto
  with len show "stTxID (reconstruct c es ! i) = stTxID (reconstruct c es ! j) \<longleftrightarrow>
      serverUnits c es ! i = serverUnits c es ! j"
    by (simp add: reconstruct_spec serverUnits_def labelled_def)
qed

section \<open>Properties\<close>

lemma myVerifyStatements_slice:
  "myVerifyStatements (sliceOf b n (reconstruct c es)) =
     (let stmts = sliceOf b n (reconstruct c es);
          u = card (writesIn stmts (sliceOf b n (serverUnits c es)))
      in case rejectAutocommitChange stmts of
           Some e \<Rightarrow> (None, Some e)
         | None \<Rightarrow> (Some (reportOf stmts u), if u \<le> 1 then None else Some (NonAtomicError (reportOf stmts u))))"
  unfolding myVerifyStatements_def mysql.verdict Let_def
  by (auto simp: myAdviseOnMissingTxID_def Let_def split: option.split)

lemma myVerifyStatements_whole:
  "myVerifyStatements (reconstruct c es) =
     (let u = card (writesIn (reconstruct c es) (serverUnits c es))
      in case rejectAutocommitChange (reconstruct c es) of
           Some e \<Rightarrow> (None, Some e)
         | None \<Rightarrow> (Some (reportOf (reconstruct c es) u),
                    if u \<le> 1 then None else Some (NonAtomicError (reportOf (reconstruct c es) u))))"
  using myVerifyStatements_slice [of 0 "length (reconstruct c es)" c es]
  by (simp only: mysql.sliceOf_all Let_def)

text \<open>C8. The MySQL verdict is the server's: for any log, the report counts the server transactions
  in which the log's writes ran (by the documented rules, each thread on its own, rolled-back
  transactions included), and the check fails exactly when they are two or more; a line that
  does not fit the buffer, a reader error and an autocommit change are errors of their own.\<close>

theorem mysql_verdict_is_the_servers:
  "myVerify ch r =
     (case scanLines scannerLimit r of
        Inl e \<Rightarrow> (None, Some (TextError e))
      | Inr ls \<Rightarrow>
          let es = parseLoop ls 0 [] False;
              stmts = reconstruct (ckClassify ch) es;
              u = card (writesIn stmts (serverUnits (ckClassify ch) es))
          in case rejectAutocommitChange stmts of
               Some e \<Rightarrow> (None, Some e)
             | None \<Rightarrow> (Some (reportOf stmts u),
                        if u \<le> 1 then None else Some (NonAtomicError (reportOf stmts u))))"
proof (cases "scanLines scannerLimit r")
  case (Inr ls)
  let ?es = "parseLoop ls 0 [] False"
  show ?thesis
    by (simp add: myVerify_def parseGeneralLog_def Inr myVerifyStatements_whole Let_def)
qed (simp add: myVerify_def parseGeneralLog_def)

text \<open>C10. A scenario is judged by the server's transactions of the whole log: between its markers, the writes
  are grouped by the transaction in which the server ran them, wherever that was opened, before the begin
  marker too, and whatever other connections did meanwhile. The check fails exactly when they are two or more;
  a log that cannot be read, a missing marker and an autocommit change inside the scenario are errors of
  their own, in this order, and an autocommit change outside it is none.\<close>

theorem mysql_scenario_verdict_is_the_servers:
  "myVerifyScenario printable ch r label =
     (case scanLines scannerLimit r of
        Inl e \<Rightarrow> (None, Some (TextError e))
      | Inr ls \<Rightarrow>
          let es = parseLoop ls 0 [] False;
              stmts = reconstruct (ckClassify ch) es
          in case Scenario printable stmts label of
               Inl e \<Rightarrow> (None, Some e)
             | Inr body \<Rightarrow>
                 let u = card (writesIn body (sliceOf (scenarioStart label stmts) (length body)
                       (serverUnits (ckClassify ch) es)))
                 in case rejectAutocommitChange body of
                      Some e \<Rightarrow> (None, Some e)
                    | None \<Rightarrow> (Some (reportOf body u),
                               if u \<le> 1 then None else Some (NonAtomicError (reportOf body u))))"
proof (cases "scanLines scannerLimit r")
  case (Inr ls)
  let ?es = "parseLoop ls 0 [] False" and ?c = "ckClassify ch"
  show ?thesis
  proof (cases "Scenario printable (reconstruct ?c ?es) label")
    case (Inr body)
    let ?b = "scenarioStart label (reconstruct ?c ?es)"
    have body: "sliceOf ?b (length body) (reconstruct ?c ?es) = body"
      using Scenario_slice [OF Inr] by simp
    show ?thesis
      using myVerifyStatements_slice [of ?b "length body" ?c ?es]
      by (simp add: myVerifyScenario_def parseGeneralLog_def \<open>scanLines scannerLimit r = Inr ls\<close> Inr body Let_def)
  qed (simp add: myVerifyScenario_def parseGeneralLog_def Inr Let_def)
qed (simp add: myVerifyScenario_def parseGeneralLog_def)

text \<open>C20. Two statements of a log get the same identity exactly when the server ran them in one
  transaction: both in the transaction that the same earlier statement of their thread opened, or
  they are the same statement. Identities of different threads, and of a transaction and a
  statement of its own, are never equal.\<close>

theorem identities_are_server_transactions:
  "let js = filter (\<lambda>j. isStatement (es ! j)) [0..<length es]; stmts = reconstruct c es in
   length stmts = length js \<and>
   (\<forall>a b. (if a < length js \<and> b < length js
      then stTxID (stmts ! a) = stTxID (stmts ! b) \<longleftrightarrow>
           serverUnit c es (js ! a) = serverUnit c es (js ! b)
      else True))"
proof -
  let ?js = "filter (\<lambda>j. isStatement (es ! j)) [0..<length es]"
  have len: "length (reconstruct c es) = length ?js" by (simp add: reconstruct_spec)
  have "stTxID (reconstruct c es ! a) = stTxID (reconstruct c es ! b) \<longleftrightarrow>
      serverUnit c es (?js ! a) = serverUnit c es (?js ! b)" if "a < length ?js" "b < length ?js" for a b
    using mysql.identity_iff [of a c es b] that len by (simp add: serverUnits_def)
  with len show ?thesis by (simp only: Let_def) simp
qed

text \<open>C27. A scenario is rejected with an error at its first \<open>SET\<close> statement that names
  \<open>autocommit\<close> as a token, in any letter case and with any number of leading comments, and at
  nothing else.\<close>

theorem autocommit_change_is_rejected:
  "rejectAutocommitChange ss =
     map_option autocommitError
       (List.find (\<lambda>s. firstToken (stSQL s) = ''SET'' \<and>
          (\<exists>t. standaloneToken t (stSQL s) \<and> map asciiUpper t = ''AUTOCOMMIT'')) ss)"
  by (induction ss) (auto simp: containsToken_iff)

text \<open>C29. MySQL's \<open>#\<close> comments are skipped by the adapter's own token helpers but not by the
  classifier it uses: a statement behind such a comment is neither a write nor a \<open>BEGIN\<close> for it, so
  its writes never count.\<close>

theorem hash_comment_hides_the_statement:
  assumes "newline \<notin> set s"
  shows "DefaultClassifier (CHR ''#'' # s @ newline # q) = KindOther \<and>
    firstToken (CHR ''#'' # s @ newline # q) = firstToken q"
proof
  have "stripLeading (CHR ''#'' # s @ newline # q) = CHR ''#'' # s @ newline # q"
    by (rule root.strip_other) (simp_all add: hasPrefix_def)
  then have "leadingToken (CHR ''#'' # s @ newline # q) = []"
    by (simp add: leadingToken_def isIdentChar_def)
  then show "DefaultClassifier (CHR ''#'' # s @ newline # q) = KindOther"
    by (simp add: DefaultClassifier_classifySpec classifySpec_def readKeywords_def writeKeywords_def Let_def)
  have "myStripLeading ((CHR ''#'' # s) @ newline # q) = myStripLeading q"
    by (rule my.strip_skip_line) (use assms in \<open>simp_all add: hasPrefix_def\<close>)
  then show "firstToken (CHR ''#'' # s @ newline # q) = firstToken q"
    by (simp add: firstToken_def)
qed

theorem hash_comment_hides_the_statement_witness:
  "DefaultClassifier (''# note'' @ newline # ''INSERT INTO t VALUES (1)'') = KindOther \<and>
   DefaultClassifier ''INSERT INTO t VALUES (1)'' = KindWrite"
proof -
  have "DefaultClassifier ''INSERT INTO t VALUES (1)'' = KindWrite" by code_simp
  then show ?thesis
    using hash_comment_hides_the_statement [of "'' note''" "''INSERT INTO t VALUES (1)''"] by simp
qed

text \<open>C28. The endless loops of both strippers return on every input, with a suffix of it that is
  empty or starts with neither white space nor a comment.\<close>

theorem strippers_terminate:
  "(\<exists>r. stripLoop q = Some r \<and> suffix r q \<and> root.clean r) \<and>
   (\<exists>r. myStripLoop q = Some r \<and> suffix r q \<and> my.clean r)"
  using root.strip_suffix [of q] root.strip_clean [of q] my.strip_suffix [of q] my.strip_clean [of q]
  by (simp add: stripLoop_returns myStripLoop_returns)

text \<open>\<open>START REPLICA\<close> opens a transaction for the reconstruction, as every \<open>START\<close> does.\<close>

lemma start_replica_opens_a_transaction: "DefaultClassifier ''START REPLICA'' = KindBegin"
  by code_simp

end
