(* ===== verification/GeneralLog.thy ===== *)
theory GeneralLog
  imports Mycheck
begin

text \<open>
  The text of MySQL's general query log and its parser (\<open>mycheck/parse.go\<close>): a printer for the
  file format the package documents, and the round trip through \<open>Parse\<close>. An item is one entry as
  the server writes it: a timestamp, the right-aligned thread, the command, the first line of the
  argument and the lines it continues on.
\<close>

section \<open>The printed log\<close>

datatype Zone = Utc | Offset char string string

record Stamp =
  spYear :: string
  spMonth :: string
  spDay :: string
  spHour :: string
  spMinute :: string
  spSecond :: string
  spFraction :: string
  spZone :: Zone

fun zoneText :: "Zone \<Rightarrow> string" where
  "zoneText Utc = ''Z''"
| "zoneText (Offset sign h m) = sign # h @ '':'' @ m"

definition stampText :: "Stamp \<Rightarrow> string" where
  "stampText s =
     spYear s @ ''-'' @ spMonth s @ ''-'' @ spDay s @ ''T'' @ spHour s @ '':'' @ spMinute s @ '':'' @
     spSecond s @ ''.'' @ spFraction s @ zoneText (spZone s)"

fun wfZone :: "Zone \<Rightarrow> bool" where
  "wfZone Utc = True"
| "wfZone (Offset sign h m) =
     (sign \<in> {CHR ''+'', CHR ''-''} \<and> length h = 2 \<and> allDigits h \<and> length m = 2 \<and> allDigits m)"

definition wfStamp :: "Stamp \<Rightarrow> bool" where
  "wfStamp s \<longleftrightarrow>
     length (spYear s) = 4 \<and> length (spMonth s) = 2 \<and> length (spDay s) = 2 \<and> length (spHour s) = 2 \<and>
     length (spMinute s) = 2 \<and> length (spSecond s) = 2 \<and> spFraction s \<noteq> [] \<and>
     list_all allDigits [spYear s, spMonth s, spDay s, spHour s, spMinute s, spSecond s, spFraction s] \<and>
     wfZone (spZone s)"

record LogItem =
  liStamp :: Stamp
  liPad :: nat
  liThread :: string
  liCommand :: string
  liFirst :: string
  liMore :: "string list"

definition entryLine :: "LogItem \<Rightarrow> string" where
  "entryLine it =
     stampText (liStamp it) @ [CHR 0x09] @ replicate (liPad it) (CHR '' '') @ liThread it @ '' '' @
     liCommand it @ [CHR 0x09] @ liFirst it"

definition itemLines :: "LogItem \<Rightarrow> string list" where
  "itemLines it = entryLine it # liMore it"

definition printLog :: "string list \<Rightarrow> LogItem list \<Rightarrow> string" where
  "printLog header its = concat (map (\<lambda>l. l @ [newline]) (header @ concat (map itemLines its)))"

text \<open>What the log says: the entries with their full text and the number of their first line.\<close>

fun entriesOf :: "LogItem list \<Rightarrow> int \<Rightarrow> Entry list" where
  "entriesOf [] line = []"
| "entriesOf (it # its) line =
     \<lparr>enThread = liThread it, enCommand = liCommand it,
      enText = liFirst it @ concat (map (\<lambda>l. newline # l) (liMore it)), enLine = line + 1\<rparr>
     # entriesOf its (line + 1 + int (length (liMore it)))"

text \<open>A line that the scanner returns as it was written.\<close>

definition plainLine :: "string \<Rightarrow> bool" where
  "plainLine l \<longleftrightarrow> newline \<notin> set l \<and> (l = [] \<or> last l \<noteq> CHR 0x0D) \<and> length l < scannerLimit"

definition startsEntry :: "string \<Rightarrow> bool" where
  "startsEntry l \<longleftrightarrow> firstMatch entryRe l \<noteq> None"

definition wfItem :: "LogItem \<Rightarrow> bool" where
  "wfItem it \<longleftrightarrow> wfStamp (liStamp it) \<and> liThread it \<noteq> [] \<and> allDigits (liThread it) \<and>
     liCommand it \<noteq> [] \<and> list_all (\<lambda>c. byte c < 128 \<and> c \<noteq> CHR 0x09) (liCommand it) \<and>
     list_all plainLine (itemLines it) \<and>
     list_all (\<lambda>l. \<not> startsEntry l \<and> \<not> isBannerLine l) (liMore it)"

section \<open>An entry line is recognized\<close>

lemma zone_matches:
  assumes "wfZone z"
  shows "firstMatch (Alt (lit ''Z'') (seqs [Class (OneOf [(43, 43), (45, 45)]), exactly 2 digits, lit '':'',
    exactly 2 digits])) (zoneText z @ s) = Some (s, [])"
proof (cases z)
  case Utc
  have "firstMatch (lit ''Z'') (''Z'' @ s) = Some (s, [])"
    by (rule firstMatch_lit) simp
  with Utc show ?thesis by (simp add: firstMatch_Alt1)
next
  case (Offset sign h m)
  with assms have sign: "sign = CHR ''+'' \<or> sign = CHR ''-''" and hm: "length h = 2" "allDigits h"
    "length m = 2" "allDigits m" by auto
  from sign have "matches (lit ''Z'') (sign # h @ '':'' @ m @ s) = []"
    by (auto simp: lit_def oneRune_def)
  moreover have "firstMatch (seqs [Class (OneOf [(43, 43), (45, 45)]), exactly 2 digits, lit '':'',
      exactly 2 digits]) ([sign] @ h @ '':'' @ m @ s) = Some (s, [])"
    using sign hm
    by (intro firstMatch_seqs_plain digits_exactly firstMatch_lit)
      (auto simp: asciiIn_def intro!: firstMatch_Class)
  ultimately show ?thesis using Offset by (simp add: firstMatch_Alt2)
qed

lemma zone_head:
  assumes "wfZone z"
  obtains x t where "zoneText z = x # t" "byte x < 128" "\<not> isDigit x"
  using assms by (cases z) (auto simp: isDigit_def)

lemma timestamp_matches:
  assumes "wfStamp p"
  shows "firstMatch timestampRe (stampText p @ s) = Some (s, [])"
proof -
  obtain x t where z: "zoneText (spZone p) = x # t" "byte x < 128" "\<not> isDigit x"
    using assms zone_head unfolding wfStamp_def by blast
  have fraction: "firstMatch (some1 digits) (spFraction p @ zoneText (spZone p) @ s) =
      Some (zoneText (spZone p) @ s, [])"
    using assms z digits_some1 [of "spFraction p" x "t @ s"] by (simp add: wfStamp_def)
  show ?thesis
    unfolding timestampRe_def stampText_def append_assoc
    using assms
    by (intro firstMatch_seqs_plain digits_exactly firstMatch_lit fraction zone_matches)
      (simp_all add: wfStamp_def)
qed

lemma digit_not_space: "isDigit x \<Longrightarrow> byte x < 128 \<and> \<not> inClass (oneRune (CHR '' '')) (byte x)"
  by (simp add: isDigit_def oneRune_def)

lemma entryLine_matches:
  assumes "wfItem it"
  shows "firstMatch entryRe (entryLine it) =
    Some ([], [(''1'', liThread it), (''2'', liCommand it), (''3'', liFirst it)])"
proof -
  have wf: "wfStamp (liStamp it)" "liThread it \<noteq> []" "allDigits (liThread it)" "liCommand it \<noteq> []"
      "list_all (\<lambda>c. byte c < 128 \<and> c \<noteq> CHR 0x09) (liCommand it)" "newline \<notin> set (liFirst it)"
    using assms by (auto simp: wfItem_def itemLines_def entryLine_def plainLine_def)
  obtain x t where x: "liThread it = x # t" "isDigit x"
    using wf(2,3) by (cases "liThread it") (auto simp: allDigits_def)
  have pad: "firstMatch (Greedy (oneRune CHR '' '')) (replicate (liPad it) (CHR '' '') @ liThread it @ s) =
      Some (liThread it @ s, [])" for s
    by (rule firstMatch_Greedy)
      (use x digit_not_space in \<open>auto simp: list_all_iff asciiIn_def oneRune_def\<close>)
  have thread: "firstMatch (some1 digits) (liThread it @ '' '' @ s) = Some ('' '' @ s, [])" for s
    using digits_some1 [of "liThread it" "CHR '' ''" s] wf(2,3) by (simp add: isDigit_def)
  have "list_all (asciiIn (NoneOf [(9, 9)])) (liCommand it)"
    using wf(5) char_eq_iff_byte [of _ "CHR 0x09"] by (auto simp: list_all_iff asciiIn_def)
  then have command: "firstMatch (some1 (NoneOf [(9, 9)])) (liCommand it @ [CHR 0x09] @ s) =
      Some ([CHR 0x09] @ s, [])" for s
    by (rule firstMatch_some1) (use wf(4) in simp_all)
  have first: "firstMatch (seqs [Group ''3'' (Greedy anyRune), AtEnd]) (liFirst it) =
      Some ([], [(''3'', liFirst it)])"
    using firstMatch_seqs_group [of "Greedy anyRune" "liFirst it" "[]" "[AtEnd]" "[]" "[]" "''3''"]
      firstMatch_rest_of_line [OF wf(6)]
    by (simp add: firstMatch_Seq_plain)
  show ?thesis
    unfolding entryRe_def entryLine_def
    by (intro firstMatch_seqs_group firstMatch_seqs_plain timestamp_matches wf(1) firstMatch_lit pad
        thread command first) simp_all
qed

section \<open>The round trip\<close>

lemma not_startsEntry: "\<not> startsEntry l \<longleftrightarrow> firstMatch entryRe l = None"
  by (simp only: startsEntry_def not_not)

lemma parseLoop_continuation:
  assumes "list_all (\<lambda>l. \<not> startsEntry l \<and> \<not> isBannerLine l) ls"
  shows "parseLoop (ls @ rest) line (es @ [e]) True =
    parseLoop rest (line + int (length ls))
      (es @ [e\<lparr>enText := enText e @ concat (map (\<lambda>l. newline # l) ls)\<rparr>]) True"
  using assms by (induction ls arbitrary: line e) (simp_all add: not_startsEntry algebra_simps)

lemma parseLoop_header:
  "list_all (\<lambda>l. \<not> startsEntry l) ls \<Longrightarrow>
   parseLoop (ls @ rest) line es False = parseLoop rest (line + int (length ls)) es False"
  by (induction ls arbitrary: line) (simp_all add: not_startsEntry algebra_simps)

lemma parseLoop_items:
  assumes "list_all wfItem its"
  shows "parseLoop (concat (map itemLines its)) line es b = es @ entriesOf its line"
  using assms
proof (induction its arbitrary: line es b)
  case (Cons it its)
  then have wf: "wfItem it" by simp
  have more: "list_all (\<lambda>l. \<not> startsEntry l \<and> \<not> isBannerLine l) (liMore it)"
    using wf by (simp add: wfItem_def)
  show ?case
    using Cons
    by (simp add: itemLines_def entryLine_matches [OF wf] submatch_def parseLoop_continuation [OF more])
qed simp

lemma scan_printLog:
  assumes "list_all plainLine header" and "list_all wfItem its"
  shows "scanLines scannerLimit (printLog header its, None) = Inr (header @ concat (map itemLines its))"
proof -
  let ?ls = "header @ concat (map itemLines its)"
  have plain: "list_all plainLine ?ls"
    using assms by (auto simp: list_all_iff wfItem_def)
  then have "rawLines [] (printLog header its) = ?ls"
    unfolding printLog_def by (intro rawLines_lines) (auto simp: list_all_iff plainLine_def)
  moreover have "map dropCR ?ls = ?ls"
    by (rule map_idI) (use plain in \<open>auto simp: list_all_iff plainLine_def dropCR_def\<close>)
  moreover have "\<not> list_ex (\<lambda>l. scannerLimit \<le> length l) ?ls"
    using plain unfolding list_all_iff list_ex_iff plainLine_def by (meson not_le)
  ultimately show ?thesis by (simp only: scanLines_def fst_conv snd_conv) simp
qed

lemma parseGeneralLog_printed:
  assumes "list_all plainLine header" and "list_all (\<lambda>l. \<not> startsEntry l) header"
    and "list_all wfItem its"
  shows "parseGeneralLog ch (printLog header its, None) =
    Inr (reconstruct (ckClassify ch) (entriesOf its (int (length header))))"
  using assms
  by (simp add: parseGeneralLog_def scan_printLog parseLoop_header parseLoop_items)

text \<open>C18. Printing a general log and parsing it gives back its entries: thread, command, the full
  text with its continuation lines and the number of the first line, whatever banner precedes
  them; the statements are those of the reconstruction on exactly these entries.\<close>

theorem general_log_round_trip:
  assumes "list_all plainLine header" and "list_all (\<lambda>l. \<not> startsEntry l) header"
    and "list_all wfItem its"
  shows "parseGeneralLog ch (printLog header its, None) =
    Inr (reconstruct (ckClassify ch) (entriesOf its (int (length header))))"
  using assms by (rule parseGeneralLog_printed)

definition sampleItem :: LogItem where
  "sampleItem =
     \<lparr>liStamp = \<lparr>spYear = ''2026'', spMonth = ''07'', spDay = ''18'', spHour = ''01'', spMinute = ''58'',
        spSecond = ''59'', spFraction = ''266281'', spZone = Utc\<rparr>,
      liPad = 3, liThread = ''11'', liCommand = ''Query'', liFirst = ''INSERT INTO t'',
      liMore = [''VALUES (1)'']\<rparr>"

theorem general_log_round_trip_witness:
  "parseGeneralLog (NewChecker []) (printLog [''Tcp port: 0''] [sampleItem], None) =
    Inr (reconstruct DefaultClassifier
      [\<lparr>enThread = ''11'', enCommand = ''Query'', enText = ''INSERT INTO t'' @ newline # ''VALUES (1)'',
        enLine = 2\<rparr>])"
proof -
  have no_entry: "\<not> startsEntry ''Tcp port: 0''" "\<not> startsEntry ''VALUES (1)''"
    by (simp_all add: not_startsEntry firstMatch_def entryRe_def timestampRe_def exactly_def digits_def
        numeral_eq_Suc)
  moreover have "\<not> isBannerLine ''VALUES (1)''"
    by (simp add: isBannerLine_def hasPrefix_def hasSuffix_def suffix_def firstMatch_def headerRe_def
        lit_def oneRune_def)
  ultimately have "wfItem sampleItem"
    by (simp add: wfItem_def sampleItem_def wfStamp_def allDigits_def isDigit_def itemLines_def
        entryLine_def stampText_def plainLine_def scannerLimit_def)
  moreover have "plainLine ''Tcp port: 0''" by (simp add: plainLine_def scannerLimit_def)
  ultimately show ?thesis
    using general_log_round_trip [of "[''Tcp port: 0'']" "[sampleItem]" "NewChecker []"] no_entry
    by (simp add: sampleItem_def NewChecker_def)
qed

end
