(* ===== verification/Agreement.thy ===== *)
theory Agreement
  imports Accounts GeneralLog
begin

text \<open>
  The two verdicts on one run: the boundary's, counted on the client from what its connections did, and the
  cross-check's, counted from the general query log that the MySQL server wrote meanwhile. A connection is a
  thread of the server; the driver's \<open>Begin\<close> and \<open>Commit\<close> appear in the log as statements.

  Both counts are runs of a rule over the same operations. The client's rule follows the statements it can
  see through; the server's also ends a transaction at a statement that commits implicitly and at a
  \<open>BEGIN\<close> inside a transaction, and knows no boundaries.
\<close>

section \<open>The log of a run\<close>

text \<open>The entries log a run of connections: \<open>thr\<close> names the thread of a connection; entries that are no
  statements (\<open>Connect\<close>, \<open>Prepare\<close>, \<open>Field List\<close>, ...) come anywhere, and no connection is closed meanwhile.\<close>

fun logsRun :: "(nat \<Rightarrow> string) \<Rightarrow> (nat \<times> SessionOp) list \<Rightarrow> Entry list \<Rightarrow> bool" where
  "logsRun thr ops [] \<longleftrightarrow> ops = []"
| "logsRun thr ops (e # es) \<longleftrightarrow>
     (if isStatement e then
        (case ops of [] \<Rightarrow> False
         | cx # ops' \<Rightarrow> enThread e = thr (fst cx) \<and> enText e \<in> set (opTexts (snd cx)) \<and> logsRun thr ops' es)
      else enCommand e \<noteq> ''Quit'' \<and> logsRun thr ops es)"

section \<open>The server's rule\<close>

text \<open>As \<open>unitStep\<close>, for every write of the connection and with MySQL's implicit commits.\<close>

fun serverStep :: "Classifier \<Rightarrow> SessionOp \<Rightarrow> bool option \<Rightarrow> bool option \<times> nat" where
  "serverStep cl OpBeginTx m = (Some False, 0)"
| "serverStep cl OpEndTx m = (None, 0)"
| "serverStep cl (OpObserve ctx query now) m =
     (if cl query = KindBegin then (Some False, 0)
      else if cl query = KindCommit \<or> cl query = KindRollback then (None, 0)
      else if isImplicitCommit query then (None, if cl query = KindWrite then 1 else 0)
      else if cl query = KindWrite then
        (case m of None \<Rightarrow> (None, 1) | Some wrote \<Rightarrow> (Some True, if wrote then 0 else 1))
      else (m, 0))"

section \<open>The log gives the rule\<close>

definition isWriteEntry :: "Classifier \<Rightarrow> Entry \<Rightarrow> bool" where
  "isWriteEntry cl e \<longleftrightarrow> isStatement e \<and> cl (enText e) = KindWrite"

definition writeTransactions :: "Classifier \<Rightarrow> Entry list \<Rightarrow> nat set" where
  "writeTransactions cl es = serverUnit cl es ` {j. j < length es \<and> isWriteEntry cl (es ! j)}"

lemma writesIn_reconstruct: "writesIn (reconstruct cl es) (serverUnits cl es) = writeTransactions cl es"
proof -
  have pairs: "writesIn (map f js) (map g js) = g ` {j \<in> set js. isWriteStatement (f j)}"
    for f :: "nat \<Rightarrow> Statement" and g :: "nat \<Rightarrow> nat" and js
    by (induction js) auto
  show ?thesis
    unfolding reconstruct_spec serverUnits_def pairs writeTransactions_def
    by (rule arg_cong [where f = "image (serverUnit cl es)"])
      (auto simp: isWriteEntry_def isWriteStatement_def labelled_def)
qed

lemma writeTransactions_snoc:
  "writeTransactions cl (pre @ [e]) =
    (if isWriteEntry cl e then insert (serverUnit cl (pre @ [e]) (length pre)) (writeTransactions cl pre)
     else writeTransactions cl pre)"
proof -
  have "{j. j < length (pre @ [e]) \<and> isWriteEntry cl ((pre @ [e]) ! j)} =
      {j. j < length pre \<and> isWriteEntry cl (pre ! j)} \<union> (if isWriteEntry cl e then {length pre} else {})"
    by (auto simp: nth_append less_Suc_eq)
  moreover have "serverUnit cl (pre @ [e]) ` {j. j < length pre \<and> isWriteEntry cl (pre ! j)} = writeTransactions cl pre"
    unfolding writeTransactions_def by (rule image_cong) (simp_all add: serverUnit_prefix)
  ultimately show ?thesis by (simp add: writeTransactions_def image_Un)
qed

lemma writeTransactions_less: "b \<in> writeTransactions cl pre \<Longrightarrow> b < length pre"
  using serverUnit_le by (fastforce simp: writeTransactions_def intro: le_less_trans)

lemma writeTransactions_finite [simp]: "finite (writeTransactions cl pre)"
  by (simp add: writeTransactions_def)

lemma writeTransactions_Nil [simp]: "writeTransactions cl [] = {}"
  by (simp add: writeTransactions_def)

text \<open>The mode of a thread after a prefix of the log.\<close>

definition threadMode :: "Classifier \<Rightarrow> Entry list \<Rightarrow> string \<Rightarrow> bool option" where
  "threadMode cl pre t = map_option (\<lambda>b. b \<in> writeTransactions cl pre) (openTx cl t pre)"

lemma threadMode_other:
  assumes "enThread e \<noteq> t"
  shows "threadMode cl (pre @ [e]) t = threadMode cl pre t"
proof (cases "openTx cl t pre")
  case (Some b)
  from openTx_facts [OF Some] have b: "b < length pre" "enThread (pre ! b) = t" by simp_all
  have "serverUnit cl (pre @ [e]) (length pre) \<noteq> b"
    using assms b openTx_facts [of cl "enThread e" pre] by (auto simp: serverUnit_last split: option.splits)
  then show ?thesis
    using assms Some by (simp add: threadMode_def openTx_snoc writeTransactions_snoc)
qed (use assms in \<open>simp add: threadMode_def openTx_snoc\<close>)

lemma threadMode_noise:
  assumes "\<not> isStatement e" and "enCommand e \<noteq> ''Quit''"
  shows "threadMode cl (pre @ [e]) t = threadMode cl pre t" and "writeTransactions cl (pre @ [e]) = writeTransactions cl pre"
proof -
  have "\<not> boundaryEntry cl e" using assms by (auto simp: entry_rules)
  then show "writeTransactions cl (pre @ [e]) = writeTransactions cl pre"
    and "threadMode cl (pre @ [e]) t = threadMode cl pre t"
    using assms by (simp_all add: writeTransactions_snoc isWriteEntry_def threadMode_def openTx_snoc)
qed

lemma threadMode_step:
  assumes "serverStep cl x (threadMode cl pre (enThread e)) = (m, k)"
    and "bracketWords cl" and e: "isStatement e" "enText e \<in> set (opTexts x)"
  shows "threadMode cl (pre @ [e]) (enThread e) = m \<and>
    card (writeTransactions cl (pre @ [e])) = card (writeTransactions cl pre) + k"
proof -
  have new: "length pre \<notin> writeTransactions cl pre" using writeTransactions_less by blast
  consider "cl (enText e) = KindBegin" "m = Some False" "k = 0"
    | "cl (enText e) \<in> {KindCommit, KindRollback}" "m = None" "k = 0"
    | "standsAlone cl e" "m = None" "k = (if cl (enText e) = KindWrite then 1 else 0)"
    | "\<not> boundaryEntry cl e" "cl (enText e) = KindWrite" "openTx cl (enThread e) pre = None" "m = None" "k = 1"
    | b where "\<not> boundaryEntry cl e" "cl (enText e) = KindWrite" "openTx cl (enThread e) pre = Some b" "m = Some True"
      "k = (if b \<in> writeTransactions cl pre then 0 else 1)"
    | "\<not> boundaryEntry cl e" "cl (enText e) \<noteq> KindWrite" "m = threadMode cl pre (enThread e)" "k = 0"
    using assms
    by (cases x; cases "openTx cl (enThread e) pre")
      (auto simp: threadMode_def entry_rules bracketWords_def split: if_splits)
  then show ?thesis
    using e new
    by cases (auto simp: threadMode_def openTx_snoc writeTransactions_snoc isWriteEntry_def serverUnit_last card_insert_if
        opensTx_def endsTx_def standsAlone_def boundaryEntry_def)
qed

lemma server_counts_by_rule:
  assumes "inj thr" and "bracketWords cl" and "logsRun thr ops es" and "\<And>c. ms c = threadMode cl pre (thr c)"
  shows "card (writeTransactions cl (pre @ es)) =
    card (writeTransactions cl pre) + countPool (serverStep cl) ops ms"
  using assms(3,4)
proof (induction es arbitrary: ops pre ms)
  case (Cons e es)
  show ?case
  proof (cases "isStatement e")
    case False
    with Cons.prems have quiet: "enCommand e \<noteq> ''Quit''" "logsRun thr ops es" by simp_all
    note noise = threadMode_noise [OF False quiet(1), of cl pre]
    show ?thesis using Cons.IH [OF quiet(2), of ms "pre @ [e]"] Cons.prems(2) noise by simp
  next
    case True
    with Cons.prems obtain c x ops' where ops: "ops = (c, x) # ops'" and e: "enThread e = thr c"
      "enText e \<in> set (opTexts x)" and rest: "logsRun thr ops' es"
      by (auto split: list.splits)
    obtain m k where step: "serverStep cl x (ms c) = (m, k)" by (cases "serverStep cl x (ms c)")
    note one = threadMode_step [of cl x pre e, OF step [unfolded Cons.prems(2) e(1) [symmetric]] assms(2) True e(2)]
    have "(ms(c := m)) i = threadMode cl (pre @ [e]) (thr i)" for i
      using Cons.prems(2) [of i] one threadMode_other [of e "thr i" cl pre] assms(1) e(1)
      by (cases "i = c") (auto simp: inj_eq)
    from Cons.IH [OF rest this] one show ?thesis by (simp add: ops step del: fun_upd_apply)
  qed
qed simp

section \<open>One rule below the other\<close>

interpretation client_server: paid_for "\<lambda>_ _. True" "unitStep cl r" "serverStep cl" withinClient paidAhead for cl r
proof unfold_locales
  fix m n x
  assume "withinClient m n"
  then show "withinClient (fst (unitStep cl r x m)) (fst (serverStep cl x n))"
    by (cases x; cases "cl (case x of OpObserve c q t \<Rightarrow> q | _ \<Rightarrow> [])")
      (auto simp: withinClient_def split: option.splits)
  show "snd (unitStep cl r x m) + paidAhead (fst (unitStep cl r x m)) (fst (serverStep cl x n))
      \<le> snd (serverStep cl x n) + paidAhead m n"
    using \<open>withinClient m n\<close>
    by (cases x; cases "cl (case x of OpObserve c q t \<Rightarrow> q | _ \<Rightarrow> [])")
      (auto simp: withinClient_def paidAhead_def split: option.splits)
qed

text \<open>Runs on which the client's rule counts no less: no \<open>BEGIN\<close> inside a transaction, no statement that
  commits implicitly, and every write in the boundary.\<close>

fun bracketed :: "Classifier \<Rightarrow> BoundaryRef \<Rightarrow> SessionOp \<Rightarrow> bool option \<Rightarrow> bool" where
  "bracketed cl r (OpObserve ctx query now) m =
     (case cl query of
        KindBegin \<Rightarrow> m = None
      | KindCommit \<Rightarrow> True
      | KindRollback \<Rightarrow> True
      | k \<Rightarrow> \<not> isImplicitCommit query \<and> (k \<noteq> KindWrite \<or> boundaryOf ctx = Some r))"
| "bracketed cl r x m = True"

interpretation server_client: paid_for "bracketed cl r" "serverStep cl" "unitStep cl r" "(=)" "\<lambda>_ _. 0" for cl r
proof unfold_locales
  fix x m n
  assume fits: "bracketed cl r x m" and "m = (n :: bool option)"
  then have "serverStep cl x m = unitStep cl r x n"
    by (cases x; cases "cl (case x of OpObserve c q t \<Rightarrow> q | _ \<Rightarrow> [])") auto
  then show "fst (serverStep cl x m) = fst (unitStep cl r x n)"
    and "snd (serverStep cl x m) + 0 \<le> snd (unitStep cl r x n) + 0" by simp_all
qed

lemma server_count:
  assumes "inj thr" and "bracketWords cl" and "logsRun thr ops es"
  shows "card (writesIn (reconstruct cl es) (serverUnits cl es)) = countPool (serverStep cl) ops (\<lambda>_. None)"
  using server_counts_by_rule [OF assms, of "\<lambda>_. None" "[]"]
  by (simp add: writesIn_reconstruct threadMode_def)

section \<open>Properties\<close>

text \<open>C11. The cross-check is at least as strict as the boundary. Let any operations of any number of
  connections of one detector, interleaved in any way and in any contexts, run against a MySQL server, each
  connection on a thread of its own, and let the text of the general query log be what the server wrote
  meanwhile (with its banner and the entries that are no statements). Unless the run sets \<open>autocommit\<close>, the check of that text counts at least as many
  transactions as the boundary counts units; and the same number when no \<open>BEGIN\<close> comes inside a transaction, no
  statement commits implicitly and the writes are all in the boundary.\<close>

theorem cross_check_is_at_least_as_strict:
  assumes "wHeap w r = newBoundary d' p name"
    and "unat (dTxSeq (wDets w d)) + length ops < 2 ^ 64"
    and "dClassify (wDets w d) = cl" and "ckClassify ch = cl" and "bracketWords cl"
    and "inj thr"
    and "list_all plainLine header" and "list_all (\<lambda>l. \<not> startsEntry l) header" and "list_all wfItem its"
    and "logsRun thr ops (entriesOf its (int (length header)))"
  shows "case rejectAutocommitChange (reconstruct cl (entriesOf its (int (length header)))) of
      Some e \<Rightarrow> myVerify ch (printLog header its, None) = (None, Some e)
    | None \<Rightarrow>
        \<exists>rep. myVerify ch (printLog header its, None) =
            (Some rep, if rpWriteUnits rep < 2 then None else Some (NonAtomicError rep)) \<and>
          (let units = int (boundaryUnits (wHeap (snd (fold poolStep ops (\<lambda>_. NewSession d, w))) r))
           in if poolFits (bracketed cl r) (serverStep cl) ops None
              then rpWriteUnits rep = units else units \<le> rpWriteUnits rep)"
proof -
  let ?es = "entriesOf its (int (length header))" and ?count = "\<lambda>step. countPool step ops (\<lambda>_. None)"
  let ?rep = "reportOf (reconstruct cl ?es) (?count (serverStep cl))"
  have "?count (unitStep cl r) \<le> ?count (serverStep cl)"
    by (rule client_server.pool_le) simp_all
  moreover have "?count (serverStep cl) \<le> ?count (unitStep cl r)" if "poolFits (bracketed cl r) (serverStep cl) ops None"
    using that by (rule server_client.pool_le) simp_all
  moreover have "myVerify ch (printLog header its, None) = myVerifyStatements (reconstruct cl ?es)"
    using parseGeneralLog_printed [OF assms(7-9), of ch] assms(4) by (simp add: myVerify_def)
  moreover have "rpWriteUnits ?rep = int (?count (serverStep cl))" by (simp add: reportOf_def Let_def)
  ultimately show ?thesis
    unfolding client_units [OF assms(1-3)] myVerifyStatements_whole server_count [OF assms(6,5,10)]
    by (auto simp: Let_def split: option.split intro!: exI [of _ ?rep])
qed

lemma inj_natDecimal: "inj natDecimal"
  by (simp add: inj_def)

definition runItem :: "nat \<Rightarrow> string \<Rightarrow> string \<Rightarrow> LogItem" where
  "runItem c cmd q = sampleItem\<lparr>liThread := natDecimal c, liCommand := cmd, liFirst := q, liMore := []\<rparr>"

definition plainText :: "string \<Rightarrow> bool" where
  "plainText q \<longleftrightarrow> q \<noteq> [] \<and> length q < 1000 \<and> list_all (\<lambda>c. byte c < 128 \<and> c \<notin> {CHR 0x09, newline, CHR 0x0D}) q"

lemma runItem_wf:
  assumes "c < 10" and "plainText cmd" and "plainText q"
  shows "wfItem (runItem c cmd q)"
proof -
  have c: "allDigits (natDecimal c)" "length (natDecimal c) = 1"
    using assms(1) natDecimal_digits [of c]
    by (simp add: allDigits_def list_all_iff) (use assms(1) in \<open>subst natDecimal.simps, simp\<close>)
  then have "newline \<notin> set (natDecimal c)"
    by (auto simp: allDigits_def list_all_iff isDigit_def)
  moreover have "newline \<notin> set cmd" "newline \<notin> set q" "q \<noteq> []" "last q \<noteq> CHR 0x0D"
    using assms(2,3) last_in_set [of q] by (auto simp: plainText_def list_all_iff)
  moreover have "cmd \<noteq> []" "list_all (\<lambda>c. byte c < 128 \<and> c \<noteq> CHR 0x09) cmd" "length cmd < 1000" "length q < 1000"
    using assms(2,3) by (auto simp: plainText_def list_all_iff)
  ultimately show ?thesis
    using c
    by (simp add: wfItem_def runItem_def sampleItem_def wfStamp_def itemLines_def plainLine_def
        entryLine_def stampText_def scannerLimit_def) (simp add: allDigits_def isDigit_def)
qed

lemma plain_header: "plainLine ''Tcp port: 0''" "\<not> startsEntry ''Tcp port: 0''"
  by (simp add: plainLine_def scannerLimit_def)
    (simp add: not_startsEntry firstMatch_def entryRe_def timestampRe_def exactly_def digits_def numeral_eq_Suc)

theorem cross_check_is_at_least_as_strict_witness:
  "let c = CtxBoundary 0 Background;
     ops = [(0, OpBeginTx), (1, OpObserve c ''UPDATE t SET a = 1'' 2), (0, OpObserve c ''INSERT INTO t VALUES (1)'' 3),
       (0, OpObserve c ''DELETE FROM u'' 4), (0, OpEndTx)];
     its = [runItem 0 ''Connect'' ''root@localhost'', runItem 0 ''Query'' ''START TRANSACTION'',
       runItem 1 ''Query'' ''UPDATE t SET a = 1'', runItem 0 ''Prepare'' ''INSERT INTO t VALUES (1)'',
       runItem 0 ''Execute'' ''INSERT INTO t VALUES (1)'', runItem 0 ''Query'' ''DELETE FROM u'',
       runItem 0 ''Query'' ''ROLLBACK'']
   in \<exists>rep. myVerify (NewChecker []) (printLog [''Tcp port: 0''] its, None) =
        (Some rep, if rpWriteUnits rep < 2 then None else Some (NonAtomicError rep)) \<and>
      rpWriteUnits rep = int (boundaryUnits (wHeap (snd (fold poolStep ops (\<lambda>_. NewSession 0, runWorld))) 0))"
proof -
  let ?c = "CtxBoundary 0 Background"
  let ?ops = "[(0, OpBeginTx), (1, OpObserve ?c ''UPDATE t SET a = 1'' 2), (0, OpObserve ?c ''INSERT INTO t VALUES (1)'' 3),
       (0, OpObserve ?c ''DELETE FROM u'' 4), (0, OpEndTx)] :: (nat \<times> SessionOp) list"
  let ?its = "[runItem 0 ''Connect'' ''root@localhost'', runItem 0 ''Query'' ''START TRANSACTION'',
       runItem 1 ''Query'' ''UPDATE t SET a = 1'', runItem 0 ''Prepare'' ''INSERT INTO t VALUES (1)'',
       runItem 0 ''Execute'' ''INSERT INTO t VALUES (1)'', runItem 0 ''Query'' ''DELETE FROM u'',
       runItem 0 ''Query'' ''ROLLBACK'']"
  have bracketed: "poolFits (bracketed DefaultClassifier 0) (serverStep DefaultClassifier) ?ops None"
    by code_simp
  have wf: "list_all wfItem ?its"
    by (simp add: runItem_wf plainText_def)
  have header: "list_all plainLine [''Tcp port: 0'']" "list_all (\<lambda>l. \<not> startsEntry l) [''Tcp port: 0'']"
    using plain_header by simp_all
  have logs: "logsRun natDecimal ?ops (entriesOf ?its (int (length [''Tcp port: 0''])))"
    by (simp add: runItem_def isStatement_def)
  have quiet: "rejectAutocommitChange (reconstruct DefaultClassifier (entriesOf ?its (int (length [''Tcp port: 0''])))) = None"
    by code_simp
  have "unat (dTxSeq (wDets runWorld 0)) + length ?ops < 2 ^ 64" by (simp add: New_def)
  moreover have "ckClassify (NewChecker []) = DefaultClassifier" by (simp add: NewChecker_def)
  ultimately show ?thesis
    using cross_check_is_at_least_as_strict [OF _ _ runWorld_det(2) _ default_brackets inj_natDecimal header wf logs,
        of 0 0 Background "''Job''" "NewChecker []"]
    by (simp only: quiet bracketed option.case Let_def World.simps if_True refl simp_thms)
qed

text \<open>The README's example: a transaction with a write, a DDL statement and a write is one unit for the
  boundary and three server transactions.\<close>

lemma implicit_commits_are_invisible_to_the_client:
  "let c = CtxBoundary 0 Background;
     ops = [(0, OpObserve c ''BEGIN'' 1), (0, OpObserve c ''INSERT INTO t VALUES (1)'' 2),
       (0, OpObserve c ''CREATE TABLE u (a int)'' 3), (0, OpObserve c ''INSERT INTO u VALUES (1)'' 4),
       (0, OpObserve c ''COMMIT'' 5)];
     its = map (runItem 0 ''Query'') [''BEGIN'', ''INSERT INTO t VALUES (1)'', ''CREATE TABLE u (a int)'',
       ''INSERT INTO u VALUES (1)'', ''COMMIT'']
   in boundaryUnits (wHeap (snd (fold poolStep ops (\<lambda>_. NewSession 0, runWorld))) 0) = 1 \<and>
     map_option rpWriteUnits (fst (myVerify (NewChecker []) (printLog [] its, None))) = Some 3"
proof -
  let ?c = "CtxBoundary 0 Background"
  let ?ops = "[(0, OpObserve ?c ''BEGIN'' 1), (0, OpObserve ?c ''INSERT INTO t VALUES (1)'' 2),
       (0, OpObserve ?c ''CREATE TABLE u (a int)'' 3), (0, OpObserve ?c ''INSERT INTO u VALUES (1)'' 4),
       (0, OpObserve ?c ''COMMIT'' 5)] :: (nat \<times> SessionOp) list"
  let ?its = "map (runItem 0 ''Query'') [''BEGIN'', ''INSERT INTO t VALUES (1)'', ''CREATE TABLE u (a int)'',
       ''INSERT INTO u VALUES (1)'', ''COMMIT'']"
  let ?es = "entriesOf ?its (int (length ([] :: string list)))"
  have one: "countPool (unitStep DefaultClassifier 0) ?ops (\<lambda>_. None) = 1" by code_simp
  have "unat (dTxSeq (wDets runWorld 0)) + length ?ops < 2 ^ 64" by (simp add: New_def)
  then have "boundaryUnits (wHeap (snd (fold poolStep ?ops (\<lambda>_. NewSession 0, runWorld))) 0) = 1"
    using client_units [OF _ _ runWorld_det(2), of 0 0 Background "''Job''" ?ops]
    by (simp only: one World.simps refl simp_thms)
  moreover have "map_option rpWriteUnits (fst (myVerify (NewChecker []) (printLog [] ?its, None))) = Some 3"
  proof -
    have three: "countPool (serverStep DefaultClassifier) ?ops (\<lambda>_. None) = 3" by code_simp
    have "logsRun natDecimal ?ops ?es" by (simp add: runItem_def isStatement_def)
    note count = server_count [OF inj_natDecimal default_brackets this]
    have wf: "list_all wfItem ?its" by (simp add: runItem_wf plainText_def)
    have quiet: "rejectAutocommitChange (reconstruct DefaultClassifier ?es) = None" by code_simp
    have "myVerify (NewChecker []) (printLog [] ?its, None) = myVerifyStatements (reconstruct DefaultClassifier ?es)"
      using parseGeneralLog_printed [of "[]" ?its "NewChecker []"] wf by (simp add: myVerify_def NewChecker_def)
    then show ?thesis
      unfolding myVerifyStatements_whole count three Let_def quiet by (simp add: reportOf_def Let_def)
  qed
  ultimately show ?thesis unfolding Let_def by (rule conjI)
qed

end
