(* ===== verification/Pgcheck.thy ===== *)
theory Pgcheck
  imports Crosscheck Classify
begin

text \<open>
  \<open>pgcheck/pgcheck.go\<close> and \<open>pgcheck/parse.go\<close>: the PostgreSQL adapter. \<open>CompileLogLinePrefix\<close>
  translates a \<open>log_line_prefix\<close> into a regular expression, \<open>New\<close> builds a checker from options and
  requires a transaction identifier in the prefix, \<open>Parse\<close> reads the statements of the log with the
  server's own transaction identifiers, and the \<open>Verify\<close> functions delegate to \<open>Crosscheck\<close>.

  A compiled expression (\<open>*regexp.Regexp\<close>) is what the package uses of it: its text, its group names
  and \<open>FindStringSubmatchIndex\<close> as the rest of the line after the match with the groups that took
  part. One given through \<open>WithPrefixPattern\<close> is arbitrary; \<open>CompileLogLinePrefix\<close> builds its own
  from the expressions of \<open>GoText\<close>.
\<close>

section \<open>The prefix pattern\<close>

record Pattern =
  ptText :: string
  ptNames :: "string list"
  ptFind :: "string \<Rightarrow> (string \<times> groups) option"

text \<open>\<open>string(c)\<close> of a byte: the UTF-8 encoding of the rune with that number.\<close>

definition runeOfByte :: "char \<Rightarrow> string" where
  "runeOfByte c =
     (if byte c < 0x80 then [c]
      else [char_of (0xC0 + byte c div 64), char_of (0x80 + byte c mod 64)])"

text \<open>\<open>regexp.QuoteMeta\<close> of that one rune.\<close>

definition metaChars :: string where
  "metaChars = backslash # ''.+*?()|[]{}^$''"

definition quoteMeta :: "char \<Rightarrow> string" where
  "quoteMeta c = (if c \<in> set metaChars then [backslash, c] else runeOfByte c)"

text \<open>A piece of the expression: its text and what it matches.\<close>

type_synonym piece = "string \<times> regex"

definition literalPiece :: "char \<Rightarrow> piece" where
  "literalPiece c = (quoteMeta c, Class (oneRune c))"

definition vxidRe :: regex where
  "vxidRe = seqs [some1 digits, lit ''/'', some1 digits]"

definition dateTimeRe :: regex where
  "dateTimeRe =
     seqs [exactly 4 digits, lit ''-'', exactly 2 digits, lit ''-'', exactly 2 digits, lit '' '',
           exactly 2 digits, lit '':'', exactly 2 digits, lit '':'', exactly 2 digits]"

definition dateTimeText :: string where
  "dateTimeText =
     [backslash] @ ''d{4}-'' @ [backslash] @ ''d{2}-'' @ [backslash] @ ''d{2} '' @ [backslash] @ ''d{2}:'' @
     [backslash] @ ''d{2}:'' @ [backslash] @ ''d{2}''"

definition hexDigits :: rune_class where
  "hexDigits = OneOf [(48, 57), (97, 102)]"

definition escapePiece :: "char \<Rightarrow> piece option" where
  "escapePiece c =
     (if c = CHR ''x'' then
        Some (''(?P<xid>'' @ [backslash] @ ''d+)'', Group ''xid'' (some1 digits))
      else if c = CHR ''v'' then
        Some (''(?P<vxid>'' @ [backslash] @ ''d+/'' @ [backslash] @ ''d+)?'', opt (Group ''vxid'' vxidRe))
      else if c \<in> {CHR ''p'', CHR ''P'', CHR ''l''} then
        Some ([backslash] @ ''d+'', some1 digits)
      else if c = CHR ''m'' then
        Some (dateTimeText @ [backslash] @ ''.'' @ [backslash] @ ''d+ '' @ [backslash] @ ''S+'',
          seqs [dateTimeRe, lit ''.'', some1 digits, lit '' '', some1 nonSpaces])
      else if c \<in> {CHR ''t'', CHR ''s''} then
        Some (dateTimeText @ '' '' @ [backslash] @ ''S+'', seqs [dateTimeRe, lit '' '', some1 nonSpaces])
      else if c = CHR ''n'' then
        Some ([backslash] @ ''d+'' @ [backslash] @ ''.'' @ [backslash] @ ''d+'',
          seqs [some1 digits, lit ''.'', some1 digits])
      else if c = CHR ''c'' then
        Some (''[0-9a-f]+'' @ [backslash] @ ''.[0-9a-f]+'', seqs [some1 hexDigits, lit ''.'', some1 hexDigits])
      else if c = CHR ''e'' then
        Some (''[0-9A-Z]{5}'', exactly 5 (OneOf [(48, 57), (65, 90)]))
      else if c = CHR ''Q'' then
        Some (''-?'' @ [backslash] @ ''d+'', seqs [opt (lit ''-''), some1 digits])
      else if c = CHR ''q'' then Some ([], Epsilon)
      else if c = CHR ''%'' then Some (''%'', lit ''%'')
      else if c \<in> {CHR ''a'', CHR ''u'', CHR ''d'', CHR ''r'', CHR ''h'', CHR ''b'', CHR ''i''} then
        Some (''.*?'', Lazy anyRune)
      else None)"

definition bareEscapeError :: "(nat \<Rightarrow> bool) \<Rightarrow> string \<Rightarrow> CheckError" where
  "bareEscapeError printable val =
     TextError (''pgcheck: log_line_prefix '' @ goQuote printable val @ '' ends with a bare %'')"

definition unsupportedEscapeError :: "char \<Rightarrow> CheckError" where
  "unsupportedEscapeError c =
     TextError (''pgcheck: unsupported log_line_prefix escape %'' @ runeOfByte c @
       ''; use WithPrefixPattern with a hand-written pattern instead'')"

text \<open>The loop from index \<open>i\<close> on; \<open>val\<close> is the whole value, for the message.\<close>

fun compileFrom :: "(nat \<Rightarrow> bool) \<Rightarrow> string \<Rightarrow> string \<Rightarrow> CheckError + piece list" where
  "compileFrom printable val [] = Inr []"
| "compileFrom printable val (c # s) =
     (if c \<noteq> CHR ''%'' then
        (case compileFrom printable val s of
           Inl e \<Rightarrow> Inl e | Inr ps \<Rightarrow> Inr (literalPiece c # ps))
      else
        (case s of
           [] \<Rightarrow> Inl (bareEscapeError printable val)
         | d # s' \<Rightarrow>
             (case escapePiece d of
                None \<Rightarrow> Inl (unsupportedEscapeError d)
              | Some p \<Rightarrow>
                  (case compileFrom printable val s' of
                     Inl e \<Rightarrow> Inl e | Inr ps \<Rightarrow> Inr (p # ps)))))"

definition compiledPattern :: "piece list \<Rightarrow> Pattern" where
  "compiledPattern ps =
     (let re = seqs (map snd ps) in
      \<lparr>ptText = ''^'' @ concat (map fst ps), ptNames = groupNames re, ptFind = firstMatch re\<rparr>)"

definition CompileLogLinePrefix :: "(nat \<Rightarrow> bool) \<Rightarrow> string \<Rightarrow> CheckError + Pattern" where
  "CompileLogLinePrefix printable val =
     (case compileFrom printable val val of
        Inl e \<Rightarrow> Inl e | Inr ps \<Rightarrow> Inr (compiledPattern ps))"

definition hasGroup :: "Pattern \<Rightarrow> string \<Rightarrow> bool" where
  "hasGroup re name \<longleftrightarrow> name \<in> set (ptNames re)"

section \<open>The checker\<close>

definition DefaultLogLinePrefix :: string where
  "DefaultLogLinePrefix = ''%m [%p] %q%x %v ''"

record PgChecker =
  pgPrefixRe :: Pattern
  pgClassify :: "string \<Rightarrow> StatementKind"

record PgSettings =
  psPrefix :: string
  psPattern :: "Pattern option"
  psClassify :: "string \<Rightarrow> StatementKind"

datatype PgOption =
    WithLogLinePrefix string
  | WithPrefixPattern Pattern
  | WithPgClassifier "string \<Rightarrow> StatementKind"

fun applyPgOption :: "PgOption \<Rightarrow> PgSettings \<Rightarrow> PgSettings" where
  "applyPgOption (WithLogLinePrefix p) s = s\<lparr>psPrefix := p\<rparr>"
| "applyPgOption (WithPrefixPattern re) s = s\<lparr>psPattern := Some re\<rparr>"
| "applyPgOption (WithPgClassifier c) s = s\<lparr>psClassify := c\<rparr>"

definition noGroupError :: "(nat \<Rightarrow> bool) \<Rightarrow> Pattern \<Rightarrow> CheckError" where
  "noGroupError printable re =
     TextError (''pgcheck: prefix pattern '' @ goQuote printable (ptText re) @
       '' captures neither a named group '' @ [CHR 0x22] @ ''xid'' @ [CHR 0x22] @ '' (%x) nor '' @
       [CHR 0x22] @ ''vxid'' @ [CHR 0x22] @ '' (%v); transaction identifiers cannot be extracted'')"

definition NewPgChecker :: "(nat \<Rightarrow> bool) \<Rightarrow> PgOption list \<Rightarrow> CheckError + PgChecker" where
  "NewPgChecker printable opts =
     (let s = fold applyPgOption opts
        \<lparr>psPrefix = DefaultLogLinePrefix, psPattern = None, psClassify = DefaultClassifier\<rparr>
      in case (case psPattern s of
                 Some re \<Rightarrow> Inr re
               | None \<Rightarrow> CompileLogLinePrefix printable (psPrefix s)) of
           Inl e \<Rightarrow> Inl e
         | Inr re \<Rightarrow>
             if \<not> hasGroup re ''xid'' \<and> \<not> hasGroup re ''vxid'' then Inl (noGroupError printable re)
             else Inr \<lparr>pgPrefixRe = re, pgClassify = psClassify s\<rparr>)"

section \<open>Parsing\<close>

definition bodyRe :: regex where
  "bodyRe =
     seqs [lit ''LOG:'', some1 spaces,
           opt (seqs [lit ''duration: '', some1 (OneOf [(48, 57), (46, 46)]), lit '' ms'', some1 spaces]),
           Alt (lit ''statement:'') (seqs [lit ''execute '', Greedy (NoneOf [(58, 58)]), lit '':'']),
           opt (Class spaces), Group ''1'' (Greedy anyRune), AtEnd]"

text \<open>The loop over the groups: the last \<open>xid\<close>, and the last \<open>vxid\<close> with a local part other than 0
  as the identity.\<close>

fun groupLoop :: "groups \<Rightarrow> string \<Rightarrow> string \<Rightarrow> string \<times> string" where
  "groupLoop [] xid txID = (xid, txID)"
| "groupLoop ((name, val) # g) xid txID =
     (if name = ''xid'' then groupLoop g val txID
      else if name = ''vxid'' then groupLoop g xid (if \<not> hasSuffix val ''/0'' then val else txID)
      else groupLoop g xid txID)"

definition identityFrom :: "groups \<Rightarrow> string" where
  "identityFrom g =
     (let (xid, txID) = groupLoop g [] [] in
      if txID = [] \<and> xid \<noteq> [] \<and> xid \<noteq> ''0'' then ''xid '' @ xid else txID)"

text \<open>The loop over the lines: \<open>line\<close>, \<open>stmts\<close> and \<open>continuing\<close>.\<close>

fun pgParseLoop :: "Pattern \<Rightarrow> string list \<Rightarrow> int \<Rightarrow> Statement list \<Rightarrow> bool \<Rightarrow> Statement list" where
  "pgParseLoop re [] line stmts continuing = stmts"
| "pgParseLoop re (text # rest) line stmts continuing =
     (if hasPrefix text [CHR 0x09] then
        (if continuing then
           pgParseLoop re rest (line + 1)
             (butlast stmts @ [(last stmts)\<lparr>stSQL := stSQL (last stmts) @ newline # tl text\<rparr>]) continuing
         else pgParseLoop re rest (line + 1) stmts continuing)
      else
        (case ptFind re text of
           None \<Rightarrow> pgParseLoop re rest (line + 1) stmts False
         | Some (body, g) \<Rightarrow>
             (case firstMatch bodyRe body of
                None \<Rightarrow> pgParseLoop re rest (line + 1) stmts False
              | Some (_, m) \<Rightarrow>
                  pgParseLoop re rest (line + 1)
                    (stmts @ [\<lparr>stSQL = the (map_of m ''1''), stKind = KindOther, stTxID = identityFrom g,
                               stLine = line + 1\<rparr>]) True)))"

definition pgScannerLimit :: nat where
  "pgScannerLimit = 4 * 1024 * 1024"

definition pgParse :: "PgChecker \<Rightarrow> Parser" where
  "pgParse c r =
     (case scanLines pgScannerLimit r of
        Inl e \<Rightarrow> Inl (TextError e)
      | Inr ls \<Rightarrow> Inr (map (\<lambda>s. s\<lparr>stKind := pgClassify c (stSQL s)\<rparr>)
                        (pgParseLoop (pgPrefixRe c) ls 0 [] False)))"

section \<open>Verification\<close>

definition pgAdviseOnMissingTxID :: "CheckError option \<Rightarrow> CheckError option" where
  "pgAdviseOnMissingTxID err =
     (case err of
        None \<Rightarrow> None
      | Some e \<Rightarrow>
          if isMissingTxID e then Some (AdvisedError e
            (''; include %v in log_line_prefix and log statements with log_statement = '' @ [CHR 0x27] @
             ''all'' @ [CHR 0x27] @ '' so every line carries a virtual transaction ID''))
          else Some e)"

definition pgVerify :: "PgChecker \<Rightarrow> Reader \<Rightarrow> CheckReport option \<times> CheckError option" where
  "pgVerify c r = (let (rep, err) = Verify (pgParse c) r in (rep, pgAdviseOnMissingTxID err))"

definition pgVerifyScenario ::
    "(nat \<Rightarrow> bool) \<Rightarrow> PgChecker \<Rightarrow> Reader \<Rightarrow> string \<Rightarrow> CheckReport option \<times> CheckError option" where
  "pgVerifyScenario printable c r label =
     (let (rep, err) = VerifyScenario printable (pgParse c) r label in (rep, pgAdviseOnMissingTxID err))"

definition pgBeginMarker :: "string \<Rightarrow> string" where
  "pgBeginMarker label = BeginMarker label"

definition pgEndMarker :: "string \<Rightarrow> string" where
  "pgEndMarker label = EndMarker label"

section \<open>Which prefixes are accepted\<close>

text \<open>The characters after each percent sign, and whether the value ends with a bare one.\<close>

fun escapes :: "string \<Rightarrow> string" where
  "escapes [] = []"
| "escapes (c # s) =
     (if c \<noteq> CHR ''%'' then escapes s else (case s of [] \<Rightarrow> [] | d # s' \<Rightarrow> d # escapes s'))"

fun dangling :: "string \<Rightarrow> bool" where
  "dangling [] = False"
| "dangling (c # s) =
     (if c \<noteq> CHR ''%'' then dangling s else (case s of [] \<Rightarrow> True | d # s' \<Rightarrow> dangling s'))"

definition supportedEscapes :: string where
  "supportedEscapes = ''xvpPlmtsnceQq%audrhbi''"

lemma escapePiece_None: "escapePiece c = None \<longleftrightarrow> c \<notin> set supportedEscapes"
  by (simp add: escapePiece_def supportedEscapes_def)

definition groupOfEscape :: "char \<Rightarrow> string list" where
  "groupOfEscape c = (if c = CHR ''x'' then [''xid''] else if c = CHR ''v'' then [''vxid''] else [])"

lemma escapePiece_table:
  "list_all (\<lambda>c. map_option (\<lambda>p. groupNames (snd p)) (escapePiece c) = Some (groupOfEscape c))
     supportedEscapes"
  by (simp add: supportedEscapes_def escapePiece_def groupOfEscape_def opt_def vxidRe_def dateTimeRe_def
      groupNames_seqs)

lemma escapePiece_groups: "escapePiece c = Some p \<Longrightarrow> groupNames (snd p) = groupOfEscape c"
  using escapePiece_table escapePiece_None [of c] by (fastforce simp: list_all_iff)

lemma compileFrom_isl:
  "isl (compileFrom printable val s) \<longleftrightarrow> \<not> (\<not> dangling s \<and> set (escapes s) \<subseteq> set supportedEscapes)"
proof (induction printable val s rule: compileFrom.induct)
  case (2 printable val c s)
  show ?case
  proof (cases "c = CHR ''%''")
    case False
    with 2 show ?thesis by (auto split: sum.splits)
  next
    case True
    show ?thesis
    proof (cases s)
      case (Cons d s')
      with 2(2) [OF _ Cons] True escapePiece_None [of d] show ?thesis
        by (cases "escapePiece d") (auto split: sum.splits)
    qed (use True in simp)
  qed
qed simp

lemma compileFrom_groups:
  "compileFrom printable val s = Inr ps \<Longrightarrow>
   concat (map (\<lambda>p. groupNames (snd p)) ps) = concat (map groupOfEscape (escapes s))"
proof (induction printable val s arbitrary: ps rule: compileFrom.induct)
  case (2 printable val c s)
  show ?case
  proof (cases "c = CHR ''%''")
    case False
    with 2 show ?thesis by (auto simp: literalPiece_def split: sum.splits)
  next
    case True
    show ?thesis
    proof (cases s)
      case (Cons d s')
      with 2(3) True obtain p qs where "escapePiece d = Some p" "compileFrom printable val s' = Inr qs"
          "ps = p # qs"
        by (auto split: option.splits sum.splits)
      with 2(2) [OF _ Cons] True Cons escapePiece_groups [of d p] show ?thesis
        by (simp add: groupOfEscape_def)
    qed (use True 2(3) in simp)
  qed
qed simp

text \<open>C26. A checker is built for a \<open>log_line_prefix\<close> exactly when the value does not end with a bare
  percent sign, uses only the escapes the package translates, and names a transaction identifier,
  \<open>%x\<close> or \<open>%v\<close>; everything else is an error.\<close>

theorem prefix_accepted_iff:
  "\<not> isl (NewPgChecker printable [WithLogLinePrefix val]) \<longleftrightarrow>
     \<not> dangling val \<and> set (escapes val) \<subseteq> set supportedEscapes \<and>
     (CHR ''x'' \<in> set (escapes val) \<or> CHR ''v'' \<in> set (escapes val))"
proof (cases "compileFrom printable val val")
  case (Inl e)
  then have "isl (compileFrom printable val val)" by simp
  with compileFrom_isl [of printable val val] Inl show ?thesis
    by (auto simp: NewPgChecker_def CompileLogLinePrefix_def Let_def)
next
  case (Inr ps)
  then have "\<not> isl (compileFrom printable val val)" by simp
  then have ok: "\<not> dangling val \<and> set (escapes val) \<subseteq> set supportedEscapes"
    unfolding compileFrom_isl by blast
  have "ptNames (compiledPattern ps) = concat (map groupOfEscape (escapes val))"
    using compileFrom_groups [OF Inr]
    by (simp add: compiledPattern_def groupNames_seqs Let_def comp_def)
  then have "hasGroup (compiledPattern ps) ''xid'' \<longleftrightarrow> CHR ''x'' \<in> set (escapes val)"
    and "hasGroup (compiledPattern ps) ''vxid'' \<longleftrightarrow> CHR ''v'' \<in> set (escapes val)"
    by (auto simp: hasGroup_def groupOfEscape_def)
  with Inr ok show ?thesis
    by (simp add: NewPgChecker_def CompileLogLinePrefix_def Let_def)
qed

text \<open>The loop quotes the value byte by byte, so a literal that is not ASCII is translated into
  other runes: the pattern for a prefix with an \<open>e\<close> with acute accent does not match that prefix.\<close>

lemma non_ascii_prefix_never_matches:
  "map_sum id (\<lambda>re. ptFind re ([CHR 0xC3, CHR 0xA9] @ s))
     (CompileLogLinePrefix printable [CHR 0xC3, CHR 0xA9]) = Inr None"
  by (simp add: CompileLogLinePrefix_def compiledPattern_def literalPiece_def firstMatch_def oneRune_def
      leadInfo_def Let_def)

end
