(* ===== verification/PgMessages.thy ===== *)
theory PgMessages
  imports Pgcheck
begin

text \<open>
  The verdict on any PostgreSQL log, under any \<open>log_line_prefix\<close> that \<open>pgcheck.New\<close> accepts
  (\<open>pgcheck/parse.go\<close>, \<open>pgcheck/pgcheck.go\<close>). A log is read as messages: a line that does not start with a
  tab, with the tab-indented lines after it. A message is a statement when the package's two expressions, the
  one of the prefix and that of the body, recognize its first line; every other message, with its
  continuation lines, is skipped. \<open>pgLogged\<close> says this without the parser's loop and its flag, and pairs each
  statement with the server's transaction its prefix shows.
\<close>

section \<open>Messages\<close>

definition isContinuation :: "string \<Rightarrow> bool" where
  "isContinuation l \<longleftrightarrow> hasPrefix l [CHR 0x09]"

text \<open>The number of the first line, that line, and the continuation lines without their tab.\<close>

type_synonym PgMessage = "int \<times> string \<times> string list"

fun pgMessages :: "int \<Rightarrow> string list \<Rightarrow> PgMessage list" where
  "pgMessages n [] = []"
| "pgMessages n (l # ls) =
     (if isContinuation l then pgMessages (n + 1) ls
      else (n + 1, l, map tl (takeWhile isContinuation ls)) # pgMessages (n + 1) ls)"

text \<open>The transaction a prefix shows: the virtual one when it is active, else the real one when it is
  assigned.\<close>

datatype ServerTx = VirtualTx string | RealTx string

definition transactionOf :: "groups \<Rightarrow> ServerTx option" where
  "transactionOf g =
     (let vxids = [v. (name, v) \<leftarrow> g, name = ''vxid'' \<and> \<not> hasSuffix v ''/0''];
          xids = [v. (name, v) \<leftarrow> g, name = ''xid'']
      in if vxids \<noteq> [] then Some (VirtualTx (last vxids))
         else if xids \<noteq> [] \<and> last xids \<noteq> [] \<and> last xids \<noteq> ''0'' then Some (RealTx (last xids))
         else None)"

fun txText :: "ServerTx option \<Rightarrow> string" where
  "txText None = []"
| "txText (Some (VirtualTx v)) = v"
| "txText (Some (RealTx x)) = ''xid '' @ x"

definition messageStatement ::
    "Pattern \<Rightarrow> (string \<Rightarrow> StatementKind) \<Rightarrow> PgMessage \<Rightarrow> (Statement \<times> ServerTx option) option" where
  "messageStatement re cl msg =
     (let (n, l, more) = msg in
      case ptFind re l of
        None \<Rightarrow> None
      | Some (body, g) \<Rightarrow>
          (case firstMatch bodyRe body of
             None \<Rightarrow> None
           | Some (_, m) \<Rightarrow>
               (let sql = the (map_of m ''1'') @ concat (map (\<lambda>l. newline # l) more); tx = transactionOf g
                in Some (\<lparr>stSQL = sql, stKind = cl sql, stTxID = txText tx, stLine = n\<rparr>, tx))))"

definition pgLogged ::
    "Pattern \<Rightarrow> (string \<Rightarrow> StatementKind) \<Rightarrow> string list \<Rightarrow> (Statement \<times> ServerTx option) list" where
  "pgLogged re cl ls = List.map_filter (messageStatement re cl) (pgMessages 0 ls)"

section \<open>Captured transactions\<close>

text \<open>What a capture of \<open>%v\<close> starts with, so that no virtual transaction reads like a real one.\<close>

definition digitFirst :: "string \<Rightarrow> bool" where
  "digitFirst v \<longleftrightarrow> v \<noteq> [] \<and> isDigit (hd v)"

definition vxidsDigitFirst :: "groups \<Rightarrow> bool" where
  "vxidsDigitFirst g \<longleftrightarrow> (\<forall>v. (''vxid'', v) \<in> set g \<longrightarrow> digitFirst v)"

lemma groupLoop_last:
  "groupLoop g xid tx =
     (let vxids = [v. (name, v) \<leftarrow> g, name = ''vxid'' \<and> \<not> hasSuffix v ''/0''];
          xids = [v. (name, v) \<leftarrow> g, name = ''xid'']
      in (if xids = [] then xid else last xids, if vxids = [] then tx else last vxids))"
  by (induction g xid tx rule: groupLoop.induct) (auto simp: Let_def)

lemma identityFrom_transaction:
  assumes "vxidsDigitFirst g"
  shows "identityFrom g = txText (transactionOf g)"
proof -
  let ?vxids = "[v. (name, v) \<leftarrow> g, name = ''vxid'' \<and> \<not> hasSuffix v ''/0'']"
  have "last ?vxids \<noteq> []" if "?vxids \<noteq> []"
  proof -
    have "last ?vxids \<in> set ?vxids" using that by (rule last_in_set)
    then have "(''vxid'', last ?vxids) \<in> set g" by auto
    with assms show ?thesis by (auto simp: vxidsDigitFirst_def digitFirst_def)
  qed
  then show ?thesis by (auto simp: identityFrom_def transactionOf_def groupLoop_last Let_def)
qed

lemma transactionOf_virtual:
  assumes "transactionOf g = Some (VirtualTx v)" and "vxidsDigitFirst g"
  shows "digitFirst v"
proof -
  have "v \<in> set [v. (name, v) \<leftarrow> g, name = ''vxid'' \<and> \<not> hasSuffix v ''/0'']"
    using assms(1) last_in_set [of "[v. (name, v) \<leftarrow> g, name = ''vxid'' \<and> \<not> hasSuffix v ''/0'']"]
    by (auto simp: transactionOf_def Let_def split: if_splits)
  then show ?thesis using assms(2) by (auto simp: vxidsDigitFirst_def)
qed

definition shownTx :: "ServerTx option \<Rightarrow> bool" where
  "shownTx tx \<longleftrightarrow> (\<forall>v. tx = Some (VirtualTx v) \<longrightarrow> digitFirst v)"

lemma txText_empty: "shownTx tx \<Longrightarrow> txText tx = [] \<longleftrightarrow> tx = None"
  by (cases tx rule: txText.cases) (auto simp: shownTx_def digitFirst_def)

lemma txText_inj: "shownTx tx \<Longrightarrow> shownTx ty \<Longrightarrow> txText tx = txText ty \<longleftrightarrow> tx = ty"
  by (cases tx rule: txText.cases; cases ty rule: txText.cases)
    (auto simp: shownTx_def digitFirst_def isDigit_def)

section \<open>Compiled prefixes\<close>

lemma matches_Seq:
  assumes "(t, g) \<in> set (matches (Seq a b) s)"
  obtains u g1 g2 where "(u, g1) \<in> set (matches a s)" "(t, g2) \<in> set (matches b u)" "g = g1 @ g2"
  using assms by auto

lemma matches_groupNames: "(t, g) \<in> set (matches r s) \<Longrightarrow> fst ` set g \<subseteq> set (groupNames r)"
proof (induction r arbitrary: s t g)
  case (Seq a b)
  obtain u g1 g2 where "(u, g1) \<in> set (matches a s)" "(t, g2) \<in> set (matches b u)" "g = g1 @ g2"
    using Seq.prems by (rule matches_Seq)
  with Seq.IH(1) [of u g1 s] Seq.IH(2) [of t g2 u] show ?case by auto
next
  case (Group name a)
  then obtain h where "(t, h) \<in> set (matches a s)" "g = (name, take (length s - length t) s) # h" by auto
  with Group.IH [of t h s] show ?case by auto
next
  case (Alt a b)
  then consider "(t, g) \<in> set (matches a s)" | "(t, g) \<in> set (matches b s)" by auto
  then show ?case using Alt.IH(1) [of t g s] Alt.IH(2) [of t g s] by cases auto
qed (auto simp: split_def Let_def split: if_splits)

lemma matches_digit:
  assumes "(t, g) \<in> set (matches (Seq (Seq (Class digits) a) b) s)"
  shows "digitFirst (take (length s - length t) s)"
proof -
  obtain x y h1 h2 h3 where m: "(x, h1) \<in> set (matches (Class digits) s)" "(y, h2) \<in> set (matches a x)"
      "(t, h3) \<in> set (matches b y)"
    using assms by (elim matches_Seq)
  define u where "u = drop (snd (decodeRune s)) s"
  have u: "s \<noteq> []" "inClass digits (fst (decodeRune s))" "u = drop (snd (decodeRune s)) s" "x = u"
    using m(1) by (auto simp: u_def split_def Let_def split: if_splits)
  have "suffix t u" using matches_suffix [OF m(2)] matches_suffix [OF m(3)] suffix_order.trans u(4) by blast
  moreover have "length u < length s" using decodeRune_size [OF u(1)] u(1,3) by (cases s) auto
  ultimately have "length t < length s" using suffix_length_le by fastforce
  then obtain c s' where s: "s = c # s'" "take (length s - length t) s = c # take (length s' - length t) s'"
    by (cases s) (auto simp: Suc_diff_le)
  have "wfRune (fst (decodeRune s), take (snd (decodeRune s)) s)" using wfRune_decode u(1) by simp
  then have "byte c = fst (decodeRune s)"
    using u(2) decodeRune_size [OF u(1)] by (auto simp: wfRune_def digits_def s(1) take_Cons')
  then have "isDigit c" using u(2) by (simp add: digits_def isDigit_def)
  then show ?thesis unfolding digitFirst_def s(2) by simp
qed

definition goodCapture :: "regex \<Rightarrow> bool" where
  "goodCapture re \<longleftrightarrow> (\<forall>s t g. (t, g) \<in> set (matches re s) \<longrightarrow> vxidsDigitFirst g)"

lemma goodCapture_plain: "''vxid'' \<notin> set (groupNames re) \<Longrightarrow> goodCapture re"
  using matches_groupNames by (fastforce simp: goodCapture_def vxidsDigitFirst_def)

lemma goodCapture_vxid: "goodCapture (opt (Group ''vxid'' vxidRe))"
proof -
  have "vxidsDigitFirst ((''vxid'', take (length s - length t) s) # g)" if m: "(t, g) \<in> set (matches vxidRe s)" for s t g
  proof -
    have "groupNames vxidRe = []" by (simp add: vxidRe_def groupNames_seqs)
    then have "g = []" using matches_groupNames [OF m] by auto
    moreover have "digitFirst (take (length s - length t) s)"
      using m unfolding vxidRe_def some1_def seqs.simps by (rule matches_digit)
    ultimately show ?thesis by (simp add: vxidsDigitFirst_def)
  qed
  then show ?thesis by (auto simp: goodCapture_def opt_def vxidsDigitFirst_def)
qed

lemma goodCapture_seqs: "list_all goodCapture rs \<Longrightarrow> goodCapture (seqs rs)"
proof (induction rs)
  case (Cons r rs)
  then have "goodCapture r" "goodCapture (seqs rs)" by simp_all
  then show ?case
    unfolding seqs.simps goodCapture_def vxidsDigitFirst_def by (metis Un_iff matches_Seq set_append)
qed (simp add: goodCapture_def vxidsDigitFirst_def)

lemma goodCapture_escape:
  assumes "escapePiece c = Some p"
  shows "goodCapture (snd p)"
proof (cases "c = CHR ''v''")
  case True
  with assms goodCapture_vxid show ?thesis by (auto simp: escapePiece_def)
next
  case False
  with assms have "''vxid'' \<notin> set (groupNames (snd p))"
    using escapePiece_groups [OF assms] by (simp add: groupOfEscape_def)
  then show ?thesis by (rule goodCapture_plain)
qed

lemmas goodCapture_piece = goodCapture_escape [of _ "(x, y)" for x y, simplified]

lemma goodCapture_compiled: "compileFrom printable val s = Inr ps \<Longrightarrow> list_all (\<lambda>p. goodCapture (snd p)) ps"
proof (induction printable val s arbitrary: ps rule: compileFrom.induct)
  case (2 printable val c s)
  have "goodCapture (snd (literalPiece c))" by (rule goodCapture_plain) (simp add: literalPiece_def)
  with 2 show ?case
    by (cases s) (auto intro: goodCapture_piece split: if_splits sum.splits option.splits)
qed simp

definition fromLogLinePrefix :: "PgOption \<Rightarrow> bool" where
  "fromLogLinePrefix opt' \<longleftrightarrow> (\<forall>re. opt' \<noteq> WithPrefixPattern re)"

lemma checker_captures:
  assumes "NewPgChecker printable opts = Inr c" and "list_all fromLogLinePrefix opts"
    and "ptFind (pgPrefixRe c) l = Some (body, g)"
  shows "vxidsDigitFirst g"
proof -
  have "psPattern (fold applyPgOption opts st) = psPattern st" for st
    using assms(2)
  proof (induction opts arbitrary: st)
    case (Cons x opts)
    then show ?case by (cases x) (auto simp: fromLogLinePrefix_def)
  qed simp
  then obtain val where "CompileLogLinePrefix printable val = Inr (pgPrefixRe c)"
    using assms(1) by (auto simp: NewPgChecker_def Let_def split: sum.splits if_splits)
  then obtain ps where ps: "compileFrom printable val val = Inr ps" "pgPrefixRe c = compiledPattern ps"
    by (auto simp: CompileLogLinePrefix_def split: sum.splits)
  have "goodCapture (seqs (map snd ps))"
    using goodCapture_compiled [OF ps(1)] by (intro goodCapture_seqs) (simp add: list_all_iff)
  moreover have "firstMatch (seqs (map snd ps)) l = Some (body, g)"
    using assms(3) by (simp add: ps(2) compiledPattern_def Let_def)
  then have "(body, g) \<in> set (matches (seqs (map snd ps)) l)"
    by (auto simp: firstMatch_def split: list.splits)
  ultimately show ?thesis unfolding goodCapture_def by blast
qed

section \<open>The parser reads the messages\<close>

definition capturesOk :: "Pattern \<Rightarrow> bool" where
  "capturesOk re \<longleftrightarrow> (\<forall>l body g. ptFind re l = Some (body, g) \<longrightarrow> vxidsDigitFirst g)"

abbreviation classified :: "(string \<Rightarrow> StatementKind) \<Rightarrow> Statement \<Rightarrow> Statement" where
  "classified cl s \<equiv> s\<lparr>stKind := cl (stSQL s)\<rparr>"

lemma pgParseLoop_messages:
  assumes "capturesOk re" and "cont \<longrightarrow> ss \<noteq> []"
  shows "map (classified cl) (pgParseLoop re ls n ss cont) =
    map (classified cl) (if cont \<and> ss \<noteq> []
      then butlast ss @ [(last ss)\<lparr>stSQL := stSQL (last ss) @
        concat (map (\<lambda>l. newline # l) (map tl (takeWhile isContinuation ls)))\<rparr>]
      else ss) @ map fst (List.map_filter (messageStatement re cl) (pgMessages n ls))"
  using assms(2)
proof (induction ls arbitrary: n ss cont)
  case Nil
  then show ?case by (cases ss rule: rev_cases) (auto simp: List.map_filter_def)
next
  case (Cons l ls)
  show ?case
  proof (cases "isContinuation l")
    case True
    then show ?thesis
      using Cons.IH [of cont "butlast ss @ [(last ss)\<lparr>stSQL := stSQL (last ss) @ newline # tl l\<rparr>]" "n + 1"]
        Cons.IH [of cont ss "n + 1"] Cons.prems
      by (cases cont) (simp_all add: isContinuation_def)
  next
    case False
    then have head: "\<not> hasPrefix l [CHR 0x09]" by (simp add: isContinuation_def)
    have same: "(if cont \<and> ss \<noteq> [] then butlast ss @ [(last ss)\<lparr>stSQL := stSQL (last ss) @ []\<rparr>] else ss) = ss"
      by simp
    show ?thesis
    proof (cases "messageStatement re cl (n + 1, l, map tl (takeWhile isContinuation ls))")
      case None
      then have "pgParseLoop re (l # ls) n ss cont = pgParseLoop re ls (n + 1) ss False"
        using head by (auto simp: messageStatement_def Let_def split: option.splits)
      then show ?thesis
        using Cons.IH [of False ss "n + 1"] False None same by (simp add: List.map_filter_simps)
    next
      case (Some st)
      then obtain body g u m where match: "ptFind re l = Some (body, g)" "firstMatch bodyRe body = Some (u, m)"
        by (auto simp: messageStatement_def Let_def split: option.splits)
      then have "vxidsDigitFirst g" using assms(1) by (simp add: capturesOk_def)
      with match Some False show ?thesis
        using Cons.IH [of True "ss @ [\<lparr>stSQL = the (map_of m ''1''), stKind = KindOther, stTxID = identityFrom g,
            stLine = n + 1\<rparr>]" "n + 1"] head same
        by (auto simp: messageStatement_def Let_def List.map_filter_simps identityFrom_transaction)
    qed
  qed
qed

lemma pgParse_messages:
  assumes "capturesOk (pgPrefixRe c)"
  shows "pgParse c r = (case scanLines pgScannerLimit r of Inl e \<Rightarrow> Inl (TextError e)
     | Inr ls \<Rightarrow> Inr (map fst (pgLogged (pgPrefixRe c) (pgClassify c) ls)))"
  using pgParseLoop_messages [OF assms, of False "[]" "pgClassify c" _ 0]
  by (auto simp: pgParse_def pgLogged_def split: sum.split)

lemma pgLogged_shown:
  assumes "capturesOk re" and "p \<in> set (pgLogged re cl ls)"
  shows "shownTx (snd p)" and "stTxID (fst p) = txText (snd p)"
proof -
  obtain msg where "messageStatement re cl msg = Some p"
    using assms(2) by (auto simp: pgLogged_def List.map_filter_def)
  then obtain body g where g: "ptFind re (fst (snd msg)) = Some (body, g)" "snd p = transactionOf g"
      "stTxID (fst p) = txText (snd p)"
    by (auto simp: messageStatement_def Let_def split: option.splits prod.splits)
  then have "vxidsDigitFirst g" using assms(1) unfolding capturesOk_def by blast
  then show "shownTx (snd p)" using transactionOf_virtual [of g] by (auto simp: shownTx_def g(2))
  show "stTxID (fst p) = txText (snd p)" by (rule g(3))
qed

section \<open>The verdict\<close>

definition missingTxHint :: string where
  "missingTxHint = ''; include %v in log_line_prefix and log statements with log_statement = '' @ [CHR 0x27] @
     ''all'' @ [CHR 0x27] @ '' so every line carries a virtual transaction ID''"

text \<open>C9. The verdict on any log under any \<open>log_line_prefix\<close>. An unreadable log is an error. Otherwise the
  statements are the messages whose first line the package's expressions recognize, each with its
  continuation lines, whatever lies between them. If a write among them shows no transaction, the first such write is
  an error. Otherwise the report counts the server's transactions, virtual ones and, where no virtual one is
  active, real ones, that the writes show, and the check fails exactly when they are two or more. (The text of
  an \<open>execute\<close> line starts after its first colon: a prepared name with a colon is outside what the
  expressions recognize correctly.)\<close>

theorem pg_verdict_on_any_log:
  assumes "NewPgChecker printable opts = Inr c" and "list_all fromLogLinePrefix opts"
  shows "pgVerify c r =
    (case scanLines pgScannerLimit r of
       Inl e \<Rightarrow> (None, Some (TextError e))
     | Inr ls \<Rightarrow>
         let logged = pgLogged (pgPrefixRe c) (pgClassify c) ls;
             writes = filter (\<lambda>p. isWriteStatement (fst p)) logged
         in case filter (\<lambda>p. snd p = None) writes of
              (s, _) # _ \<Rightarrow> (None, Some (AdvisedError (MissingTxIDError s) missingTxHint))
            | [] \<Rightarrow>
                let u = card (snd ` set writes); rep = reportOf (map fst logged) u
                in (Some rep, if u \<le> 1 then None else Some (NonAtomicError rep)))"
proof (cases "scanLines pgScannerLimit r")
  case (Inl e)
  have ok: "capturesOk (pgPrefixRe c)" using checker_captures [OF assms] by (auto simp: capturesOk_def)
  show ?thesis by (simp add: pgVerify_def Verify_def pgParse_messages [OF ok] Inl pgAdviseOnMissingTxID_def)
next
  case (Inr ls)
  have ok: "capturesOk (pgPrefixRe c)" using checker_captures [OF assms] by (auto simp: capturesOk_def)
  let ?logged = "pgLogged (pgPrefixRe c) (pgClassify c) ls"
  let ?writes = "filter (\<lambda>p. isWriteStatement (fst p)) ?logged"
  have shown: "shownTx (snd p)" "stTxID (fst p) = txText (snd p)" if "p \<in> set ?writes" for p
    using pgLogged_shown [OF ok, of p] that by (cases p, auto)
  have writes: "filter isWriteStatement (map fst ?logged) = map fst ?writes"
    by (simp add: filter_map comp_def)
  have missing: "filter (\<lambda>s. stTxID s = []) (map fst ?writes) = map fst (filter (\<lambda>p. snd p = None) ?writes)"
    unfolding filter_map comp_def
    by (rule arg_cong [where f = "map fst"], rule filter_cong) (use shown txText_empty in auto)
  have "inj_on txText (snd ` set ?writes)"
    using shown txText_inj by (auto simp: inj_on_def)
  then have "card (txText ` snd ` set ?writes) = card (snd ` set ?writes)" by (rule card_image)
  moreover have "stTxID ` set (map fst ?writes) = txText ` snd ` set ?writes"
    using shown(2) by (force simp: image_image)
  ultimately have count: "card (stTxID ` set (map fst ?writes)) = card (snd ` set ?writes)" by simp
  have "pgVerify c r = (let (rep, err) = VerifyStatements (map fst ?logged) in (rep, pgAdviseOnMissingTxID err))"
    by (simp add: pgVerify_def Verify_def pgParse_messages [OF ok] Inr)
  also have "\<dots> = (case filter (\<lambda>p. snd p = None) ?writes of
              (s, _) # _ \<Rightarrow> (None, Some (AdvisedError (MissingTxIDError s) missingTxHint))
            | [] \<Rightarrow>
                let u = card (snd ` set ?writes); rep = reportOf (map fst ?logged) u
                in (Some rep, if u \<le> 1 then None else Some (NonAtomicError rep)))"
    unfolding VerifyStatements_spec Let_def writes missing count
    by (auto simp: pgAdviseOnMissingTxID_def missingTxHint_def reportOf_def Let_def writes split: list.split)
  finally show ?thesis by (simp only: Inr sum.case Let_def)
qed

text \<open>A log under the prefix \<open>%v\<close> with a line that is not a statement and a statement of two lines.\<close>

definition sampleLines :: "string list" where
  "sampleLines =
     [''3/42 LOG:  statement: BEGIN'', ''3/42 LOG:  statement: INSERT INTO t'', [CHR 0x09] @ ''VALUES (1)'',
      ''3/42 DETAIL:  x'', [CHR 0x09] @ ''y'', ''3/42 LOG:  execute s: DELETE FROM u'',
      ''4/7 LOG:  statement: DELETE FROM v'']"

definition sampleLog :: string where
  "sampleLog = concat (map (\<lambda>l. l @ [CHR 0x0A]) sampleLines)"

definition vPattern :: Pattern where
  "vPattern = compiledPattern [the (escapePiece CHR ''v''), literalPiece CHR '' '']"

lemma sampleLog_logged:
  "pgLogged vPattern DefaultClassifier sampleLines =
    [(\<lparr>stSQL = ''BEGIN'', stKind = KindBegin, stTxID = ''3/42'', stLine = 1\<rparr>, Some (VirtualTx ''3/42'')),
     (\<lparr>stSQL = ''INSERT INTO t'' @ newline # ''VALUES (1)'', stKind = KindWrite, stTxID = ''3/42'', stLine = 2\<rparr>,
       Some (VirtualTx ''3/42'')),
     (\<lparr>stSQL = ''DELETE FROM u'', stKind = KindWrite, stTxID = ''3/42'', stLine = 6\<rparr>, Some (VirtualTx ''3/42'')),
     (\<lparr>stSQL = ''DELETE FROM v'', stKind = KindWrite, stTxID = ''4/7'', stLine = 7\<rparr>, Some (VirtualTx ''4/7''))]"
  by code_simp

lemma sampleLog_lines: "scanLines pgScannerLimit (sampleLog, None) = Inr sampleLines"
proof -
  have "rawLines [] sampleLog = sampleLines"
    unfolding sampleLog_def by (rule rawLines_lines) (simp add: sampleLines_def)
  then show ?thesis by (simp add: scanLines_def) (simp add: sampleLines_def dropCR_def pgScannerLimit_def)
qed

theorem pg_verdict_on_any_log_witness:
  "case NewPgChecker (\<lambda>_. True) [WithLogLinePrefix ''%v ''] of
     Inl e \<Rightarrow> False
   | Inr c \<Rightarrow> (case pgVerify c (sampleLog, None) of
       (rep, err) \<Rightarrow> map_option rpWriteUnits rep = Some 2 \<and> err \<noteq> None)"
proof -
  have new: "NewPgChecker (\<lambda>_. True) [WithLogLinePrefix ''%v ''] =
      Inr \<lparr>pgPrefixRe = vPattern, pgClassify = DefaultClassifier\<rparr>"
    by (simp add: NewPgChecker_def CompileLogLinePrefix_def escapePiece_def vPattern_def hasGroup_def
        compiledPattern_def groupNames_seqs opt_def Let_def)
  have "list_all fromLogLinePrefix [WithLogLinePrefix ''%v '']" by (simp add: fromLogLinePrefix_def)
  from pg_verdict_on_any_log [OF new this, of "(sampleLog, None)"] show ?thesis
    by (simp add: new sampleLog_lines sampleLog_logged isWriteStatement_def reportOf_def Let_def)
qed

text \<open>A prepared statement may have a colon in its name. The expression takes what follows the first
  colon for the statement, so the write is not seen.\<close>

lemma colon_in_prepared_name_hides_the_write:
  "firstMatch bodyRe ''LOG:  execute a:b: INSERT INTO t'' = Some ([], [(''1'', ''b: INSERT INTO t'')])"
  "DefaultClassifier ''b: INSERT INTO t'' = KindOther"
  by code_simp+

end
