(* ===== verification/PgLog.thy ===== *)
theory PgLog
  imports Pgcheck
begin

text \<open>
  The text of a PostgreSQL log under the default \<open>log_line_prefix\<close> (\<open>pgcheck/parse.go\<close>): a printer
  for the statement lines as the server writes them (simple and extended protocol, with or
  without a duration, continuation lines after a tab) and the round trip through \<open>Parse\<close>. The
  identity of a printed statement is the server's virtual transaction; on logs whose statements
  all have one, \<open>Parse\<close> meets the adapter contract, which the theory interprets.
\<close>

section \<open>The printed log\<close>

record PgItem =
  giYear :: string
  giMonth :: string
  giDay :: string
  giHour :: string
  giMinute :: string
  giSecond :: string
  giFraction :: string
  giZone :: string
  giPid :: string
  giXid :: string
  giVxid :: "(string \<times> string) option"
  giDuration :: "string option"
  giPrepared :: "string option"
  giFirst :: string
  giMore :: "string list"

definition dateText :: "PgItem \<Rightarrow> string" where
  "dateText it =
     giYear it @ ''-'' @ giMonth it @ ''-'' @ giDay it @ '' '' @ giHour it @ '':'' @ giMinute it @ '':'' @
     giSecond it"

definition vxidText :: "(string \<times> string) option \<Rightarrow> string" where
  "vxidText v = (case v of None \<Rightarrow> [] | Some (b, l) \<Rightarrow> b @ ''/'' @ l)"

text \<open>\<open>%m [%p] %q%x %v \<close>.\<close>

definition prefixText :: "PgItem \<Rightarrow> string" where
  "prefixText it =
     (dateText it @ ''.'' @ giFraction it @ '' '' @ giZone it) @ '' '' @ ''['' @ giPid it @ '']'' @ '' '' @
     giXid it @ '' '' @ vxidText (giVxid it) @ '' ''"

definition durationText :: "string option \<Rightarrow> string" where
  "durationText d = (case d of None \<Rightarrow> [] | Some n \<Rightarrow> ''duration: '' @ n @ '' ms'' @ ''  '')"

definition tagText :: "string option \<Rightarrow> string" where
  "tagText p = (case p of None \<Rightarrow> ''statement:'' | Some name \<Rightarrow> ''execute '' @ name @ '':'')"

definition bodyText :: "PgItem \<Rightarrow> string" where
  "bodyText it =
     ''LOG:'' @ ''  '' @ durationText (giDuration it) @ tagText (giPrepared it) @ '' '' @ giFirst it"

definition pgItemLines :: "PgItem \<Rightarrow> string list" where
  "pgItemLines it = (prefixText it @ bodyText it) # map (\<lambda>l. CHR 0x09 # l) (giMore it)"

definition printPgLog :: "PgItem list \<Rightarrow> string" where
  "printPgLog its = concat (map (\<lambda>l. l @ [CHR 0x0A]) (concat (map pgItemLines its)))"

definition pgPlainLine :: "string \<Rightarrow> bool" where
  "pgPlainLine l \<longleftrightarrow> CHR 0x0A \<notin> set l \<and> (l = [] \<or> last l \<noteq> CHR 0x0D) \<and> length l < pgScannerLimit"

fun wfVxid :: "(string \<times> string) option \<Rightarrow> bool" where
  "wfVxid None = True"
| "wfVxid (Some (b, l)) = (b \<noteq> [] \<and> allDigits b \<and> l \<noteq> [] \<and> allDigits l)"

definition numberChars :: rune_class where
  "numberChars = OneOf [(48, 57), (46, 46)]"

definition wfPgItem :: "PgItem \<Rightarrow> bool" where
  "wfPgItem it \<longleftrightarrow>
     length (giYear it) = 4 \<and> length (giMonth it) = 2 \<and> length (giDay it) = 2 \<and> length (giHour it) = 2 \<and>
     length (giMinute it) = 2 \<and> length (giSecond it) = 2 \<and>
     list_all allDigits [giYear it, giMonth it, giDay it, giHour it, giMinute it, giSecond it] \<and>
     list_all (\<lambda>s. allDigits s \<and> s \<noteq> []) [giFraction it, giPid it, giXid it] \<and>
     giZone it \<noteq> [] \<and> list_all (asciiIn nonSpaces) (giZone it) \<and> wfVxid (giVxid it) \<and>
     (case giDuration it of None \<Rightarrow> True | Some n \<Rightarrow> n \<noteq> [] \<and> list_all (asciiIn numberChars) n) \<and>
     (case giPrepared it of None \<Rightarrow> True | Some n \<Rightarrow> list_all (asciiIn (NoneOf [(58, 58)])) n) \<and>
     list_all pgPlainLine (pgItemLines it)"

text \<open>What the log says of an item.\<close>

definition xidIdentity :: "string \<Rightarrow> string" where
  "xidIdentity x = (if x = ''0'' then [] else ''xid '' @ x)"

definition itemIdentity :: "PgItem \<Rightarrow> string" where
  "itemIdentity it =
     (case giVxid it of
        None \<Rightarrow> xidIdentity (giXid it)
      | Some (b, l) \<Rightarrow> if l = ''0'' then xidIdentity (giXid it) else b @ ''/'' @ l)"

fun pgStatementsOf :: "(string \<Rightarrow> StatementKind) \<Rightarrow> PgItem list \<Rightarrow> int \<Rightarrow> Statement list" where
  "pgStatementsOf c [] line = []"
| "pgStatementsOf c (it # its) line =
     (let sql = giFirst it @ concat (map (\<lambda>l. newline # l) (giMore it)) in
      \<lparr>stSQL = sql, stKind = c sql, stTxID = itemIdentity it, stLine = line + 1\<rparr>
      # pgStatementsOf c its (line + 1 + int (length (giMore it))))"

section \<open>The prefix is recognized\<close>

lemma default_prefix_pieces:
  "compileFrom printable DefaultLogLinePrefix DefaultLogLinePrefix =
     Inr [the (escapePiece CHR ''m''), literalPiece CHR '' '', literalPiece CHR ''['',
          the (escapePiece CHR ''p''), literalPiece CHR '']'', literalPiece CHR '' '',
          the (escapePiece CHR ''q''), the (escapePiece CHR ''x''), literalPiece CHR '' '',
          the (escapePiece CHR ''v''), literalPiece CHR '' '']"
  by (simp add: DefaultLogLinePrefix_def escapePiece_def)

definition defaultPattern :: Pattern where
  "defaultPattern =
     compiledPattern [the (escapePiece CHR ''m''), literalPiece CHR '' '', literalPiece CHR ''['',
       the (escapePiece CHR ''p''), literalPiece CHR '']'', literalPiece CHR '' '',
       the (escapePiece CHR ''q''), the (escapePiece CHR ''x''), literalPiece CHR '' '',
       the (escapePiece CHR ''v''), literalPiece CHR '' '']"

lemma default_checker:
  "NewPgChecker printable [] = Inr \<lparr>pgPrefixRe = defaultPattern, pgClassify = DefaultClassifier\<rparr>"
  by (simp add: NewPgChecker_def CompileLogLinePrefix_def default_prefix_pieces defaultPattern_def
      compiledPattern_def hasGroup_def escapePiece_def groupNames_seqs Let_def)

lemma firstMatch_one: "byte c < 128 \<Longrightarrow> firstMatch (Class (oneRune c)) ([c] @ s) = Some (s, [])"
  using firstMatch_Class [of "oneRune c" c s] by (simp add: asciiIn_def oneRune_def)

lemma vxid_matches:
  assumes "wfVxid v"
  shows "firstMatch (opt (Group ''vxid'' vxidRe)) (vxidText v @ '' '' @ s) =
    Some ('' '' @ s, case v of None \<Rightarrow> [] | Some _ \<Rightarrow> [(''vxid'', vxidText v)])"
proof (cases v)
  case None
  have "matches (Group ''vxid'' vxidRe) ('' '' @ s) = []"
    by (simp add: vxidRe_def some1_def digits_def)
  then show ?thesis using None by (simp add: opt_def firstMatch_Alt2 vxidText_def)
next
  case (Some p)
  obtain b l where v: "v = Some (b, l)" using Some by (cases p) auto
  with assms have bl: "allDigits b" "b \<noteq> []" "allDigits l" "l \<noteq> []" by auto
  have "firstMatch vxidRe (b @ ''/'' @ l @ '' '' @ s) = Some ('' '' @ s, [])"
    unfolding vxidRe_def
    using bl digits_some1 [of b "CHR ''/''" "l @ '' '' @ s"] digits_some1 [of l "CHR '' ''" s]
    by (intro firstMatch_seqs_plain firstMatch_lit) (simp_all add: isDigit_def)
  then have "firstMatch (Group ''vxid'' vxidRe) ((b @ ''/'' @ l) @ '' '' @ s) =
      Some ('' '' @ s, [(''vxid'', b @ ''/'' @ l)])"
    by (intro firstMatch_group) simp
  then show ?thesis using v by (simp add: opt_def firstMatch_Alt1 vxidText_def)
qed

lemma time_matches:
  assumes "wfPgItem it"
  shows "firstMatch (snd (the (escapePiece CHR ''m'')))
    ((dateText it @ ''.'' @ giFraction it @ '' '' @ giZone it) @ '' '' @ s) = Some ('' '' @ s, [])"
proof -
  have date: "firstMatch dateTimeRe (dateText it @ t) = Some (t, [])" for t
    unfolding dateTimeRe_def dateText_def append_assoc
    using assms
    by (intro firstMatch_seqs_plain digits_exactly firstMatch_lit) (simp_all add: wfPgItem_def)
  have fraction: "firstMatch (some1 digits) (giFraction it @ '' '' @ t) = Some ('' '' @ t, [])" for t
    using assms digits_some1 [of "giFraction it" "CHR '' ''" t] by (simp add: wfPgItem_def isDigit_def)
  have zone: "firstMatch (some1 nonSpaces) (giZone it @ '' '' @ s) = Some ('' '' @ s, [])"
    by (rule firstMatch_some1) (use assms in \<open>auto simp: wfPgItem_def nonSpaces_def\<close>)
  have "firstMatch (seqs [dateTimeRe, lit ''.'', some1 digits, lit '' '', some1 nonSpaces])
      (dateText it @ ''.'' @ giFraction it @ '' '' @ giZone it @ '' '' @ s) = Some ('' '' @ s, [])"
    by (intro firstMatch_seqs_plain date firstMatch_lit fraction zone) simp_all
  then show ?thesis by (simp add: escapePiece_def)
qed

lemma prefix_matches:
  assumes "wfPgItem it"
  shows "ptFind defaultPattern (prefixText it @ s) =
    Some (s, (''xid'', giXid it) # (case giVxid it of None \<Rightarrow> [] | Some _ \<Rightarrow> [(''vxid'', vxidText (giVxid it))]))"
proof -
  have pid: "firstMatch (some1 digits) (giPid it @ '']'' @ t) = Some ('']'' @ t, [])" for t
    using assms digits_some1 [of "giPid it" "CHR '']''" t] by (simp add: wfPgItem_def isDigit_def)
  have xid: "firstMatch (some1 digits) (giXid it @ '' '' @ t) = Some ('' '' @ t, [])" for t
    using assms digits_some1 [of "giXid it" "CHR '' ''" t] by (simp add: wfPgItem_def isDigit_def)
  have vxid: "firstMatch (seqs [opt (Group ''vxid'' vxidRe), Class (oneRune CHR '' '')])
      (vxidText (giVxid it) @ '' '' @ s) =
      Some (s, case giVxid it of None \<Rightarrow> [] | Some _ \<Rightarrow> [(''vxid'', vxidText (giVxid it))])"
  proof -
    have "firstMatch (seqs [Class (oneRune CHR '' '')]) ('' '' @ s) = Some (s, [])"
      by (intro firstMatch_seqs_plain firstMatch_one) simp_all
    from firstMatch_Seq [OF vxid_matches this] assms show ?thesis by (simp add: wfPgItem_def)
  qed
  define moment where "moment = dateText it @ ''.'' @ giFraction it @ '' '' @ giZone it"
  have time: "firstMatch (snd (the (escapePiece CHR ''m''))) (moment @ '' '' @ t) = Some ('' '' @ t, [])" for t
    unfolding moment_def by (rule time_matches) (rule assms)
  have "firstMatch (seqs [snd (the (escapePiece CHR ''m'')), Class (oneRune CHR '' ''),
      Class (oneRune CHR ''[''), some1 digits, Class (oneRune CHR '']''), Class (oneRune CHR '' ''), Epsilon,
      Group ''xid'' (some1 digits), Class (oneRune CHR '' ''), opt (Group ''vxid'' vxidRe),
      Class (oneRune CHR '' '')])
      (moment @ '' '' @ ''['' @ giPid it @ '']'' @ '' '' @ giXid it @ '' '' @ vxidText (giVxid it) @ '' '' @ s) =
    Some (s, (''xid'', giXid it) # (case giVxid it of None \<Rightarrow> [] | Some _ \<Rightarrow> [(''vxid'', vxidText (giVxid it))]))"
    by (intro firstMatch_seqs_group firstMatch_seqs_Epsilon [THEN trans] firstMatch_seqs_plain time
        firstMatch_one pid xid vxid) simp_all
  then show ?thesis
    by (simp add: defaultPattern_def compiledPattern_def literalPiece_def escapePiece_def Let_def
        prefixText_def moment_def)
qed

section \<open>The body is recognized\<close>

lemma duration_matches:
  assumes "case d of None \<Rightarrow> True | Some n \<Rightarrow> n \<noteq> [] \<and> list_all (asciiIn numberChars) n"
    and "s = x # t" and "byte x < 128" and "x \<noteq> CHR ''d''" and "\<not> inClass spaces (byte x)"
  shows "firstMatch (opt (seqs [lit ''duration: '', some1 (OneOf [(48, 57), (46, 46)]), lit '' ms'', some1 spaces]))
    (durationText d @ s) = Some (s, [])"
proof (cases d)
  case None
  have "matches (seqs [lit ''duration: '', some1 (OneOf [(48, 57), (46, 46)]), lit '' ms'', some1 spaces]) s = []"
    using assms(2-4) by (simp add: matches_lit_no del: matches.simps(5) seqs.simps add: matches_seqs_no)
  then show ?thesis using None by (simp add: opt_def firstMatch_Alt2 durationText_def)
next
  case (Some n)
  then have n: "n \<noteq> []" "list_all (asciiIn (OneOf [(48, 57), (46, 46)])) n"
    using assms(1) by (simp_all add: numberChars_def)
  have "firstMatch (some1 (OneOf [(48, 57), (46, 46)])) (n @ '' ms'' @ u) = Some ('' ms'' @ u, [])" for u
    by (rule firstMatch_some1) (use n in simp_all)
  moreover have "firstMatch (some1 spaces) (''  '' @ s) = Some (s, [])"
    by (rule firstMatch_some1) (use assms(2-5) in \<open>auto simp: asciiIn_def spaces_def\<close>)
  ultimately have "firstMatch (seqs [lit ''duration: '', some1 (OneOf [(48, 57), (46, 46)]), lit '' ms'',
      some1 spaces]) (''duration: '' @ n @ '' ms'' @ ''  '' @ s) = Some (s, [])"
    by (intro firstMatch_seqs_plain firstMatch_lit) simp_all
  then show ?thesis using Some by (simp add: opt_def firstMatch_Alt1 durationText_def)
qed

lemma tag_matches:
  assumes "case p of None \<Rightarrow> True | Some n \<Rightarrow> list_all (asciiIn (NoneOf [(58, 58)])) n"
  shows "firstMatch (Alt (lit ''statement:'') (seqs [lit ''execute '', Greedy (NoneOf [(58, 58)]), lit '':'']))
    (tagText p @ s) = Some (s, [])"
proof (cases p)
  case None
  then show ?thesis by (simp only: tagText_def option.case) (intro firstMatch_Alt1 firstMatch_lit, simp)
next
  case (Some n)
  have "matches (lit ''statement:'') (''execute '' @ n @ '':'' @ s) = []"
    by (simp add: lit_def oneRune_def)
  moreover have "firstMatch (Greedy (NoneOf [(58, 58)])) (n @ '':'' @ s) = Some ('':'' @ s, [])"
    by (rule firstMatch_Greedy) (use assms Some in auto)
  then have "firstMatch (seqs [lit ''execute '', Greedy (NoneOf [(58, 58)]), lit '':''])
      (''execute '' @ n @ '':'' @ s) = Some (s, [])"
    by (intro firstMatch_seqs_plain firstMatch_lit) simp_all
  ultimately show ?thesis using Some by (simp add: tagText_def firstMatch_Alt2)
qed

lemma tag_head: obtains x t where "tagText p @ s = x # t" "byte x < 128" "x \<noteq> CHR ''d''" "\<not> inClass spaces (byte x)"
  by (cases p) (auto simp: tagText_def spaces_def)

lemma body_matches:
  assumes "wfPgItem it"
  shows "firstMatch bodyRe (bodyText it) = Some ([], [(''1'', giFirst it)])"
proof -
  have line: "CHR 0x0A \<notin> set (giFirst it)"
    using assms by (auto simp: wfPgItem_def pgItemLines_def pgPlainLine_def bodyText_def)
  let ?tag = "tagText (giPrepared it) @ '' '' @ giFirst it"
  obtain x t where x: "?tag = x # t" "byte x < 128" "x \<noteq> CHR ''d''" "\<not> inClass spaces (byte x)"
    by (rule tag_head)
  have duration: "firstMatch (opt (seqs [lit ''duration: '', some1 (OneOf [(48, 57), (46, 46)]), lit '' ms'',
      some1 spaces])) (durationText (giDuration it) @ ?tag) = Some (?tag, [])"
    by (rule duration_matches [OF _ x]) (use assms in \<open>simp add: wfPgItem_def\<close>)
  have tag: "firstMatch (Alt (lit ''statement:'') (seqs [lit ''execute '', Greedy (NoneOf [(58, 58)]), lit '':'']))
      ?tag = Some ('' '' @ giFirst it, [])"
    by (rule tag_matches) (use assms in \<open>simp add: wfPgItem_def\<close>)
  have space: "firstMatch (opt (Class spaces)) ('' '' @ giFirst it) = Some (giFirst it, [])"
    unfolding opt_def using firstMatch_Class [of spaces "CHR '' ''" "giFirst it"]
    by (intro firstMatch_Alt1) (simp add: asciiIn_def spaces_def)
  have gap: "firstMatch (some1 spaces) (''  '' @ durationText (giDuration it) @ ?tag) =
      Some (durationText (giDuration it) @ ?tag, [])"
  proof (rule firstMatch_some1)
    show "durationText (giDuration it) @ ?tag = [] \<or>
        (\<exists>x t. durationText (giDuration it) @ ?tag = x # t \<and> byte x < 128 \<and> \<not> inClass spaces (byte x))"
      using x by (cases "giDuration it") (auto simp: durationText_def spaces_def)
  qed (simp_all add: asciiIn_def spaces_def)
  have last: "firstMatch (seqs [Group ''1'' (Greedy anyRune), AtEnd]) (giFirst it) =
      Some ([], [(''1'', giFirst it)])"
    using firstMatch_seqs_group [of "Greedy anyRune" "giFirst it" "[]" "[AtEnd]" "[]" "[]" "''1''"]
      firstMatch_rest_of_line [OF line]
    by (simp add: firstMatch_Seq_plain)
  show ?thesis
    unfolding bodyRe_def bodyText_def
    by (intro firstMatch_seqs_plain firstMatch_lit gap duration tag space last) simp_all
qed

section \<open>The round trip\<close>

lemma vxid_inactive:
  assumes "allDigits l" and "l \<noteq> []"
  shows "hasSuffix (b @ ''/'' @ l) ''/0'' \<longleftrightarrow> l = ''0''"
proof -
  obtain l' d where l: "l = l' @ [d]" using assms(2) by (cases l rule: rev_cases) auto
  show ?thesis
  proof (cases l' rule: rev_cases)
    case Nil
    then show ?thesis
      using l by (auto simp: hasSuffix_def suffix_def)
  next
    case (snoc l'' e)
    with l assms(1) have "e \<noteq> CHR ''/''" by (auto simp: allDigits_def isDigit_def)
    with l snoc show ?thesis
      by (auto simp: hasSuffix_def suffix_def append_eq_append_conv2 append_eq_Cons_conv Cons_eq_append_conv)
  qed
qed

lemma identityFrom_item:
  assumes "wfPgItem it"
  shows "identityFrom ((''xid'', giXid it) #
    (case giVxid it of None \<Rightarrow> [] | Some _ \<Rightarrow> [(''vxid'', vxidText (giVxid it))])) = itemIdentity it"
proof (cases "giVxid it")
  case None
  with assms show ?thesis by (simp add: identityFrom_def itemIdentity_def xidIdentity_def wfPgItem_def)
next
  case (Some p)
  obtain b l where v: "giVxid it = Some (b, l)" using Some by (cases p) auto
  with assms have "allDigits l" "l \<noteq> []" "giXid it \<noteq> []" by (simp_all add: wfPgItem_def)
  then show ?thesis
    using vxid_inactive [of l b]
    by (simp add: v identityFrom_def itemIdentity_def xidIdentity_def vxidText_def)
qed

lemma pgParseLoop_continuation:
  "pgParseLoop re (map (\<lambda>l. CHR 0x09 # l) ls @ rest) line (ss @ [s]) True =
    pgParseLoop re rest (line + int (length ls))
      (ss @ [s\<lparr>stSQL := stSQL s @ concat (map (\<lambda>l. newline # l) ls)\<rparr>]) True"
  by (induction ls arbitrary: line s) (simp_all add: hasPrefix_def algebra_simps)

lemma no_tab: "wfPgItem it \<Longrightarrow> \<not> hasPrefix (prefixText it @ s) [CHR 0x09]"
  by (cases "giYear it") (auto simp: wfPgItem_def prefixText_def dateText_def hasPrefix_def allDigits_def isDigit_def)

lemma pgParseLoop_items:
  assumes "list_all wfPgItem its"
  shows "map (\<lambda>s. s\<lparr>stKind := c (stSQL s)\<rparr>)
      (pgParseLoop defaultPattern (concat (map pgItemLines its)) line ss b)
    = map (\<lambda>s. s\<lparr>stKind := c (stSQL s)\<rparr>) ss @ pgStatementsOf c its line"
  using assms
proof (induction its arbitrary: line ss b)
  case (Cons it its)
  then have wf: "wfPgItem it" by simp
  show ?case
    using Cons
    by (simp add: pgItemLines_def no_tab [OF wf] prefix_matches [OF wf] body_matches [OF wf]
        identityFrom_item [OF wf] pgParseLoop_continuation Let_def)
qed simp

lemma scan_printPgLog:
  assumes "list_all wfPgItem its"
  shows "scanLines pgScannerLimit (printPgLog its, None) = Inr (concat (map pgItemLines its))"
proof -
  let ?ls = "concat (map pgItemLines its)"
  have plain: "list_all pgPlainLine ?ls"
    using assms by (auto simp: list_all_iff wfPgItem_def)
  then have "rawLines [] (printPgLog its) = ?ls"
    unfolding printPgLog_def by (intro rawLines_lines) (auto simp: list_all_iff pgPlainLine_def)
  moreover have "map dropCR ?ls = ?ls"
    by (rule map_idI) (use plain in \<open>auto simp: list_all_iff pgPlainLine_def dropCR_def\<close>)
  moreover have "\<not> list_ex (\<lambda>l. pgScannerLimit \<le> length l) ?ls"
    using plain unfolding list_all_iff list_ex_iff pgPlainLine_def by (meson not_le)
  ultimately show ?thesis by (simp only: scanLines_def fst_conv snd_conv) simp
qed

lemma pgParse_printed:
  assumes "list_all wfPgItem its"
  shows "pgParse \<lparr>pgPrefixRe = defaultPattern, pgClassify = c\<rparr> (printPgLog its, None) =
    Inr (pgStatementsOf c its 0)"
  using pgParseLoop_items [OF assms, of c 0 "[]" False]
  by (simp add: pgParse_def scan_printPgLog [OF assms])

text \<open>C19. Printing a log under the default prefix and parsing it with the default checker gives back
  its statements: the text with its continuation lines, the number of the first line, and the
  server's identity (the virtual transaction if one was active, else the transaction number if
  one was assigned, else none), in the simple and the extended protocol, with or without a
  duration.\<close>

theorem pg_log_round_trip:
  assumes "list_all wfPgItem its"
  shows "map_sum id (\<lambda>ch. pgParse ch (printPgLog its, None)) (NewPgChecker printable []) =
    Inr (Inr (pgStatementsOf DefaultClassifier its 0))"
  by (simp add: default_checker pgParse_printed [OF assms])

section \<open>The adapter contract\<close>

definition activeItem :: "PgItem \<Rightarrow> bool" where
  "activeItem it \<longleftrightarrow> wfPgItem it \<and> (case giVxid it of None \<Rightarrow> False | Some (b, l) \<Rightarrow> l \<noteq> ''0'')"

text \<open>The statements parsed from the printed log, and the virtual transaction each ran in. A list
  with an item that is not well formed or has no virtual transaction counts as the empty log.\<close>

definition pgStatements :: "(string \<Rightarrow> StatementKind) \<Rightarrow> PgItem list \<Rightarrow> Statement list" where
  "pgStatements c its =
     (if list_all activeItem its then
        (case pgParse \<lparr>pgPrefixRe = defaultPattern, pgClassify = c\<rparr> (printPgLog its, None) of
           Inr ss \<Rightarrow> ss | Inl _ \<Rightarrow> [])
      else [])"

definition pgTransactions :: "PgItem list \<Rightarrow> (string \<times> string) list" where
  "pgTransactions its = (if list_all activeItem its then map (\<lambda>it. the (giVxid it)) its else [])"

lemma active_wf: "list_all activeItem its \<Longrightarrow> list_all wfPgItem its"
  by (auto simp: list_all_iff activeItem_def)

lemma pgStatements_active:
  "list_all activeItem its \<Longrightarrow> pgStatements c its = pgStatementsOf c its 0"
  by (simp add: pgStatements_def pgParse_printed active_wf)

lemma pgStatements_inactive: "\<not> list_all activeItem its \<Longrightarrow> pgStatements c its = []"
  by (simp add: pgStatements_def)

lemma length_pgStatementsOf [simp]: "length (pgStatementsOf c its line) = length its"
  by (induction its arbitrary: line) (simp_all add: Let_def)

lemma pgStatementsOf_identity:
  "i < length its \<Longrightarrow> stTxID (pgStatementsOf c its line ! i) = itemIdentity (its ! i)"
  by (induction its arbitrary: i line) (auto simp: Let_def nth_Cons split: nat.split)

lemma active_identity:
  assumes "activeItem it"
  obtains b l where "giVxid it = Some (b, l)" "itemIdentity it = b @ CHR ''/'' # l" "CHR ''/'' \<notin> set b"
proof -
  obtain b l where v: "giVxid it = Some (b, l)" "l \<noteq> ''0''"
    using assms by (auto simp: activeItem_def split: option.splits)
  with assms have "allDigits b" by (simp add: activeItem_def wfPgItem_def)
  then have "CHR ''/'' \<notin> set b" by (auto simp: allDigits_def list_all_iff isDigit_def)
  with v show thesis using that [of b l] by (simp add: itemIdentity_def)
qed

lemma active_identity_iff:
  assumes "activeItem it" and "activeItem jt"
  shows "itemIdentity it = itemIdentity jt \<longleftrightarrow> the (giVxid it) = the (giVxid jt)"
proof -
  obtain b l where i: "giVxid it = Some (b, l)" "itemIdentity it = b @ CHR ''/'' # l" "CHR ''/'' \<notin> set b"
    using assms(1) by (rule active_identity)
  obtain b' l' where j: "giVxid jt = Some (b', l')" "itemIdentity jt = b' @ CHR ''/'' # l'" "CHR ''/'' \<notin> set b'"
    using assms(2) by (rule active_identity)
  show ?thesis
    using takeWhile_until [OF i(3), of l] takeWhile_until [OF j(3), of l'] i j by auto
qed

interpretation postgres: adapter "pgStatements c" pgTransactions for c
proof unfold_locales
  fix its and s
  show "length (pgTransactions its) = length (pgStatements c its)"
    by (simp add: pgTransactions_def pgStatements_active pgStatements_def pgParse_printed active_wf)
  assume s: "s \<in> set (pgStatements c its)"
  then have act: "list_all activeItem its" using pgStatements_inactive [of its c] by fastforce
  with s obtain i where "i < length its" "stTxID s = itemIdentity (its ! i)"
    by (auto simp: pgStatements_active in_set_conv_nth pgStatementsOf_identity)
  with act active_identity [of "its ! i"] show "stTxID s \<noteq> []" by (metis append_is_Nil_conv list.distinct(1) list_all_length)
next
  fix its i j
  assume "i < length (pgStatements c its)" "j < length (pgStatements c its)"
  moreover from this have act: "list_all activeItem its"
    using pgStatements_inactive [of its c] by fastforce
  ultimately have "i < length its" "j < length its" by (simp_all add: pgStatements_active)
  with act show "stTxID (pgStatements c its ! i) = stTxID (pgStatements c its ! j) \<longleftrightarrow>
      pgTransactions its ! i = pgTransactions its ! j"
    by (simp add: pgStatements_active pgTransactions_def pgStatementsOf_identity active_identity_iff list_all_length)
qed

lemma pgVerify_printed:
  assumes "list_all activeItem its"
  shows "pgVerify \<lparr>pgPrefixRe = defaultPattern, pgClassify = c\<rparr> (printPgLog its, None) =
    (let stmts = pgStatementsOf c its 0;
         u = card (writesIn stmts (map (\<lambda>it. the (giVxid it)) its))
     in (Some (reportOf stmts u), if u \<le> 1 then None else Some (NonAtomicError (reportOf stmts u))))"
  using postgres.whole_verdict [of c its] assms
  by (simp add: pgVerify_def Verify_def pgParse_printed active_wf pgStatements_active pgTransactions_def
      pgAdviseOnMissingTxID_def Let_def split: if_splits)

definition samplePgItem :: "string \<Rightarrow> PgItem" where
  "samplePgItem local =
     \<lparr>giYear = ''2026'', giMonth = ''07'', giDay = ''18'', giHour = ''01'', giMinute = ''58'', giSecond = ''59'',
      giFraction = ''266'', giZone = ''UTC'', giPid = ''71'', giXid = ''0'', giVxid = Some (''3'', local),
      giDuration = None, giPrepared = None, giFirst = ''INSERT INTO t'', giMore = [''VALUES (1)'']\<rparr>"

lemma samplePgItem_active:
  "activeItem (samplePgItem ''42'')" "activeItem (samplePgItem ''43'')"
  by (simp_all add: activeItem_def samplePgItem_def wfPgItem_def allDigits_def isDigit_def asciiIn_def
      nonSpaces_def pgItemLines_def pgPlainLine_def pgScannerLimit_def prefixText_def dateText_def
      vxidText_def bodyText_def durationText_def tagText_def)

lemma samplePgItem_wf: "wfPgItem (samplePgItem ''42'')"
  using samplePgItem_active by (simp add: activeItem_def)

theorem pg_log_round_trip_witness:
  "map_sum id (\<lambda>ch. pgParse ch (printPgLog [samplePgItem ''42''], None)) (NewPgChecker (\<lambda>_. True) []) =
    Inr (Inr [\<lparr>stSQL = ''INSERT INTO t'' @ newline # ''VALUES (1)'', stKind = KindWrite, stTxID = ''3/42'',
               stLine = 1\<rparr>])"
proof -
  have "DefaultClassifier (''INSERT INTO t'' @ newline # ''VALUES (1)'') = KindWrite" by code_simp
  then show ?thesis
    using pg_log_round_trip [of "[samplePgItem ''42'']" "\<lambda>_. True"] samplePgItem_wf
    by (simp add: samplePgItem_def itemIdentity_def Let_def)
qed

end
