(* ===== verification/PgAgreement.thy ===== *)
theory PgAgreement
  imports Accounts PgLog
begin

text \<open>
  The two verdicts on one run against PostgreSQL: the boundary's and that of the cross-check of the
  server's log. What the check relies on is the documented meaning of \<open>%v\<close>: every statement of a
  transaction carries the virtual transaction of the statement that began it, and every statement outside
  one a new one. \<open>vxidsOf\<close> states it of a log; unlike MySQL, PostgreSQL commits nothing implicitly, and a
  \<open>BEGIN\<close> inside a transaction changes nothing.
\<close>

section \<open>The log of a run\<close>






section \<open>The server's rule\<close>









section \<open>One rule below the other\<close>





section \<open>Properties\<close>




end
