(* ===== verification/PgxTracer.thy ===== *)
theory PgxTracer
  imports Session
begin

text \<open>
  \<open>e2e/pgxtracer.go\<close>: the reference integration for native pgx connections. The tracer keeps one
  session per connection and marks the connections whose current batch it wrapped in a transaction
  of its own. A \<open>*pgx.Conn\<close> is a number; the transaction status that pgx reports at the start of a
  batch (a byte of the wire protocol) is an argument of the event. Sessions are shared pointers of
  the map, so an operation on a session updates its entry.
\<close>

section \<open>The tracer\<close>

record Tracer =
  trDet :: nat
  trSessions :: "(nat, Session) gomap"
  trImplicitBatch :: "(nat, bool) gomap"

definition newPgxTracer :: "nat \<Rightarrow> Tracer" where
  "newPgxTracer d = \<lparr>trDet = d, trSessions = [], trImplicitBatch = []\<rparr>"

definition sessionFor :: "nat \<Rightarrow> Tracer \<Rightarrow> Tracer \<times> Session" where
  "sessionFor conn t =
     (case gm_get (trSessions t) conn of
        Some s \<Rightarrow> (t, s)
      | None \<Rightarrow> (let s = NewSession (trDet t)
                 in (t\<lparr>trSessions := gm_put conn s (trSessions t)\<rparr>, s)))"

text \<open>A call of a method on the session of a connection.\<close>

definition onConnSession ::
    "nat \<Rightarrow> (Session \<times> World \<Rightarrow> Session \<times> World) \<Rightarrow> Tracer \<times> World \<Rightarrow> Tracer \<times> World" where
  "onConnSession conn f tw =
     (let (t, s) = sessionFor conn (fst tw); (s', w') = f (s, snd tw)
      in (t\<lparr>trSessions := gm_put conn s' (trSessions t)\<rparr>, w'))"

definition forget :: "nat \<Rightarrow> Tracer \<Rightarrow> Tracer" where
  "forget conn t =
     t\<lparr>trSessions := AList.delete conn (trSessions t),
       trImplicitBatch := AList.delete conn (trImplicitBatch t)\<rparr>"

definition TraceQueryStart :: "nat \<Rightarrow> Ctx \<Rightarrow> string \<Rightarrow> int \<Rightarrow> Tracer \<times> World \<Rightarrow> Tracer \<times> World" where
  "TraceQueryStart conn ctx sql now tw = onConnSession conn (Observe ctx sql now) tw"

definition TraceQueryEnd :: "nat \<Rightarrow> Tracer \<times> World \<Rightarrow> Tracer \<times> World" where
  "TraceQueryEnd conn tw = tw"

definition TraceBatchStart :: "nat \<Rightarrow> char \<Rightarrow> Tracer \<times> World \<Rightarrow> Tracer \<times> World" where
  "TraceBatchStart conn txStatus tw =
     (if txStatus = CHR ''I'' then
        (let (t, w) = onConnSession conn beginTx tw
         in (t\<lparr>trImplicitBatch := gm_put conn True (trImplicitBatch t)\<rparr>, w))
      else tw)"

definition TraceBatchQuery :: "nat \<Rightarrow> Ctx \<Rightarrow> string \<Rightarrow> int \<Rightarrow> Tracer \<times> World \<Rightarrow> Tracer \<times> World" where
  "TraceBatchQuery conn ctx sql now tw = onConnSession conn (Observe ctx sql now) tw"

definition TraceBatchEnd :: "nat \<Rightarrow> Tracer \<times> World \<Rightarrow> Tracer \<times> World" where
  "TraceBatchEnd conn tw =
     (let (t, w) = tw;
          implicit = (case gm_get (trImplicitBatch t) conn of None \<Rightarrow> False | Some b \<Rightarrow> b);
          t1 = t\<lparr>trImplicitBatch := AList.delete conn (trImplicitBatch t)\<rparr>
      in if implicit then onConnSession conn endTx (t1, w) else (t1, w))"

text \<open>What pgx and its pool call, in the order they call it.\<close>

datatype TraceEvent =
    QueryStart nat Ctx string int
  | QueryEnd nat
  | BatchStart nat char
  | BatchQuery nat Ctx string int
  | BatchEnd nat
  | BeforeClose nat

fun traceStep :: "TraceEvent \<Rightarrow> Tracer \<times> World \<Rightarrow> Tracer \<times> World" where
  "traceStep (QueryStart c ctx sql now) tw = TraceQueryStart c ctx sql now tw"
| "traceStep (QueryEnd c) tw = TraceQueryEnd c tw"
| "traceStep (BatchStart c st) tw = TraceBatchStart c st tw"
| "traceStep (BatchQuery c ctx sql now) tw = TraceBatchQuery c ctx sql now tw"
| "traceStep (BatchEnd c) tw = TraceBatchEnd c tw"
| "traceStep (BeforeClose c) tw = (forget c (fst tw), snd tw)"

section \<open>Its sessions\<close>

text \<open>The session operations of a run: statements are observed, a batch sent on an idle connection is
  bracketed, and a closed connection's session is a new one when the connection is seen again.
  \<open>B\<close> holds the connections in a bracketed batch.\<close>

fun traceOps :: "nat set \<Rightarrow> TraceEvent list \<Rightarrow> (nat \<times> SessionOp) list" where
  "traceOps B [] = []"
| "traceOps B (QueryStart c ctx sql now # es) = (c, OpObserve ctx sql now) # traceOps B es"
| "traceOps B (QueryEnd c # es) = traceOps B es"
| "traceOps B (BatchStart c st # es) =
     (if st = CHR ''I'' then (c, OpBeginTx) # traceOps (insert c B) es else traceOps B es)"
| "traceOps B (BatchQuery c ctx sql now # es) = (c, OpObserve ctx sql now) # traceOps B es"
| "traceOps B (BatchEnd c # es) =
     (if c \<in> B then (c, OpEndTx) # traceOps (B - {c}) es else traceOps B es)"
| "traceOps B (BeforeClose c # es) = (c, OpEndTx) # traceOps (B - {c}) es"

text \<open>The simulation: a connection without a session stands for one with a new session.\<close>

definition sessionIn :: "Tracer \<Rightarrow> nat \<Rightarrow> Session" where
  "sessionIn t c = (case gm_get (trSessions t) c of Some s \<Rightarrow> s | None \<Rightarrow> NewSession (trDet t))"

definition inBatch :: "Tracer \<Rightarrow> nat \<Rightarrow> bool" where
  "inBatch t c \<longleftrightarrow> gm_get (trImplicitBatch t) c = Some True"

definition simulates :: "nat set \<Rightarrow> Tracer \<times> World \<Rightarrow> (nat \<Rightarrow> Session) \<times> World \<Rightarrow> bool" where
  "simulates B tw pw \<longleftrightarrow> snd tw = snd pw \<and> fst pw = sessionIn (fst tw) \<and>
     (\<forall>c. sDet (fst pw c) = trDet (fst tw)) \<and> (\<forall>c. c \<in> B \<longleftrightarrow> inBatch (fst tw) c)"

lemma gm_get_delete: "gm_get (AList.delete k m) j = (if j = k then None else gm_get m j)"
  by (simp add: delete_conv fun_upd_def)

lemma sessionStep_det: "sDet (fst (sessionStep x (s, w))) = sDet s"
  using sessionStep_effect(1) [of x s w] by (cases "sessionStep x (s, w)") auto

lemma sessionIn_simps [simp]:
  "sessionIn (t\<lparr>trSessions := gm_put c s (trSessions t)\<rparr>) k = (if k = c then s else sessionIn t k)"
  "sessionIn (t\<lparr>trImplicitBatch := m\<rparr>) = sessionIn t"
  "sessionIn (forget c t) k = (if k = c then NewSession (trDet t) else sessionIn t k)"
  by (auto simp: sessionIn_def gm_get_put gm_get_delete forget_def fun_eq_iff split: option.split)

lemma trDet_forget [simp]: "trDet (forget c t) = trDet t"
  by (simp add: forget_def)

lemma inBatch_simps [simp]:
  "inBatch (t\<lparr>trSessions := ss\<rparr>) = inBatch t"
  "inBatch (t\<lparr>trImplicitBatch := gm_put c True (trImplicitBatch t)\<rparr>) k \<longleftrightarrow> k = c \<or> inBatch t k"
  "inBatch (t\<lparr>trImplicitBatch := AList.delete c (trImplicitBatch t)\<rparr>) k \<longleftrightarrow> k \<noteq> c \<and> inBatch t k"
  "inBatch (forget c t) k \<longleftrightarrow> k \<noteq> c \<and> inBatch t k"
  by (auto simp: inBatch_def gm_get_put gm_get_delete forget_def fun_eq_iff)

lemma sessionFor_eq:
  "sessionFor c t = (fst (sessionFor c t), sessionIn t c)"
  "sessionIn (fst (sessionFor c t)) = sessionIn t"
  "inBatch (fst (sessionFor c t)) = inBatch t"
  "trDet (fst (sessionFor c t)) = trDet t"
proof -
  have new: "gm_get (trSessions t) c = None \<Longrightarrow> sessionIn t c = NewSession (trDet t)"
    and old: "gm_get (trSessions t) c = Some s \<Longrightarrow> sessionIn t c = s" for s
    by (simp_all add: sessionIn_def)
  show "sessionFor c t = (fst (sessionFor c t), sessionIn t c)"
    "sessionIn (fst (sessionFor c t)) = sessionIn t"
    "inBatch (fst (sessionFor c t)) = inBatch t"
    "trDet (fst (sessionFor c t)) = trDet t"
    using new old
    by (simp_all add: sessionFor_def Let_def fun_eq_iff split: option.split)
qed

lemma simulates_conn:
  assumes sim: "simulates B (t, w) (ss, w)"
  shows "simulates B (onConnSession c (sessionStep x) (t, w)) (poolStep (c, x) (ss, w))"
proof -
  obtain s' w' where step: "sessionStep x (ss c, w) = (s', w')"
    by (cases "sessionStep x (ss c, w)") auto
  have ss: "ss = sessionIn t" and det: "\<And>k. sDet (ss k) = trDet t" and B: "\<And>k. k \<in> B \<longleftrightarrow> inBatch t k"
    using sim unfolding simulates_def fst_conv snd_conv by blast+
  have det': "sDet s' = trDet t" using sessionStep_det [of x "ss c" w] step det [of c] by simp
  obtain t1 where t1: "sessionFor c t = (t1, ss c)" "trDet t1 = trDet t" "inBatch t1 = inBatch t"
      "sessionIn t1 = ss"
    using sessionFor_eq [of c t] ss by metis
  have "onConnSession c (sessionStep x) (t, w) = (t1\<lparr>trSessions := gm_put c s' (trSessions t1)\<rparr>, w')"
    by (simp add: onConnSession_def t1(1) step)
  then show ?thesis
    using det det' t1(2-4) B by (auto simp: simulates_def poolStep_def step fun_eq_iff)
qed

lemma traceStep_simulates:
  assumes "simulates B (t, w) (ss, w)"
  shows "\<exists>B' ops. traceOps B (e # es) = ops @ traceOps B' es \<and>
    simulates B' (traceStep e (t, w)) (fold poolStep ops (ss, w))"
proof (cases e)
  case (QueryStart c ctx sql now)
  then show ?thesis
    using simulates_conn [OF assms, of c "OpObserve ctx sql now"]
    by (intro exI [of _ B] exI [of _ "[(c, OpObserve ctx sql now)]"])
      (simp add: TraceQueryStart_def fun_eq_iff onConnSession_def)
next
  case (QueryEnd c)
  then show ?thesis
    using assms by (intro exI [of _ B] exI [of _ "[]"]) (simp add: TraceQueryEnd_def)
next
  case (BatchStart c st)
  show ?thesis
  proof (cases "st = CHR ''I''")
    case True
    obtain t1 w1 where conn: "onConnSession c beginTx (t, w) = (t1, w1)"
      by (cases "onConnSession c beginTx (t, w)") auto
    have "simulates B (t1, w1) (poolStep (c, OpBeginTx) (ss, w))"
      using simulates_conn [OF assms, of c OpBeginTx] conn by (simp add: onConnSession_def)
    then have "simulates (insert c B) (t1\<lparr>trImplicitBatch := gm_put c True (trImplicitBatch t1)\<rparr>, w1)
        (poolStep (c, OpBeginTx) (ss, w))"
      by (auto simp: simulates_def)
    then show ?thesis
      using BatchStart True conn
      by (intro exI [of _ "insert c B"] exI [of _ "[(c, OpBeginTx)]"]) (simp add: TraceBatchStart_def)
  next
    case False
    then show ?thesis
      using BatchStart assms by (intro exI [of _ B] exI [of _ "[]"]) (simp add: TraceBatchStart_def)
  qed
next
  case (BatchQuery c ctx sql now)
  then show ?thesis
    using simulates_conn [OF assms, of c "OpObserve ctx sql now"]
    by (intro exI [of _ B] exI [of _ "[(c, OpObserve ctx sql now)]"])
      (simp add: TraceBatchQuery_def onConnSession_def)
next
  case (BatchEnd c)
  let ?t1 = "t\<lparr>trImplicitBatch := AList.delete c (trImplicitBatch t)\<rparr>"
  have in_B: "c \<in> B \<longleftrightarrow> gm_get (trImplicitBatch t) c = Some True"
    using assms by (simp add: simulates_def inBatch_def)
  have cleared: "simulates (B - {c}) (?t1, w) (ss, w)"
    using assms by (auto simp: simulates_def)
  show ?thesis
  proof (cases "c \<in> B")
    case True
    then show ?thesis
      using BatchEnd in_B simulates_conn [OF cleared, of c OpEndTx]
      by (intro exI [of _ "B - {c}"] exI [of _ "[(c, OpEndTx)]"])
        (simp add: TraceBatchEnd_def Let_def onConnSession_def)
  next
    case False
    then have "B - {c} = B" by simp
    with False show ?thesis
      using BatchEnd in_B cleared
      by (intro exI [of _ B] exI [of _ "[]"])
        (auto simp: TraceBatchEnd_def Let_def split: option.splits)
  qed
next
  case (BeforeClose c)
  have "sDet (ss c) = trDet t"
    using assms unfolding simulates_def fst_conv snd_conv by blast
  then have "NewSession (trDet t) = (ss c)\<lparr>sTxID := 0\<rparr>"
    by (simp add: NewSession_def)
  then have "simulates (B - {c}) (forget c t, w) (poolStep (c, OpEndTx) (ss, w))"
    using assms
    by (auto simp: simulates_def poolStep_def endTx_eq fun_eq_iff)
  then show ?thesis
    using BeforeClose by (intro exI [of _ "B - {c}"] exI [of _ "[(c, OpEndTx)]"]) simp
qed

lemma traceRun_simulates:
  "simulates B tw pw \<Longrightarrow>
   \<exists>B'. simulates B' (fold traceStep es tw) (fold poolStep (traceOps B es) pw)"
proof (induction es arbitrary: B tw pw)
  case (Cons e es)
  obtain t w ss where tw: "tw = (t, w)" "pw = (ss, w)"
    using Cons.prems by (cases tw; cases pw) (auto simp: simulates_def)
  obtain B' ops where "traceOps B (e # es) = ops @ traceOps B' es"
      "simulates B' (traceStep e (t, w)) (fold poolStep ops (ss, w))"
    using traceStep_simulates Cons.prems unfolding tw by blast
  with Cons.IH show ?case by (simp add: tw)
qed auto

lemma new_tracer_simulates: "simulates {} (newPgxTracer d, w) (\<lambda>_. NewSession d, w)"
  by (simp add: simulates_def newPgxTracer_def NewSession_def sessionIn_def inBatch_def fun_eq_iff)

lemma traceRun_world:
  "snd (fold traceStep es (newPgxTracer d, w)) =
    snd (fold poolStep (traceOps {} es) (\<lambda>_. NewSession d, w))"
  using traceRun_simulates [OF new_tracer_simulates, of es d w] by (auto simp: simulates_def)

section \<open>Properties\<close>

text \<open>C21. However the callbacks of several connections interleave, a boundary under the tracer counts
  for each connection its auto-commit writes and the transactions it wrote in, where a batch sent
  on an idle connection is one transaction and a batch inside a transaction is part of it.\<close>

theorem tracer_counts_units_of_its_connections:
  assumes "wHeap w r = newBoundary d' p name"
    and "unat (dTxSeq (wDets w d)) + length (traceOps {} es) < 2 ^ 64"
  shows "boundaryUnits (wHeap (snd (fold traceStep es (newPgxTracer d, w))) r) =
    (\<Sum>c\<leftarrow>remdups (map fst (traceOps {} es)).
       sessionUnits (dClassify (wDets w d)) r (opsOf c (traceOps {} es)) None)"
  unfolding traceRun_world using assms by (rule pool_boundary_units)

theorem tracer_counts_units_of_its_connections_witness:
  "(let w = \<lparr>wDets = (\<lambda>_. New []), wHeap = (\<lambda>_. newBoundary 0 Background ''Job''), wNext = 1,
        wAllowlists = (\<lambda>_. NewAllowlist), wCalls = []\<rparr>;
      c = CtxBoundary 0 Background
    in boundaryUnits (wHeap (snd (fold traceStep
         [BatchStart 0 CHR ''I'', BatchQuery 0 c ''INSERT INTO t VALUES (1)'' 1,
          BatchQuery 0 c ''INSERT INTO t VALUES (2)'' 2, BatchEnd 0,
          QueryStart 0 c ''DELETE FROM u'' 3, QueryEnd 0] (newPgxTracer 0, w))) 0)) = 2"
proof -
  let ?w = "\<lparr>wDets = (\<lambda>_. New []), wHeap = (\<lambda>_. newBoundary 0 Background ''Job''), wNext = 1,
        wAllowlists = (\<lambda>_. NewAllowlist), wCalls = []\<rparr>"
  let ?c = "CtxBoundary 0 Background"
  let ?es = "[BatchStart 0 CHR ''I'', BatchQuery 0 ?c ''INSERT INTO t VALUES (1)'' 1,
          BatchQuery 0 ?c ''INSERT INTO t VALUES (2)'' 2, BatchEnd 0,
          QueryStart 0 ?c ''DELETE FROM u'' 3, QueryEnd 0]"
  have "(\<Sum>c\<leftarrow>remdups (map fst (traceOps {} ?es)).
      sessionUnits DefaultClassifier 0 (opsOf c (traceOps {} ?es)) None) = 2"
    by code_simp
  then show ?thesis
    using tracer_counts_units_of_its_connections [of ?w 0 0 Background "''Job''" 0 ?es]
    by (simp add: New_def Let_def del: fold_simps)
qed

end
