(* ===== verification/Spec2Isabelle.thy ===== *)
theory Spec2Isabelle
  imports Programs BaselineFile Throttle WorldTyping Deliveries Agreement PgMessages PgAgreement PgxTracer
begin

text \<open>
  Verification development of go-txnproof, a Go library that finds business operations whose
  writes do not share one transaction.

  \<^bold>\<open>The program.\<close> A \<open>Detector\<close> starts a \<open>Boundary\<close> for each business operation and puts it into the
  \<open>context.Context\<close>. The \<open>database/sql\<close> driver middleware (or a \<open>Session\<close> fed by hand, as the pgx
  tracer does) observes every statement: it classifies it, follows the connection's transaction,
  and records it in the boundary of its context with the identity of the transaction. \<open>Finish\<close>
  counts the write units (auto-commit writes and transactions that wrote) and reports a
  violation when there are two or more, unless an in-code mark or the allowlist covers them.
  Reporters collect, log, throttle or compare the reports with a baseline. Apart from that client
  side, \<open>crosscheck\<close> reads the server's own log, through an adapter for PostgreSQL or MySQL, and
  gives the same verdict from the server's transactions.

  \<^bold>\<open>Theories and sources.\<close>

  \<^item> \<open>Prelude\<close>, \<open>GoStrings\<close>, \<open>GoUnicode\<close>, \<open>GoContext\<close>, \<open>GoText\<close>: what the sources use of Go. Strings are
    byte strings, \<open>uint64\<close> is a \<open>64 word\<close>, a map whose order or size is observed is an association
    list; UTF-8, \<open>%q\<close>, contexts, regular expressions with leftmost-first matching, and the line
    scanner with its buffer limit.
  \<^item> \<open>Lexing\<close> (locale \<open>stripper\<close>), \<open>Classify\<close>: \<open>classify.go\<close>, the comment stripper, the buffered
    upper-casing and the keyword scan; equivalence with the plain specification \<open>classifySpec\<close>.
  \<^item> \<open>Report\<close>: \<open>reporter.go\<close>, \<open>attrs.go\<close>; \<open>Allowlist\<close> (locale \<open>usage_tracker\<close>): \<open>allowlist.go\<close>.
  \<^item> \<open>Boundary\<close> (locale \<open>tx_counter\<close>), \<open>Detector\<close>: \<open>detector.go\<close>, the tally of write units, recording,
    marks, \<open>Finish\<close>, and the operations that reach a boundary through a context. The state is the
    record \<open>World\<close>: detectors, the heap of boundaries, allowlists, the calls made on reporters.
  \<^item> \<open>Session\<close>: \<open>session.go\<close>, the transaction state of a connection, and any number of connections
    interleaved; \<open>PgxTracer\<close>: \<open>e2e/pgxtracer.go\<close>, the tracer simulated by a pool of sessions.
  \<^item> \<open>Driver\<close>: \<open>driver.go\<close>, the middleware around an arbitrary underlying driver; \<open>NullDB\<close>: \<open>nulldb.go\<close>.
  \<^item> \<open>SqlDB\<close>: \<open>*sql.DB\<close> and \<open>*sql.Tx\<close> over wrapped connections; \<open>Examples\<close>, \<open>ExampleReports\<close>: the handlers
    and resolvers under \<open>examples/\<close> on top of it, from the HTTP request or the resolver down to the driver, on
    any driver. \<open>SlogText\<close>: the \<open>SlogReporter\<close> of \<open>reporter.go\<close> behind the text handler of \<open>log/slog\<close>;
    \<open>Programs\<close>: the two \<open>main\<close> functions with their output, on the null database.
  \<^item> \<open>Relay\<close> (locale \<open>relay\<close>), \<open>Baseline\<close>, \<open>BaselineFile\<close>: \<open>baseline.go\<close>, the ratchet and its JSON file;
    \<open>GoJSON\<close>: the strings, tokens and values of \<open>encoding/json\<close>. \<open>Throttle\<close>: \<open>throttle.go\<close>.
  \<^item> \<open>Timeline\<close>: the detector under concurrency, an inductive relation \<open>reachable\<close> over the critical
    sections of the code, with its invariant; \<open>Verdicts\<close>: what follows for boundaries; \<open>WorldTyping\<close>: the
    typing rules of that state, stable as the world grows and kept by every step; \<open>Deliveries\<close>: the reporter
    calls of a step made one by one, anything happening between them, as the code makes them without a lock.
  \<^item> \<open>Crosscheck\<close> (locale \<open>adapter\<close>): \<open>crosscheck/\<close>, grouping, verdict and scenario markers.
  \<^item> \<open>Mycheck\<close>, \<open>GeneralLog\<close>: \<open>mycheck/\<close>, the reconstruction of transactions from MySQL's general
    query log, and a printer of that log. \<open>Pgcheck\<close>, \<open>PgLog\<close>: \<open>pgcheck/\<close>, the translation of a
    \<open>log_line_prefix\<close>, the parser, and a printer of the log under the default prefix; \<open>PgMessages\<close>: the verdict
    on any log under any prefix.
  \<^item> \<open>Accounts\<close> (locale \<open>paid_for\<close>), \<open>Agreement\<close>, \<open>PgAgreement\<close>: the boundary's verdict beside the
    cross-check's of the text of the MySQL or PostgreSQL log, on one run of the connections.

  \<^bold>\<open>Interfaces.\<close> Each locale is interpreted on the model's own definitions: \<open>stripper\<close> by both
    comment strippers, \<open>tx_counter\<close> by the boundary's tally, \<open>usage_tracker\<close> by the allowlist and the
    baseline, \<open>relay\<close> by the baseline and the throttling reporter, \<open>adapter\<close> by the MySQL
    reconstruction (against the positions of the statements that open transactions) and by the
    PostgreSQL parser (against the virtual transactions of the printed log), \<open>paid_for\<close> by the counting rules
    of the client and of each of the two servers, in both directions.

  \<^bold>\<open>What the lemmas show.\<close> The classifier meets its specification and ignores letter case; the tally
  counts distinct identities past its inline slots; the verdict of a boundary is a function of
  what reached it before its locked finish step, under every interleaving, and can always be
  reached, and its reporter calls are made once each, however those of several goroutines interleave;
  identities of one detector are fresh for 2^64 transactions, while the transactions of several detectors are
  merged; a wrapped connection does exactly the documented session operations, whatever the driver answers, and a retried statement
  is observed once; the example server, on any driver and whatever fails, reports what its comments
  promise, and both example programs print what their README files show; the reporters forward what they
  document; a saved baseline is loaded again up to ill-formed UTF-8; both log parsers give back what their
  printers wrote, and both cross-checks count the server's transactions, on any log, a MySQL scenario those of the whole log that wrote between its markers. On the same run the
  MySQL cross-check is at least as strict as the boundary, and equal to it when transactions are bracketed
  and nothing commits implicitly; the PostgreSQL cross-check equals it whenever the writes are all in the
  boundary and the driver begins no transaction inside another. Reports are true of the boundary they are delivered with.

  \<^bold>\<open>Bounds.\<close> Loops are recursions with a termination proof. The one fuelled function is the JSON tokenizer,
  run on the length of its input plus one, which is enough (\<open>tokensFuel_enough\<close>). The two endless
  loops of the strippers are also given as partial functions and shown to return. Counts over
  identities assume fewer than 2^64 transactions of a detector, as a hypothesis. The scanners
  refuse a line of 4 MiB, as the code sets the buffer.

  \<^bold>\<open>Not modelled.\<close> The version constant, written by the release tool. Of the programs under
  \<open>examples/\<close>, the HTTP transport and the graphql package are parameters of their \<open>main\<close>; \<open>http.ServeMux\<close> is
  there for the patterns they register and clean paths. Mutexes are the atomicity of steps; Go's memory model
  below them is not. Where a step of \<open>Timeline\<close> ends with a loop over the reporters, its calls are in one
  piece there and one by one in \<open>Deliveries\<close>. An \<open>io.Reader\<close> is the bytes it delivers and the error it ends with. The Unicode table
  behind \<open>strconv.IsPrint\<close> is the parameter \<open>printable\<close>. Error chains keep what \<open>errors.Is\<close> and
  \<open>errors.As\<close> of the sources observe. A pattern given to \<open>WithPrefixPattern\<close> is any matching function,
  and \<open>regexp.Compile\<close>'s size limits are left out.
\<close>

end
